(* ===== verification/Prelude.thy ===== *)
theory Prelude
  imports Main "HOL-Library.Word" "HOL-Library.Multiset" "HOL-Library.Monad_Syntax"
begin

text \<open>
  Shared vocabulary of the development: the C integer types of
  \<^verbatim>\<open>coremark/src/core_portme.h\<close>, failure as \<open>None\<close>, bounds-checked arrays, and the two loop
  combinators with their total-correctness rules.

  Conventions.  A C integer of width \<open>w\<close> is a \<open>w word\<close>; the signedness of the C type shows in the
  operations (\<open>sint\<close>, \<open>scast\<close>, \<open>signed_drop_bit\<close> for signed reads, \<open>uint\<close>, \<open>unat\<close>, \<open>ucast\<close>,
  \<open>drop_bit\<close> for unsigned ones).  A computation that C leaves undefined (an access outside of its
  object, a dereference of \<open>NULL\<close>) or that does not terminate is \<open>None\<close>, so a theorem that ends in
  \<open>Some\<close> says that the code is memory safe and returns.
\<close>

unbundle bit_operations_syntax

named_theorems frame_simps \<open>facts that an operation leaves a part of the state alone\<close>
named_theorems fits \<open>bounds of machine integers\<close>

section \<open>C integer types\<close>

type_synonym ee_s8 = "8 word"
type_synonym ee_u8 = "8 word"
type_synonym ee_s16 = "16 word"
type_synonym ee_u16 = "16 word"
type_synonym ee_s32 = "32 word"
type_synonym ee_u32 = "32 word"

text \<open>String literals as byte arrays (without the terminating \<open>NUL\<close>).\<close>

definition bytes :: "string \<Rightarrow> ee_u8 list" where
  "bytes s = map of_char s"

lemma length_bytes [simp]: "length (bytes s) = length s"
  by (simp add: bytes_def)

text \<open>C division of signed integers truncates towards zero; the remainder has the sign of the
  dividend.\<close>

definition c_div :: "int \<Rightarrow> int \<Rightarrow> int" where
  "c_div a b = (if b = 0 then 0 else sgn a * sgn b * (\<bar>a\<bar> div \<bar>b\<bar>))"

definition c_rem :: "int \<Rightarrow> int \<Rightarrow> int" where
  "c_rem a b = a - c_div a b * b"

section \<open>Arrays\<close>

definition aread :: "'a list \<Rightarrow> nat \<Rightarrow> 'a option" where
  "aread xs i = (if i < length xs then Some (xs ! i) else None)"

definition awrite :: "'a list \<Rightarrow> nat \<Rightarrow> 'a \<Rightarrow> 'a list option" where
  "awrite xs i v = (if i < length xs then Some (xs[i := v]) else None)"

lemma aread_in [simp]: "i < length xs \<Longrightarrow> aread xs i = Some (xs ! i)"
  by (simp add: aread_def)

lemma awrite_in [simp]: "i < length xs \<Longrightarrow> awrite xs i v = Some (xs[i := v])"
  by (simp add: awrite_def)

lemma aread_Some_iff: "aread xs i = Some v \<longleftrightarrow> i < length xs \<and> xs ! i = v"
  by (auto simp: aread_def)

lemma awrite_Some_iff: "awrite xs i v = Some ys \<longleftrightarrow> i < length xs \<and> ys = xs[i := v]"
  by (auto simp: awrite_def)

section \<open>Counting loops\<close>

text \<open>\<open>for (i = lo; i < hi; i++) body\<close>, where the body neither assigns \<open>i\<close> nor leaves the loop.\<close>

function for_loop :: "nat \<Rightarrow> nat \<Rightarrow> (nat \<Rightarrow> 's \<Rightarrow> 's option) \<Rightarrow> 's \<Rightarrow> 's option" where
  "for_loop lo hi body s =
     (if lo < hi then Option.bind (body lo s) (for_loop (Suc lo) hi body) else Some s)"
  by pat_completeness auto
termination
  by (relation "measure (\<lambda>(lo, hi, body, s). hi - lo)") auto

declare for_loop.simps [simp del]

lemma for_loop_done [simp]: "hi \<le> lo \<Longrightarrow> for_loop lo hi body s = Some s"
  by (simp add: for_loop.simps)

lemma for_loop_step: "lo < hi \<Longrightarrow>
    for_loop lo hi body s = Option.bind (body lo s) (for_loop (Suc lo) hi body)"
  by (subst for_loop.simps) simp

lemma for_loop_rule:
  assumes "lo \<le> hi" and "P lo s"
    and "\<And>j t. lo \<le> j \<Longrightarrow> j < hi \<Longrightarrow> P j t \<Longrightarrow> \<exists>t'. body j t = Some t' \<and> P (Suc j) t'"
  shows "\<exists>s'. for_loop lo hi body s = Some s' \<and> P hi s'"
  using assms
proof (induction "hi - lo" arbitrary: lo s)
  case 0
  then have "lo = hi" by simp
  with "0.prems"(2) show ?case by simp
next
  case (Suc n)
  then have less: "lo < hi" by simp
  from Suc.prems(3)[of lo s] less Suc.prems(2)
  obtain t where t: "body lo s = Some t" "P (Suc lo) t" by auto
  have "\<exists>s'. for_loop (Suc lo) hi body t = Some s' \<and> P hi s'"
    using Suc.hyps(2) less t(2) Suc.prems(3) by (intro Suc.hyps(1)) auto
  with less t(1) show ?case by (simp add: for_loop_step)
qed

lemma for_loop_cong:
  assumes "\<And>j t. lo \<le> j \<Longrightarrow> j < hi \<Longrightarrow> f j t = g j t"
  shows "for_loop lo hi f s = for_loop lo hi g s"
  using assms
proof (induction "hi - lo" arbitrary: lo s)
  case 0
  then show ?case by simp
next
  case (Suc n)
  then have less: "lo < hi" by simp
  have "for_loop (Suc lo) hi f = for_loop (Suc lo) hi g"
    using Suc.hyps(2) less Suc.prems by (intro ext Suc.hyps(1)) auto
  with less Suc.prems[of lo] show ?case by (simp add: for_loop_step)
qed

text \<open>A loop whose body never fails is a fold.\<close>

lemma for_loop_fold:
  assumes "\<And>j t. lo \<le> j \<Longrightarrow> j < hi \<Longrightarrow> body j t = Some (f j t)"
  shows "for_loop lo hi body s = Some (fold f [lo..<hi] s)"
  using assms
proof (induction "hi - lo" arbitrary: lo s)
  case 0
  then show ?case by simp
next
  case (Suc n)
  then have less: "lo < hi" by simp
  have "for_loop (Suc lo) hi body (f lo s) = Some (fold f [Suc lo..<hi] (f lo s))"
    using Suc.hyps(2) less Suc.prems by (intro Suc.hyps(1)) auto
  with less Suc.prems[of lo] show ?case by (simp add: for_loop_step upt_conv_Cons)
qed

section \<open>Conditional loops\<close>

text \<open>\<open>while (cond) body\<close>: both the condition and the body may fail; a loop that does not end is
  \<open>None\<close>.\<close>

partial_function (option) while_loop ::
    "('s \<Rightarrow> bool option) \<Rightarrow> ('s \<Rightarrow> 's option) \<Rightarrow> 's \<Rightarrow> 's option" where
  "while_loop c b s =
     Option.bind (c s) (\<lambda>g. if g then Option.bind (b s) (while_loop c b) else Some s)"

declare while_loop.simps [code]

lemma while_loop_step: "c s = Some True \<Longrightarrow> b s = Some s' \<Longrightarrow> while_loop c b s = while_loop c b s'"
  by (subst while_loop.simps) simp

lemma while_loop_stop: "c s = Some False \<Longrightarrow> while_loop c b s = Some s"
  by (subst while_loop.simps) simp

lemma while_loop_rule:
  assumes wf: "wf r" and start: "I s"
    and step: "\<And>t. I t \<Longrightarrow> c t = Some False \<or>
                  c t = Some True \<and> (\<exists>t'. b t = Some t' \<and> I t' \<and> (t', t) \<in> r)"
  shows "\<exists>s'. while_loop c b s = Some s' \<and> I s' \<and> c s' = Some False"
  using wf start
proof (induction s rule: wf_induct_rule)
  case (less s)
  from step[OF less.prems] show ?case
  proof
    assume "c s = Some False"
    with less.prems show ?thesis by (subst while_loop.simps) simp
  next
    assume "c s = Some True \<and> (\<exists>t'. b s = Some t' \<and> I t' \<and> (t', s) \<in> r)"
    then obtain t' where "c s = Some True" "b s = Some t'" "I t'" "(t', s) \<in> r" by blast
    with less.IH[of t'] show ?thesis by (subst while_loop.simps) simp
  qed
qed

text \<open>A loop that writes \<open>f i\<close> at \<open>base + i\<close> for each \<open>i\<close> replaces that segment of the array.\<close>

lemma for_loop_fill:
  assumes "lo \<le> hi" and "base + hi \<le> length m"
    and "\<And>i m. lo \<le> i \<Longrightarrow> i < hi \<Longrightarrow> body i m = awrite m (base + i) (f i)"
  shows "for_loop lo hi body m = Some (take (base + lo) m @ map f [lo..<hi] @ drop (base + hi) m)"
proof -
  let ?P = "\<lambda>j m'. m' = take (base + lo) m @ map f [lo..<j] @ drop (base + j) m"
  have "\<exists>m'. for_loop lo hi body m = Some m' \<and> ?P hi m'"
  proof (rule for_loop_rule)
    fix j t assume j: "lo \<le> j" "j < hi" and t: "?P j t"
    have "t[base + j := f j] = take (base + lo) m @ map f [lo..<Suc j] @ drop (base + Suc j) m"
      using j assms(2) unfolding t
      by (intro nth_equalityI) (auto simp: nth_append nth_list_update less_Suc_eq)
    then show "\<exists>t'. body j t = Some t' \<and> ?P (Suc j) t'"
      using j assms(2) by (simp add: assms(3) t)
  qed (use assms(1) in simp_all)
  then show ?thesis by simp
qed

lemma for_loop_append:
  assumes "lo \<le> mid" and "mid \<le> hi"
  shows "for_loop lo hi f s = Option.bind (for_loop lo mid f s) (for_loop mid hi f)"
  using assms
proof (induction "mid - lo" arbitrary: lo s)
  case 0
  then show ?case by simp
next
  case (Suc n)
  then have "lo < mid" "lo < hi" by simp_all
  moreover have "for_loop (Suc lo) hi f t = Option.bind (for_loop (Suc lo) mid f t) (for_loop mid hi f)" for t
    using Suc.hyps(2) Suc.prems \<open>lo < mid\<close> by (intro Suc.hyps(1)) auto
  ultimately show ?case by (cases "f lo s") (simp_all add: for_loop_step)
qed

lemma for_loop_shift: "for_loop lo hi (\<lambda>j. f (c + j)) s = for_loop (c + lo) (c + hi) f s"
proof (induction "hi - lo" arbitrary: lo s)
  case 0
  then show ?case by simp
next
  case (Suc n)
  then have "lo < hi" by simp
  moreover have "for_loop (Suc lo) hi (\<lambda>j. f (c + j)) t = for_loop (Suc (c + lo)) (c + hi) f t" for t
    using Suc.hyps(1)[of "Suc lo" t] Suc.hyps(2) by simp
  ultimately show ?case by (cases "f (c + lo) s") (simp_all add: for_loop_step)
qed

text \<open>Two nested counting loops over the cells of an \<open>n * m\<close> array are one loop over its cells.\<close>

lemma for_loop_nested:
  "for_loop 0 n (\<lambda>i. for_loop 0 m (\<lambda>j. f (i * m + j))) s = for_loop 0 (n * m) f s"
proof -
  have "for_loop lo n (\<lambda>i. for_loop 0 m (\<lambda>j. f (i * m + j))) s = for_loop (lo * m) (n * m) f s"
    if "lo \<le> n" for lo
    using that
  proof (induction "n - lo" arbitrary: lo s)
    case 0
    then show ?case by simp
  next
    case (Suc k)
    then have lo: "lo < n" by simp
    have row: "for_loop 0 m (\<lambda>j. f (lo * m + j)) s = for_loop (lo * m) (Suc lo * m) f s"
      using for_loop_shift[of 0 m f "lo * m" s] by (simp add: add.commute)
    have rest: "for_loop (Suc lo) n (\<lambda>i. for_loop 0 m (\<lambda>j. f (i * m + j))) t
        = for_loop (Suc lo * m) (n * m) f t" for t
      using Suc.hyps lo by (intro Suc.hyps(1)) auto
    have "lo * m \<le> Suc lo * m" "Suc lo * m \<le> n * m"
      using lo by (simp_all only: mult_le_mono1 Suc_leI le_SucI order_refl)
    note split = for_loop_append[OF this, of f s]
    show ?case
    proof (cases "for_loop (lo * m) (Suc lo * m) f s")
      case None
      then show ?thesis using lo by (simp only: split for_loop_step row) simp
    next
      case (Some t)
      then show ?thesis using lo by (simp only: split for_loop_step row bind.bind_lunit rest)
    qed
  qed
  from this[of 0] show ?thesis by simp
qed

text \<open>A loop that replaces cell after cell by a function of its position and old value.\<close>

lemma for_loop_map:
  assumes "n \<le> length t0"
    and "\<And>k t. k < n \<Longrightarrow> length t = length t0 \<Longrightarrow> body k t = Some (t[k := g k (t ! k)])"
  shows "for_loop 0 n body t0 = Some (map (\<lambda>k. g k (t0 ! k)) [0..<n] @ drop n t0)"
proof -
  let ?P = "\<lambda>j t. t = map (\<lambda>k. g k (t0 ! k)) [0..<j] @ drop j t0"
  have "\<exists>t. for_loop 0 n body t0 = Some t \<and> ?P n t"
  proof (rule for_loop_rule)
    fix j t assume j: "0 \<le> j" "j < n" and t: "?P j t"
    then have len: "length t = length t0" "t ! j = t0 ! j" using assms(1) by (simp_all add: nth_append)
    have "t[j := g j (t0 ! j)] = map (\<lambda>k. g k (t0 ! k)) [0..<Suc j] @ drop (Suc j) t0"
      using j assms(1) unfolding t
      by (intro nth_equalityI) (auto simp: nth_append nth_list_update less_Suc_eq)
    then show "\<exists>t'. body j t = Some t' \<and> ?P (Suc j) t'"
      using assms(2)[OF j(2) len(1)] len(2) by simp
  qed simp_all
  then show ?thesis by simp
qed

text \<open>A loop that accumulates into one cell.\<close>

lemma for_loop_accumulate:
  fixes h :: "nat \<Rightarrow> 'a::comm_monoid_add"
  assumes "p < length t0"
    and "\<And>k t. k < n \<Longrightarrow> length t = length t0 \<Longrightarrow> body k t = Some (t[p := t ! p + h k])"
  shows "for_loop 0 n body t0 = Some (t0[p := t0 ! p + (\<Sum>k<n. h k)])"
proof -
  let ?P = "\<lambda>j t. t = t0[p := t0 ! p + (\<Sum>k<j. h k)]"
  have "\<exists>t. for_loop 0 n body t0 = Some t \<and> ?P n t"
    by (rule for_loop_rule) (use assms in \<open>auto simp: ac_simps\<close>)
  then show ?thesis by simp
qed

text \<open>A loop whose guard holds on an invariant set of states does not end.\<close>

lemma while_loop_diverges:
  assumes start: "I s"
    and step: "\<And>t. I t \<Longrightarrow> c t = Some True \<and> (\<forall>t'. b t = Some t' \<longrightarrow> I t')"
  shows "while_loop c b s = None"
proof (rule ccontr)
  assume "while_loop c b s \<noteq> None"
  then obtain r where "while_loop c b s = Some r" by auto
  moreover have "while_loop c b s = Some r \<Longrightarrow> \<not> I s" for s r
  proof (rule while_loop.raw_induct[where P = "\<lambda>c' b' s r. c' = c \<longrightarrow> b' = b \<longrightarrow> \<not> I s", rule_format])
    fix w c' b' s r
    assume IH: "\<And>c' b' s r. w c' b' s = Some r \<Longrightarrow> c' = c \<Longrightarrow> b' = b \<Longrightarrow> \<not> I s"
      and eq: "Option.bind (c' s) (\<lambda>g. if g then Option.bind (b' s) (w c' b') else Some s) = Some r"
      and same: "c' = c" "b' = b"
    show "\<not> I s"
    proof
      assume "I s"
      from step[OF this] eq same obtain t where "b s = Some t" "w c b t = Some r" "I t"
        by (auto simp: bind_eq_Some_conv)
      with IH[of c b t r] show False by simp
    qed
  qed simp_all
  ultimately show False using start by blast
qed

end
