(* ===== verification/Crc.thy ===== *)
theory Crc
  imports Prelude
begin

text \<open>
  The CRC service functions of \<^verbatim>\<open>coremark/src/core_util.c\<close>: \<open>crcu8\<close>, \<open>crcu16\<close>, \<open>crcu32\<close> and
  \<open>crc16\<close>, with the theorems that make them a check code.
\<close>

section \<open>The code\<close>

text \<open>One turn of the loop of \<open>crcu8\<close>: state \<open>(data, crc)\<close>; the locals \<open>x16\<close> and \<open>carry\<close> are set
  before they are used in every turn.\<close>

definition crcu8_step :: "ee_u8 \<times> ee_u16 \<Rightarrow> ee_u8 \<times> ee_u16" where
  "crcu8_step = (\<lambda>(data, crc).
     let x16 = (data AND 1) XOR (ucast crc AND 1);
         data = drop_bit 1 data;
         (crc, carry) = (if x16 = 1 then (crc XOR 0x4002, 1) else (crc, 0 :: ee_u8));
         crc = drop_bit 1 crc;
         crc = (if carry \<noteq> 0 then crc OR 0x8000 else crc AND 0x7fff)
     in (data, crc))"

definition crcu8 :: "ee_u8 \<Rightarrow> ee_u16 \<Rightarrow> ee_u16" where
  "crcu8 data crc = snd ((crcu8_step ^^ 8) (data, crc))"

definition crcu16 :: "ee_u16 \<Rightarrow> ee_u16 \<Rightarrow> ee_u16" where
  "crcu16 newval crc = (let crc = crcu8 (ucast newval) crc in crcu8 (ucast (drop_bit 8 newval)) crc)"

text \<open>\<open>crc16\<close> takes a signed 16-bit value and reinterprets it as unsigned: the same word.\<close>

definition crc16 :: "ee_s16 \<Rightarrow> ee_u16 \<Rightarrow> ee_u16" where
  "crc16 newval crc = crcu16 newval crc"

definition crcu32 :: "ee_u32 \<Rightarrow> ee_u16 \<Rightarrow> ee_u16" where
  "crcu32 newval crc =
     (let crc = crc16 (ucast newval) crc in crc16 (ucast (drop_bit 16 newval)) crc)"

section \<open>Reference: one bit of the reflected CRC-16 with polynomial 0xA001\<close>

definition crc_bit :: "bool \<Rightarrow> ee_u16 \<Rightarrow> ee_u16" where
  "crc_bit b c = (if b \<noteq> bit c 0 then drop_bit 1 c XOR 0xA001 else drop_bit 1 c)"

definition crc_bits :: "bool list \<Rightarrow> ee_u16 \<Rightarrow> ee_u16" where
  "crc_bits bs c = fold crc_bit bs c"

text \<open>The bits of a word, least significant first.\<close>

definition lsb_bits :: "'a::len word \<Rightarrow> bool list" where
  "lsb_bits w = map (bit w) [0..<LENGTH('a)]"

lemma length_lsb_bits [simp]: "length (lsb_bits (w :: 'a::len word)) = LENGTH('a)"
  by (simp add: lsb_bits_def)

lemma xor_cancel: "(a XOR k = b XOR k) \<longleftrightarrow> a = (b :: 'a::len word)"
  by (metis xor.assoc xor_self_eq xor.right_neutral)

text \<open>Two 16-bit words are equal when their sixteen bits are.\<close>

lemma word16_eqI:
  assumes "list_all (\<lambda>n. bit (a :: 16 word) n = bit b n) [0..<16]"
  shows "a = b"
  using assms by (intro bit_word_eqI) (auto simp: list_all_iff)

lemma low_bit: "(w AND 1 :: 'a::len word) = of_bool (bit w 0)"
  by (rule bit_word_eqI) (auto simp: bit_simps bit_1_iff)

lemma crcu8_step_eq: "crcu8_step (d, c) = (drop_bit 1 d, crc_bit (bit d 0) c)"
proof -
  have "(ucast c AND 1 :: 8 word) = of_bool (bit c 0)"
    by (simp add: low_bit bit_simps)
  then have x: "((d AND 1) XOR (ucast c AND 1) = (1 :: 8 word)) \<longleftrightarrow> bit d 0 \<noteq> bit c 0"
    by (cases "bit d 0"; cases "bit c 0") (simp_all add: low_bit)
  have top: "16 \<le> n \<Longrightarrow> \<not> bit c n" for n
    by (auto dest: bit_imp_le_length)
  have one: "drop_bit 1 (c XOR 0x4002) OR 0x8000 = drop_bit 1 c XOR 0xA001"
    by (rule word16_eqI) (simp add: bit_simps upt_rec, rule top, simp)
  have zero: "drop_bit 1 c AND 0x7fff = drop_bit 1 c"
    by (rule word16_eqI) (simp add: bit_simps upt_rec top)
  show ?thesis
    using x one zero by (simp add: crcu8_step_def crc_bit_def Let_def)
qed

section \<open>The code computes the reference\<close>

lemma crc_bits_Nil [simp]: "crc_bits [] c = c"
  by (simp add: crc_bits_def)

lemma crc_bits_append: "crc_bits (as @ bs) c = crc_bits bs (crc_bits as c)"
  by (simp add: crc_bits_def)

lemma crcu8_steps:
  "(crcu8_step ^^ n) (d, c) = (drop_bit n d, crc_bits (map (bit d) [0..<n]) c)"
  by (induction n) (simp_all add: crcu8_step_eq crc_bits_def bit_simps)

lemma crcu8_bits: "crcu8 d c = crc_bits (lsb_bits d) c"
  by (simp add: crcu8_def crcu8_steps lsb_bits_def)

lemma lsb_bits_split:
  "lsb_bits (w :: 16 word) = lsb_bits (ucast w :: 8 word) @ lsb_bits (ucast (drop_bit 8 w) :: 8 word)"
  by (rule nth_equalityI) (auto simp: lsb_bits_def nth_append bit_simps)

lemma crcu16_bits: "crcu16 w c = crc_bits (lsb_bits w) c"
  by (simp add: crcu16_def Let_def crcu8_bits crc_bits_append lsb_bits_split)

lemma lsb_bits_split32:
  "lsb_bits (w :: 32 word) = lsb_bits (ucast w :: 16 word) @ lsb_bits (ucast (drop_bit 16 w) :: 16 word)"
  by (rule nth_equalityI) (auto simp: lsb_bits_def nth_append bit_simps)

lemma crcu32_bits: "crcu32 w c = crc_bits (lsb_bits w) c"
  by (simp add: crcu32_def crc16_def Let_def crcu16_bits crc_bits_append lsb_bits_split32)

section \<open>Algebra of the reference\<close>

lemma crc_bit_linear: "crc_bit (b = (\<not> b')) (c XOR c') = crc_bit b c XOR crc_bit b' c'"
  by (cases b; cases b'; cases "bit c 0"; cases "bit c' 0")
    (simp_all add: crc_bit_def bit_xor_iff drop_bit_xor ac_simps xor.left_commute)

text \<open>A bit of data enters the register where its own lowest bit stands.\<close>

lemma crc_bit_absorb: "crc_bit b c = crc_bit False (c XOR of_bool b)"
  by (cases b; cases "bit c 0")
    (simp_all add: crc_bit_def bit_xor_iff drop_bit_xor bit_0 even_xor_iff)

lemma crc_bit_inj: "crc_bit b c = crc_bit b c' \<Longrightarrow> c = c'"
proof -
  assume eq: "crc_bit b c = crc_bit b c'"
  have top: "bit (crc_bit b x) 15 \<longleftrightarrow> b \<noteq> bit x 0" for x
    by (auto simp: crc_bit_def bit_simps dest: bit_imp_le_length)
  have low: "bit c 0 = bit c' 0" using top[of c] top[of c'] eq by auto
  have "drop_bit 1 c = drop_bit 1 c'"
    using eq low by (auto simp: crc_bit_def xor_cancel split: if_splits)
  then have high: "bit c (Suc n) = bit c' (Suc n)" for n
    by (metis bit_drop_bit_eq comp_apply plus_1_eq_Suc)
  show "c = c'"
    by (rule bit_word_eqI) (metis low high not0_implies_Suc)
qed

lemma crc_bits_inj: "crc_bits bs c = crc_bits bs c' \<Longrightarrow> c = c'"
  by (induction bs arbitrary: c c') (auto simp: crc_bits_def dest: crc_bit_inj)

lemma crc_bits_linear:
  "length as = length bs \<Longrightarrow>
     crc_bits (map2 (\<lambda>x y. x = (\<not> y)) as bs) (c XOR c') = crc_bits as c XOR crc_bits bs c'"
  by (induction as bs arbitrary: c c' rule: list_induct2)
    (simp_all add: crc_bits_def crc_bit_linear)

lemma lsb_bits_xor: "lsb_bits (v XOR w :: 'a::len word) = map2 (\<lambda>x y. x = (\<not> y)) (lsb_bits v) (lsb_bits w)"
  by (rule nth_equalityI) (simp_all add: lsb_bits_def bit_simps)

lemma lsb_bits_inj: "lsb_bits (v :: 'a::len word) = lsb_bits w \<Longrightarrow> v = w"
  by (rule bit_word_eqI) (auto simp: lsb_bits_def)


text \<open>Data of sixteen bits enters the register as a whole: the code on \<open>newval\<close> from \<open>crc\<close> is the
  code on zero data from \<open>crc XOR newval\<close>.\<close>

lemma crc_bits_absorb:
  assumes "length bs \<le> 16"
  shows "crc_bits bs c = crc_bits (replicate (length bs) False) (c XOR horner_sum of_bool 2 bs)"
  using assms
proof (induction bs arbitrary: c)
  case Nil
  then show ?case by simp
next
  case (Cons b bs)
  let ?h = "horner_sum of_bool 2 bs :: 16 word"
  have "crc_bit b c XOR ?h = crc_bit False (c XOR (of_bool b + 2 * ?h))"
  proof -
    let ?d = "horner_sum of_bool 2 (b # bs) :: 16 word"
    have low: "bit ?d 0 \<longleftrightarrow> b"
      by (simp only: bit_horner_sum_bit_word_iff) simp
    have "drop_bit 1 ?d = ?h"
      using Cons.prems
      by (intro bit_word_eqI) (auto simp: bit_drop_bit_eq bit_horner_sum_bit_word_iff simp del: horner_sum_simps)
    then have "drop_bit 1 (c XOR ?d) = drop_bit 1 c XOR ?h"
      by (simp add: drop_bit_xor)
    with low show ?thesis
      by (auto simp: crc_bit_def bit_xor_iff ac_simps)
  qed
  with Cons show ?case by (simp add: crc_bits_def)
qed


lemma crcu16_absorb: "crcu16 w c = crcu16 0 (c XOR w)"
proof -
  have "lsb_bits (0 :: 16 word) = replicate 16 False"
    by (rule nth_equalityI) (simp_all add: lsb_bits_def)
  moreover have "horner_sum of_bool 2 (lsb_bits w) = w"
    by (rule bit_word_eqI) (simp add: bit_horner_sum_bit_word_iff lsb_bits_def)
  ultimately show ?thesis
    using crc_bits_absorb[of "lsb_bits w" c] by (simp add: crcu16_bits)
qed

lemma crcu16_inj_crc: "crcu16 w c = crcu16 w c' \<longleftrightarrow> c = c'"
  by (auto simp: crcu16_bits dest: crc_bits_inj)

lemma crcu16_inj_data: "crcu16 w c = crcu16 w' c \<longleftrightarrow> w = w'"
proof
  assume "crcu16 w c = crcu16 w' c"
  then have "c XOR w = c XOR w'"
    by (simp add: crcu16_absorb[of w] crcu16_absorb[of w'] crcu16_inj_crc)
  then show "w = w'" by (metis xor.commute xor_cancel)
qed simp

lemma fold_crc16_inj: "fold crc16 xs c = fold crc16 xs c' \<longleftrightarrow> c = c'"
  by (induction xs arbitrary: c c') (auto simp: crc16_def crcu16_inj_crc)

lemma crcu16_linear: "crcu16 (v XOR w) (c XOR d) = crcu16 v c XOR crcu16 w d"
  by (simp add: crcu16_bits lsb_bits_xor crc_bits_linear)

section \<open>Properties\<close>

text \<open>C1. The loop of \<open>crcu8\<close> computes the reflected CRC-16 with polynomial 0xA001, bit by bit
  from the least significant one, and the wider functions compute the same register over the
  sixteen and thirty-two bits of their argument.\<close>

theorem crc_code_is_reflected_crc16:
  "crcu8 b c = crc_bits (lsb_bits b) c \<and>
   crcu16 h c = crc_bits (lsb_bits h) c \<and>
   crcu32 w c = crc_bits (lsb_bits w) c"
  by (simp add: crcu8_bits crcu16_bits crcu32_bits)

text \<open>C2. The signature of a sequence of 16-bit results never hides a change of one of them: a
  run of \<open>crc16\<close> over the sequence with item \<open>i\<close> replaced by a different value ends in a
  different CRC, from every starting value.\<close>

theorem crc16_detects_changed_item:
  assumes "i < length xs" and "v \<noteq> xs ! i"
  shows "fold crc16 (xs[i := v]) c \<noteq> fold crc16 xs c"
proof -
  have old: "xs = take i xs @ xs ! i # drop (Suc i) xs"
    using assms(1) by (rule id_take_nth_drop)
  have new: "xs[i := v] = take i xs @ v # drop (Suc i) xs"
    using assms(1) by (rule upd_conv_take_nth_drop)
  have "fold crc16 (as @ a # bs) c = fold crc16 (as @ b # bs) c \<longleftrightarrow> a = b" for as bs a b
    by (simp add: fold_crc16_inj) (simp add: crc16_def crcu16_inj_data)
  with assms(2) show ?thesis by (subst old, subst new) simp
qed

theorem crc16_detects_changed_item_witness:
  "fold crc16 ([7, 8, 9][1 := 0x8000]) 0 \<noteq> fold crc16 [7, 8, 9] 0"
  using crc16_detects_changed_item[where i = 1 and xs = "[7, 8, 9]" and v = "0x8000" and c = 0] by simp

end
