(* ===== verification/List_Heap.thy ===== *)
theory List_Heap
  imports Crc
begin

text \<open>
  The linked list of \<^verbatim>\<open>coremark/src/core_list_join.c\<close>: its cells, the pointer operations, and what
  they do to the sequence of cells a pointer leads to.

  The code carves one memory block into an array of \<open>list_head\<close> and an array of \<open>list_data\<close>; a
  pointer into one of them is its index, \<open>None\<close> is \<open>NULL\<close>.  A dereference of \<open>NULL\<close> or of an index
  outside of its array is \<open>None\<close>.
\<close>

section \<open>The code\<close>

record list_data =
  data16 :: ee_s16
  idx :: ee_s16

record list_head =
  link :: "nat option"
  info :: nat

type_synonym heads = "list_head list"
type_synonym datas = "list_data list"

text \<open>\<open>p->next\<close>, \<open>p->info\<close> and assignments to them.\<close>

definition deref :: "heads \<Rightarrow> nat option \<Rightarrow> list_head option" where
  "deref h p = Option.bind p (aread h)"

definition get_link :: "heads \<Rightarrow> nat option \<Rightarrow> nat option option" where
  "get_link h p = map_option link (deref h p)"

definition get_info :: "heads \<Rightarrow> nat option \<Rightarrow> nat option" where
  "get_info h p = map_option info (deref h p)"

definition set_link :: "heads \<Rightarrow> nat option \<Rightarrow> nat option \<Rightarrow> heads option" where
  "set_link h p v = do { x \<leftarrow> p; c \<leftarrow> aread h x; awrite h x (c\<lparr>link := v\<rparr>) }"

definition set_info :: "heads \<Rightarrow> nat option \<Rightarrow> nat \<Rightarrow> heads option" where
  "set_info h p v = do { x \<leftarrow> p; c \<leftarrow> aread h x; awrite h x (c\<lparr>info := v\<rparr>) }"

definition copy_info :: "datas \<Rightarrow> nat \<Rightarrow> list_data \<Rightarrow> datas option" where
  "copy_info ds to from = do {
     d \<leftarrow> aread ds to;
     awrite ds to (d\<lparr>data16 := data16 from, idx := idx from\<rparr>) }"

text \<open>The two searches of \<open>core_list_find\<close> differ in the condition under which they go on.\<close>

definition find_differs :: "list_data \<Rightarrow> list_data \<Rightarrow> bool" where
  "find_differs i d = (if 0 \<le> sint (idx i) then idx d \<noteq> idx i else data16 d AND 0xff \<noteq> data16 i)"

definition core_list_find :: "heads \<Rightarrow> datas \<Rightarrow> nat option \<Rightarrow> list_data \<Rightarrow> nat option option" where
  "core_list_find h ds list i = while_loop
     (\<lambda>list. if list = None then Some False
        else do { d \<leftarrow> get_info h list; map_option (find_differs i) (aread ds d) })
     (get_link h) list"

text \<open>State \<open>(list, next, heap)\<close>.\<close>

definition core_list_reverse :: "heads \<Rightarrow> nat option \<Rightarrow> (nat option \<times> heads) option" where
  "core_list_reverse h list = do {
     (_, n, h) \<leftarrow> while_loop (\<lambda>(list, n, h). Some (list \<noteq> None))
       (\<lambda>(list, n, h). do {
          tmp \<leftarrow> get_link h list;
          h \<leftarrow> set_link h list n;
          Some (tmp, list, h) }) (list, None, h);
     Some (n, h) }"

definition core_list_remove :: "heads \<Rightarrow> nat option \<Rightarrow> (nat option \<times> heads) option" where
  "core_list_remove h item = do {
     ret \<leftarrow> get_link h item;
     tmp \<leftarrow> get_info h item;
     i \<leftarrow> get_info h ret;
     h \<leftarrow> set_info h item i;
     h \<leftarrow> set_info h ret tmp;
     n \<leftarrow> get_link h item;
     n \<leftarrow> get_link h n;
     h \<leftarrow> set_link h item n;
     h \<leftarrow> set_link h ret None;
     Some (ret, h) }"

definition core_list_undo_remove ::
    "heads \<Rightarrow> nat option \<Rightarrow> nat option \<Rightarrow> (nat option \<times> heads) option" where
  "core_list_undo_remove h item_removed item_modified = do {
     tmp \<leftarrow> get_info h item_removed;
     i \<leftarrow> get_info h item_modified;
     h \<leftarrow> set_info h item_removed i;
     h \<leftarrow> set_info h item_modified tmp;
     n \<leftarrow> get_link h item_modified;
     h \<leftarrow> set_link h item_removed n;
     h \<leftarrow> set_link h item_modified item_removed;
     Some (item_removed, h) }"

text \<open>The allocation pointers \<open>memblock\<close> and \<open>datablock\<close> and their ends are indices; the result
  is the new item with the advanced pointers and the memory.\<close>

definition core_list_insert_new ::
    "nat option \<Rightarrow> list_data \<Rightarrow> nat \<Rightarrow> nat \<Rightarrow> heads \<times> datas \<times> nat \<times> nat
      \<Rightarrow> (nat option \<times> heads \<times> datas \<times> nat \<times> nat) option" where
  "core_list_insert_new insert_point i memblock_end datablock_end = (\<lambda>(h, ds, memblock, datablock).
     if memblock + 1 \<ge> memblock_end then Some (None, h, ds, memblock, datablock)
     else if datablock + 1 \<ge> datablock_end then Some (None, h, ds, memblock, datablock)
     else do {
       let newitem = Some memblock;
       n \<leftarrow> get_link h insert_point;
       h \<leftarrow> set_link h newitem n;
       h \<leftarrow> set_link h insert_point newitem;
       h \<leftarrow> set_info h newitem datablock;
       ds \<leftarrow> copy_info ds datablock i;
       Some (newitem, h, ds, memblock + 1, datablock + 1) })"

section \<open>Chains\<close>

text \<open>\<open>chain h p xs e\<close>: the cells met from \<open>p\<close> are \<open>xs\<close>, and the last one links to \<open>e\<close>.\<close>

fun chain :: "heads \<Rightarrow> nat option \<Rightarrow> nat list \<Rightarrow> nat option \<Rightarrow> bool" where
  "chain h p [] e \<longleftrightarrow> p = e"
| "chain h p (x # xs) e \<longleftrightarrow> p = Some x \<and> x < length h \<and> chain h (link (h ! x)) xs e"

text \<open>The two heaps differ at most in the links of the cells of \<open>S\<close>.\<close>

definition relinked :: "nat set \<Rightarrow> heads \<Rightarrow> heads \<Rightarrow> bool" where
  "relinked S h h' \<longleftrightarrow> length h' = length h \<and> (\<forall>z. z \<notin> S \<longrightarrow> h' ! z = h ! z) \<and>
     (\<forall>z. info (h' ! z) = info (h ! z))"

lemma chain_append [simp]:
  "chain h p (xs @ ys) e \<longleftrightarrow> (\<exists>m. chain h p xs m \<and> chain h m ys e)"
  by (induction xs arbitrary: p) auto

lemma chain_valid: "chain h p xs e \<Longrightarrow> x \<in> set xs \<Longrightarrow> x < length h"
  by (induction xs arbitrary: p) auto

lemma chain_hd: "chain h p xs e \<Longrightarrow> xs \<noteq> [] \<Longrightarrow> p = Some (hd xs)"
  by (cases xs) auto

lemma chain_frame:
  "chain h p xs e \<Longrightarrow> length h' = length h \<Longrightarrow> (\<And>z. z \<in> set xs \<Longrightarrow> link (h' ! z) = link (h ! z)) \<Longrightarrow>
     chain h' p xs e"
  by (induction xs arbitrary: p) auto

lemma chain_update_other [simp]:
  "x \<notin> set xs \<Longrightarrow> chain (h[x := c]) p xs e \<longleftrightarrow> chain h p xs e"
  by (induction xs arbitrary: p) auto

lemma chain_None: "chain h None xs e \<Longrightarrow> xs = [] \<and> e = None"
  by (cases xs) auto

lemma chain_unique:
  "chain h p xs None \<Longrightarrow> chain h p ys None \<Longrightarrow> xs = ys"
proof (induction xs arbitrary: p ys)
  case Nil
  then show ?case by (cases ys) auto
next
  case (Cons x xs)
  then show ?case by (cases ys) auto
qed

lemma relinked_refl [simp]: "relinked S h h"
  by (simp add: relinked_def)

lemma relinked_trans [trans]: "relinked S h h' \<Longrightarrow> relinked S h' h'' \<Longrightarrow> relinked S h h''"
  by (simp add: relinked_def)

lemma relinked_length: "relinked S h h' \<Longrightarrow> length h' = length h"
  by (simp add: relinked_def)

lemma relinked_info: "relinked S h h' \<Longrightarrow> info (h' ! z) = info (h ! z)"
  by (simp add: relinked_def)

lemma relinked_update:
  "relinked S h h' \<Longrightarrow> x \<in> S \<Longrightarrow> relinked S h (h'[x := (h' ! x)\<lparr>link := v\<rparr>])"
  by (cases "x < length h'") (auto simp: relinked_def nth_list_update list_update_beyond not_less)

text \<open>Two heaps that agree up to links and hold the same chain are equal.\<close>

lemma chain_links:
  "chain h p xs e \<Longrightarrow> chain h' p xs e \<Longrightarrow> x \<in> set xs \<Longrightarrow> link (h' ! x) = link (h ! x)"
proof (induction xs arbitrary: p)
  case (Cons a xs)
  have "link (h' ! a) = link (h ! a)"
  proof (cases xs)
    case (Cons b bs)
    with Cons.prems show ?thesis by simp
  qed (use Cons.prems in auto)
  with Cons show ?case by auto
qed simp

lemma relinked_same_chain:
  assumes "relinked (set xs) h h'" "chain h p xs e" "chain h' p xs e"
  shows "h' = h"
proof (rule nth_equalityI)
  fix z assume "z < length h'"
  show "h' ! z = h ! z"
  proof (cases "z \<in> set xs")
    case True
    with chain_links[OF assms(2,3)] assms(1) show ?thesis by (simp add: relinked_def)
  next
    case False
    with assms(1) show ?thesis by (simp add: relinked_def)
  qed
qed (use assms(1) in \<open>simp add: relinked_length\<close>)

section \<open>What the operations do to a chain\<close>

definition hd_ptr :: "nat list \<Rightarrow> nat option" where
  "hd_ptr xs = (case xs of [] \<Rightarrow> None | x # _ \<Rightarrow> Some x)"

lemma hd_ptr_simps [simp]: "hd_ptr [] = None" "hd_ptr (x # xs) = Some x"
  by (simp_all add: hd_ptr_def)

lemma chain_hd_ptr: "chain h p xs None \<Longrightarrow> p = hd_ptr xs"
  by (cases xs) auto

lemma deref_simps [simp]:
  "deref h None = None"
  "deref h (Some x) = aread h x"
  by (simp_all add: deref_def)

lemma access_simps [simp]:
  "get_link h None = None"
  "get_info h None = None"
  "set_link h None v = None"
  "set_info h None i = None"
  "x < length h \<Longrightarrow> get_link h (Some x) = Some (link (h ! x))"
  "x < length h \<Longrightarrow> get_info h (Some x) = Some (info (h ! x))"
  "x < length h \<Longrightarrow> set_link h (Some x) v = Some (h[x := (h ! x)\<lparr>link := v\<rparr>])"
  "x < length h \<Longrightarrow> set_info h (Some x) i = Some (h[x := (h ! x)\<lparr>info := i\<rparr>])"
  by (simp_all add: get_link_def get_info_def set_link_def set_info_def)

lemma core_list_find_spec:
  assumes "chain h p xs None" and "\<And>x. x \<in> set xs \<Longrightarrow> info (h ! x) < length ds"
  shows "core_list_find h ds p i =
     Some (hd_ptr (dropWhile (\<lambda>x. find_differs i (ds ! info (h ! x))) xs))"
  using assms
proof (induction xs arbitrary: p)
  case Nil
  then show ?case unfolding core_list_find_def by (subst while_loop.simps) simp
next
  case (Cons x xs)
  from Cons.IH[of "link (h ! x)"] Cons.prems show ?case
    unfolding core_list_find_def by (subst while_loop.simps) auto
qed

lemma core_list_reverse_spec:
  assumes "chain h p xs None" and "distinct xs"
  shows "\<exists>h'. core_list_reverse h p = Some (hd_ptr (rev xs), h') \<and>
     chain h' (hd_ptr (rev xs)) (rev xs) None \<and> relinked (set xs) h h'"
proof -
  let ?loop = "while_loop (\<lambda>(list, n, h). Some (list \<noteq> None))
       (\<lambda>(list, n, h). do { tmp \<leftarrow> get_link h list; h \<leftarrow> set_link h list n; Some (tmp, list, h) })"
  have "\<exists>h'. ?loop (p, n, h) = Some (None, hd_ptr (rev xs @ ys), h') \<and>
     chain h' (hd_ptr (rev xs @ ys)) (rev xs @ ys) None \<and> relinked (set xs) h h'"
    if "chain h p xs None" "chain h n ys None" "distinct (xs @ ys)" for ys p n h
    using that
  proof (induction xs arbitrary: p n h ys)
    case Nil
    then show ?case by (subst while_loop.simps) (auto dest: chain_hd_ptr)
  next
    case (Cons x xs)
    let ?h = "h[x := (h ! x)\<lparr>link := n\<rparr>]"
    have "chain ?h (link (h ! x)) xs None" "chain ?h (Some x) (x # ys) None"
      using Cons.prems by auto
    moreover have "distinct (xs @ x # ys)" using Cons.prems(3) by auto
    ultimately obtain h' where h': "?loop (link (h ! x), Some x, ?h) = Some (None, hd_ptr (rev xs @ x # ys), h')"
      "chain h' (hd_ptr (rev xs @ x # ys)) (rev xs @ x # ys) None" "relinked (set xs) ?h h'"
      using Cons.IH[of ?h "link (h ! x)" "Some x" "x # ys"] by blast
    moreover have "?loop (p, n, h) = ?loop (link (h ! x), Some x, ?h)"
      using Cons.prems(1) by (subst while_loop.simps) simp
    moreover have "relinked (set (x # xs)) h h'"
      using h'(3) Cons.prems(1) by (simp add: relinked_def nth_list_update)
    ultimately show ?case
      unfolding rev.simps append_assoc append_Cons append_Nil by metis
  qed
  from this[of h p None "[]"] assms show ?thesis
    by (auto simp: core_list_reverse_def)
qed

lemma core_list_remove_spec:
  assumes "a \<noteq> b" "a < length h" "b < length h" "link (h ! a) = Some b"
  shows "core_list_remove h (Some a) = Some (Some b,
     h[a := (h ! a)\<lparr>info := info (h ! b), link := link (h ! b)\<rparr>,
       b := (h ! b)\<lparr>info := info (h ! a), link := None\<rparr>])"
  using assms
  by (simp add: core_list_remove_def list_update_swap[of a b])

text \<open>The removal is undone on every heap that still has the cells the removal left.\<close>

lemma core_list_undo_remove_spec:
  assumes "a \<noteq> b" "a < length h" "b < length h"
  shows "core_list_undo_remove h (Some b) (Some a) = Some (Some b,
     h[a := (h ! a)\<lparr>info := info (h ! b), link := Some b\<rparr>,
       b := (h ! b)\<lparr>info := info (h ! a), link := link (h ! a)\<rparr>])"
  using assms
  by (simp add: core_list_undo_remove_def list_update_swap[of a b])

lemma list_head_eqI: "link c = l \<Longrightarrow> info c = i \<Longrightarrow> (c' :: list_head)\<lparr>info := i, link := l\<rparr> = c"
  by simp

lemma remove_undo:
  assumes "a \<noteq> b" "a < length h" "b < length h" "link (h ! a) = Some b"
  shows "Option.bind (core_list_remove h (Some a))
     (\<lambda>(r, h). core_list_undo_remove h r (Some a)) = Some (Some b, h)"
  using assms
  by (simp add: core_list_remove_spec core_list_undo_remove_spec list_update_swap[of a b] list_head_eqI)

lemma chain_removed:
  assumes "chain h p (xs @ a # b # ys) None" "distinct (xs @ a # b # ys)"
  shows "\<exists>h'. core_list_remove h (Some a) = Some (Some b, h') \<and> chain h' p (xs @ a # ys) None \<and>
     length h' = length h \<and> (\<forall>z. z \<noteq> a \<and> z \<noteq> b \<longrightarrow> h' ! z = h ! z) \<and> info (h' ! a) = info (h ! b)"
  using assms
  by (auto simp: core_list_remove_spec)

end
