(* ===== verification/List_Sort.thy ===== *)
theory List_Sort
  imports List_Heap
begin

text \<open>
  The in-place bottom-up merge sort \<open>core_list_mergesort\<close> of \<^verbatim>\<open>coremark/src/core_list_join.c\<close>.

  The comparison is a parameter that may change a state of its own (\<open>cmp_complex\<close> runs whole
  benchmarks and caches their results in the list data).  The heap of list heads is touched by the
  sort only.  The code is refined by a sort on the sequence of cells (\<open>amerge\<close>, \<open>apass\<close>); the locale
  \<open>comparator\<close> is the contract a comparison has to keep for the result to be the stable sort.
\<close>

section \<open>The code\<close>

type_synonym 's list_cmp = "nat \<Rightarrow> nat \<Rightarrow> 's \<Rightarrow> (ee_s32 \<times> 's) option"

text \<open>\<open>for (i = 0; i < insize; i++) { psize++; q = q->next; if (!q) break; }\<close> with the state
  \<open>(i, psize, q, broken)\<close>.\<close>

definition step_places :: "heads \<Rightarrow> nat \<Rightarrow> nat option \<Rightarrow> (nat \<times> nat option) option" where
  "step_places h insize p = do {
     (_, psize, q, _) \<leftarrow> while_loop (\<lambda>(i, psize, q, broken). Some (\<not> broken \<and> i < insize))
       (\<lambda>(i, psize, q, broken). do {
          q \<leftarrow> get_link h q;
          Some (i + 1, psize + 1, q, q = None) }) (0, 0, p, False);
     Some (psize, q) }"

text \<open>The inner loop: state \<open>(heap, comparison state, p, q, psize, qsize, list, tail)\<close>.\<close>

type_synonym 's merge_state =
  "heads \<times> 's \<times> nat option \<times> nat option \<times> nat \<times> nat \<times> nat option \<times> nat option"

definition merge_cond :: "'s merge_state \<Rightarrow> bool" where
  "merge_cond = (\<lambda>(h, s, p, q, psize, qsize, list, tail).
     psize > 0 \<or> (qsize > 0 \<and> q \<noteq> None))"

text \<open>Which cell comes next: the result is \<open>(e, comparison state, p, q, psize, qsize)\<close>.\<close>

definition take_from_q where
  "take_from_q h s p q psize (qsize :: nat) = do {
     n \<leftarrow> get_link h q;
     Some (q, s, p, n, psize, qsize - 1) }"

definition take_from_p where
  "take_from_p h s p q (psize :: nat) qsize = do {
     n \<leftarrow> get_link h p;
     Some (p, s, n, q, psize - 1, qsize) }"

definition select :: "'s list_cmp \<Rightarrow> heads \<Rightarrow> 's \<Rightarrow> nat option \<Rightarrow> nat option \<Rightarrow> nat \<Rightarrow> nat
    \<Rightarrow> (nat option \<times> 's \<times> nat option \<times> nat option \<times> nat \<times> nat) option" where
  "select cmp h s p q psize qsize =
     (if psize = 0 then take_from_q h s p q psize qsize
      else if qsize = 0 \<or> q = None then take_from_p h s p q psize qsize
      else do {
        ip \<leftarrow> get_info h p;
        iq \<leftarrow> get_info h q;
        (c, s) \<leftarrow> cmp ip iq s;
        if sint c \<le> 0 then take_from_p h s p q psize qsize
        else take_from_q h s p q psize qsize })"

definition merge_body :: "'s list_cmp \<Rightarrow> 's merge_state \<Rightarrow> 's merge_state option" where
  "merge_body cmp = (\<lambda>(h, s, p, q, psize, qsize, list, tail). do {
     (e, s, p, q, psize, qsize) \<leftarrow> select cmp h s p q psize qsize;
     if tail \<noteq> None then do {
       h \<leftarrow> set_link h tail e;
       Some (h, s, p, q, psize, qsize, list, e) }
     else Some (h, s, p, q, psize, qsize, e, e) })"

text \<open>One pass: state \<open>(heap, comparison state, p, list, tail, nmerges)\<close>.\<close>

definition pass_body :: "'s list_cmp \<Rightarrow> nat \<Rightarrow> heads \<times> 's \<times> nat option \<times> nat option \<times> nat option \<times> nat
    \<Rightarrow> (heads \<times> 's \<times> nat option \<times> nat option \<times> nat option \<times> nat) option" where
  "pass_body cmp insize = (\<lambda>(h, s, p, list, tail, nmerges). do {
     let nmerges = nmerges + 1;
     (psize, q) \<leftarrow> step_places h insize p;
     (h, s, p, q, psize, qsize, list, tail) \<leftarrow>
       while_loop (\<lambda>t. Some (merge_cond t)) (merge_body cmp) (h, s, p, q, psize, insize, list, tail);
     Some (h, s, q, list, tail, nmerges) })"

definition sort_pass :: "'s list_cmp \<Rightarrow> nat \<Rightarrow> heads \<Rightarrow> 's \<Rightarrow> nat option
    \<Rightarrow> (heads \<times> 's \<times> nat option \<times> nat) option" where
  "sort_pass cmp insize h s list = do {
     (h, s, p, list, tail, nmerges) \<leftarrow>
       while_loop (\<lambda>(h, s, p, list, tail, nmerges). Some (p \<noteq> None)) (pass_body cmp insize)
         (h, s, list, None, None, 0);
     h \<leftarrow> set_link h tail None;
     Some (h, s, list, nmerges) }"

text \<open>\<open>while (1)\<close>: \<open>insize\<close> is an \<open>ee_s32\<close>, its doubling must not overflow.\<close>

partial_function (option) mergesort_loop :: "'s list_cmp \<Rightarrow> nat \<Rightarrow> heads \<Rightarrow> 's \<Rightarrow> nat option
    \<Rightarrow> (nat option \<times> heads \<times> 's) option" where
  "mergesort_loop cmp insize h s list = do {
     (h, s, list, nmerges) \<leftarrow> sort_pass cmp insize h s list;
     if nmerges \<le> 1 then Some (list, h, s)
     else if insize * 2 < 2 ^ 31 then mergesort_loop cmp (insize * 2) h s list
     else None }"

declare mergesort_loop.simps [code]

definition core_list_mergesort :: "'s list_cmp \<Rightarrow> heads \<Rightarrow> nat option \<Rightarrow> 's
    \<Rightarrow> (nat option \<times> heads \<times> 's) option" where
  "core_list_mergesort cmp h list s = mergesort_loop cmp 1 h s list"

section \<open>The sort on sequences of cells\<close>

fun amerge :: "'s list_cmp \<Rightarrow> (nat \<Rightarrow> nat) \<Rightarrow> nat list \<Rightarrow> nat list \<Rightarrow> 's \<Rightarrow> (nat list \<times> 's) option" where
  "amerge cmp i [] ys s = Some (ys, s)"
| "amerge cmp i (x # xs) [] s = Some (x # xs, s)"
| "amerge cmp i (x # xs) (y # ys) s = do {
     (c, s) \<leftarrow> cmp (i x) (i y) s;
     if sint c \<le> 0 then map_option (apfst ((#) x)) (amerge cmp i xs (y # ys) s)
     else map_option (apfst ((#) y)) (amerge cmp i (x # xs) ys s) }"

function apass :: "'s list_cmp \<Rightarrow> (nat \<Rightarrow> nat) \<Rightarrow> nat \<Rightarrow> nat list \<Rightarrow> 's \<Rightarrow> (nat list \<times> nat \<times> 's) option" where
  "apass cmp i n xs s = (if xs = [] \<or> n = 0 then Some ([], 0, s) else do {
     (ys, s) \<leftarrow> amerge cmp i (take n xs) (take n (drop n xs)) s;
     (zs, k, s) \<leftarrow> apass cmp i n (drop (2 * n) xs) s;
     Some (ys @ zs, k + 1, s) })"
  by pat_completeness auto
termination
  by (relation "measure (\<lambda>(cmp, i, n, xs, s). length xs)") auto

declare apass.simps [simp del]

section \<open>The code refines it\<close>

text \<open>The heap \<open>h\<close> in the course of a pass that started in \<open>h0\<close> and has linked the cells \<open>out\<close>.\<close>

definition built :: "heads \<Rightarrow> heads \<Rightarrow> nat list \<Rightarrow> bool" where
  "built h0 h out \<longleftrightarrow> relinked (set (butlast out)) h0 h \<and>
     (out \<noteq> [] \<longrightarrow> chain h (Some (hd out)) (butlast out) (Some (last out)))"

definition last_ptr :: "nat list \<Rightarrow> nat option" where
  "last_ptr xs = (if xs = [] then None else Some (last xs))"

lemma last_ptr_simps [simp]: "last_ptr [] = None" "last_ptr (xs @ [x]) = Some x"
  by (simp_all add: last_ptr_def)

lemma built_Nil [simp]: "built h0 h0 []"
  by (simp add: built_def)

lemma built_outside: "built h0 h out \<Longrightarrow> z \<notin> set out \<Longrightarrow> h ! z = h0 ! z"
  by (auto simp: built_def relinked_def dest: in_set_butlastD)

lemma built_same: "built h0 h out \<Longrightarrow> length h = length h0" "built h0 h out \<Longrightarrow> info (h ! z) = info (h0 ! z)"
  by (auto simp: built_def relinked_def)

text \<open>Appending a cell is the assignment through \<open>tail\<close>.\<close>

lemma built_append:
  assumes "built h0 h out" and "distinct (out @ [e])" and "set out \<subseteq> {..<length h0}"
  shows "\<exists>h'. (if last_ptr out \<noteq> None then do { h \<leftarrow> set_link h (last_ptr out) (Some e);
              Some (h, s, p, q, psize, qsize, hd_ptr out, Some e) }
            else Some (h, s, p, q, psize, qsize, Some e, Some e)) =
          Some (h', s, p, q, psize, qsize, hd_ptr (out @ [e]), last_ptr (out @ [e])) \<and>
        built h0 h' (out @ [e])"
proof (cases "out = []")
  case True
  with assms show ?thesis by (simp add: built_def last_ptr_def)
next
  case False
  then obtain xs t where out: "out = xs @ [t]" by (metis append_butlast_last_id)
  let ?h = "h[t := (h ! t)\<lparr>link := Some e\<rparr>]"
  have t: "t < length h" "t \<notin> set xs" using assms out by (auto simp: built_same(1))
  have "relinked (set out) h0 ?h"
    using assms(1) out by (intro relinked_update) (auto simp: built_def relinked_def)
  moreover have "chain ?h (Some (hd out)) (xs @ [t]) (Some e)"
    using assms(1) out t by (auto simp: built_def)
  ultimately have "built h0 ?h (out @ [e])" by (cases xs) (simp_all add: built_def out butlast_append)
  moreover have "set_link h (last_ptr out) (Some e) = Some ?h" using t by (simp add: out)
  moreover have "hd_ptr (out @ [e]) = hd_ptr out" using False by (cases out) auto
  ultimately show ?thesis using False by (simp add: last_ptr_def)
qed

text \<open>The runs \<open>xs\<close> and \<open>ys\<close> are still to be merged, \<open>rest\<close> comes after them.\<close>

definition runs :: "heads \<Rightarrow> nat list \<Rightarrow> nat list \<Rightarrow> nat list \<Rightarrow> nat list \<Rightarrow> nat option \<Rightarrow> nat option
    \<Rightarrow> nat \<Rightarrow> nat \<Rightarrow> bool" where
  "runs h0 out xs ys rest p q psize qsize \<longleftrightarrow>
     psize = length xs \<and> length ys \<le> qsize \<and> (length ys < qsize \<longrightarrow> rest = []) \<and>
     (xs \<noteq> [] \<longrightarrow> (\<exists>m. chain h0 p xs m)) \<and> chain h0 q (ys @ rest) None \<and>
     distinct (out @ xs @ ys @ rest) \<and> set out \<subseteq> {..<length h0}"

definition merged :: "'s list_cmp \<Rightarrow> heads \<Rightarrow> nat list \<Rightarrow> nat list \<Rightarrow> 's \<Rightarrow> 's merge_state \<Rightarrow> bool" where
  "merged cmp h0 out rest s' t \<longleftrightarrow> (\<exists>h' p' q' ps' qs'.
     while_loop (\<lambda>t. Some (merge_cond t)) (merge_body cmp) t =
       Some (h', s', p', q', ps', qs', hd_ptr out, last_ptr out) \<and>
     built h0 h' out \<and> chain h0 q' rest None)"

text \<open>One turn of the inner loop.\<close>

lemma merged_step:
  assumes "built h0 h out" "distinct (out @ [e])" "set out \<subseteq> {..<length h0}"
    and "merge_cond (h, s, p, q, psize, qsize, hd_ptr out, last_ptr out)"
    and "select cmp h s p q psize qsize = Some (Some e, s1, p1, q1, psize1, qsize1)"
    and "\<And>h'. built h0 h' (out @ [e]) \<Longrightarrow>
      merged cmp h0 zs rest s' (h', s1, p1, q1, psize1, qsize1, hd_ptr (out @ [e]), last_ptr (out @ [e]))"
  shows "merged cmp h0 zs rest s' (h, s, p, q, psize, qsize, hd_ptr out, last_ptr out)"
proof -
  obtain h' where h': "(if last_ptr out \<noteq> None then do { h \<leftarrow> set_link h (last_ptr out) (Some e);
              Some (h, s1, p1, q1, psize1, qsize1, hd_ptr out, Some e) }
            else Some (h, s1, p1, q1, psize1, qsize1, Some e, Some e)) =
          Some (h', s1, p1, q1, psize1, qsize1, hd_ptr (out @ [e]), last_ptr (out @ [e]))"
      "built h0 h' (out @ [e])"
    using built_append[OF assms(1-3), of s1 p1 q1 psize1 qsize1] by blast
  have "merge_body cmp (h, s, p, q, psize, qsize, hd_ptr out, last_ptr out) =
      Some (h', s1, p1, q1, psize1, qsize1, hd_ptr (out @ [e]), last_ptr (out @ [e]))"
    unfolding merge_body_def prod.case assms(5) bind.bind_lunit by (rule h'(1))
  then show ?thesis
    using assms(6)[OF h'(2)] assms(4) unfolding merged_def
    by (subst while_loop.simps) (simp only: bind.bind_lunit if_True)
qed

lemma select_q: "y < length h0 \<Longrightarrow> built h0 h out \<Longrightarrow> y \<notin> set out \<Longrightarrow>
    take_from_q h s p (Some y) psize qsize = Some (Some y, s, p, link (h0 ! y), psize, qsize - 1)"
  by (auto simp: take_from_q_def built_same built_outside)

lemma select_p: "x < length h0 \<Longrightarrow> built h0 h out \<Longrightarrow> x \<notin> set out \<Longrightarrow>
    take_from_p h s (Some x) q psize qsize = Some (Some x, s, link (h0 ! x), q, psize - 1, qsize)"
  by (auto simp: take_from_p_def built_same built_outside)

lemma runs_take_q: "runs h0 out xs (y # ys) rest p q psize qsize \<Longrightarrow>
    runs h0 (out @ [y]) xs ys rest p (link (h0 ! y)) psize (qsize - 1)"
  by (auto simp: runs_def)

lemma runs_take_p: "runs h0 out (x # xs) ys rest p q psize qsize \<Longrightarrow>
    runs h0 (out @ [x]) xs ys rest (link (h0 ! x)) q (psize - 1) qsize"
  by (auto simp: runs_def)

lemma runs_distinct_q: "runs h0 out xs (y # ys) rest p q psize qsize \<Longrightarrow>
    distinct (out @ [y]) \<and> set out \<subseteq> {..<length h0} \<and> y \<notin> set out \<and> chain h0 q (y # ys @ rest) None \<and>
    0 < qsize \<and> q = Some y \<and> psize = length xs \<and> y < length h0"
  by (auto simp: runs_def)

lemma runs_distinct_p: "runs h0 out (x # xs) ys rest p q psize qsize \<Longrightarrow>
    distinct (out @ [x]) \<and> set out \<subseteq> {..<length h0} \<and> x \<notin> set out \<and> (\<exists>m. chain h0 p (x # xs) m) \<and>
    0 < psize \<and> p = Some x \<and> x < length h0 \<and> (ys = [] \<longrightarrow> qsize = 0 \<or> q = None)"
  by (auto simp: runs_def)

lemma merge_drain_q:
  assumes "built h0 h out" "runs h0 out [] ys rest p q psize qsize"
  shows "merged cmp h0 (out @ ys) rest s (h, s, p, q, psize, qsize, hd_ptr out, last_ptr out)"
  using assms
proof (induction ys arbitrary: h out q qsize)
  case Nil
  then have "\<not> merge_cond (h, s, p, q, psize, qsize, hd_ptr out, last_ptr out)" "chain h0 q rest None"
    by (auto simp: merge_cond_def runs_def dest: chain_hd_ptr)
  with Nil(1) show ?case by (simp add: merged_def while_loop.simps)
next
  case (Cons y ys)
  note r = runs_distinct_q[OF Cons.prems(2)]
  have "select cmp h s p q psize qsize = Some (Some y, s, p, link (h0 ! y), psize, qsize - 1)"
    using r Cons.prems(1) by (simp add: select_def select_q[of y h0 h out])
  then show ?case
    using r Cons.prems Cons.IH[OF _ runs_take_q[OF Cons.prems(2)]]
    by (intro merged_step[of h0 h out y]) (simp_all add: merge_cond_def)
qed

lemma merge_drain_p:
  assumes "built h0 h out" "runs h0 out xs [] rest p q psize qsize"
  shows "merged cmp h0 (out @ xs) rest s (h, s, p, q, psize, qsize, hd_ptr out, last_ptr out)"
  using assms
proof (induction xs arbitrary: h out p psize)
  case Nil
  then show ?case using merge_drain_q[OF Nil] by simp
next
  case (Cons x xs)
  note r = runs_distinct_p[OF Cons.prems(2)]
  then obtain m where "chain h0 p (x # xs) m" by blast
  then have "select cmp h s p q psize qsize = Some (Some x, s, link (h0 ! x), q, psize - 1, qsize)"
    using r Cons.prems(1) by (simp add: select_def select_p[of x h0 h out])
  then show ?case
    using r Cons.prems Cons.IH[OF _ runs_take_p[OF Cons.prems(2)]]
    by (intro merged_step[of h0 h out x]) (simp_all add: merge_cond_def)
qed

lemma merge_loop_refines:
  assumes "amerge cmp i xs ys s = Some (zs, s')" "built h0 h out" "runs h0 out xs ys rest p q psize qsize"
    and "\<And>x. i x = info (h0 ! x)"
  shows "merged cmp h0 (out @ zs) rest s' (h, s, p, q, psize, qsize, hd_ptr out, last_ptr out)"
  using assms
proof (induction cmp i xs ys s arbitrary: zs s' h out p q psize qsize rule: amerge.induct)
  case (1 cmp i ys s)
  then show ?case by (simp add: merge_drain_q)
next
  case (2 cmp i x xs s)
  then show ?case by (simp add: merge_drain_p)
next
  case (3 cmp i x xs y ys s)
  note q = runs_distinct_q[OF 3(5)] and p = runs_distinct_p[OF 3(5)]
  obtain c s1 where c: "cmp (i x) (i y) s = Some (c, s1)" using "3.prems"(1) by (auto split: bind_splits)
  have infos: "get_info h p = Some (i x)" "get_info h q = Some (i y)" 
    using p q "3.prems"(2,4) by (simp_all add: built_same)
  show ?case
  proof (cases "sint c \<le> 0")
    case True
    with c 3(3) obtain zs1 where zs: "amerge cmp i xs (y # ys) s1 = Some (zs1, s')" "zs = x # zs1"
      by auto
    from p obtain m where "chain h0 p (x # xs) m" by blast
    then have "select cmp h s p q psize qsize = Some (Some x, s1, link (h0 ! x), q, psize - 1, qsize)"
      using p q infos c True "3.prems"(2) by (simp add: select_def select_p[of x h0 h out])
    then show ?thesis
      using p "3.prems"(2) "3.IH"(1)[OF c refl True zs(1) _ runs_take_p[OF "3.prems"(3)] "3.prems"(4)]
      by (intro merged_step[of h0 h out x]) (simp_all add: merge_cond_def zs(2))
  next
    case False
    with c 3(3) obtain zs1 where zs: "amerge cmp i (x # xs) ys s1 = Some (zs1, s')" "zs = y # zs1"
      by auto
    have "select cmp h s p q psize qsize = Some (Some y, s1, p, link (h0 ! y), psize, qsize - 1)"
      using p q infos c False "3.prems"(2) by (simp add: select_def select_q[of y h0 h out])
    then show ?thesis
      using q "3.prems"(2) "3.IH"(2)[OF c refl False zs(1) _ runs_take_q[OF "3.prems"(3)] "3.prems"(4)]
      by (intro merged_step[of h0 h out y]) (simp_all add: merge_cond_def zs(2))
  qed
qed

lemma step_places_loop:
  assumes "chain h p ys None" "ys \<noteq> []" "i < n"
  shows "\<exists>i' b'. while_loop (\<lambda>(i, psize, q, broken). Some (\<not> broken \<and> i < n))
       (\<lambda>(i, psize, q, broken). do { q \<leftarrow> get_link h q; Some (i + 1, psize + 1, q, q = None) })
       (i, k, p, False) = Some (i', k + length (take (n - i) ys), hd_ptr (drop (n - i) ys), b')"
  using assms
proof (induction ys arbitrary: i k p)
  case (Cons y ys)
  show ?case
  proof (cases "ys = [] \<or> Suc i = n")
    case True
    with Cons.prems show ?thesis
      by (subst while_loop.simps, simp, subst while_loop.simps)
        (auto simp: Suc_diff_le dest: chain_hd_ptr)
  next
    case False
    with Cons.prems have "link (h ! y) = Some (hd ys)" "Suc i < n" "chain h (link (h ! y)) ys None"
      by (auto dest: chain_hd)
    with Cons.IH[of "link (h ! y)" "Suc i" "Suc k"] Cons.prems False show ?thesis
      by (subst while_loop.simps) (simp add: Suc_diff_Suc[symmetric])
  qed
qed simp

lemma step_places_spec:
  assumes "chain h p xs None" "xs \<noteq> []" "0 < n"
  shows "step_places h n p = Some (length (take n xs), hd_ptr (drop n xs))"
  using step_places_loop[OF assms, of 0] by (auto simp: step_places_def)

lemma amerge_mset: "amerge cmp i xs ys s = Some (zs, s') \<Longrightarrow> mset zs = mset xs + mset ys"
proof (induction cmp i xs ys s arbitrary: zs rule: amerge.induct)
  case (3 cmp i x xs y ys s)
  from "3.prems" obtain c s1 where c: "cmp (i x) (i y) s = Some (c, s1)" by (auto split: bind_splits)
  show ?case
  proof (cases "sint c \<le> 0")
    case True
    with "3.prems" "3.IH"(1)[OF c refl True] c show ?thesis by auto
  next
    case False
    with "3.prems" "3.IH"(2)[OF c refl False] c show ?thesis by auto
  qed
qed auto

lemma mset_distinct: "mset zs = mset xs \<Longrightarrow> distinct zs \<longleftrightarrow> distinct xs" "mset zs = mset xs \<Longrightarrow> set zs = set xs"
  by (metis mset_eq_imp_distinct_iff) (metis mset_eq_setD)

lemma take_drop_twice: "take n xs @ take n (drop n xs) @ drop (2 * n) xs = xs"
  by (simp add: mult_2 flip: drop_drop take_drop)

lemma amerge_runs:
  assumes "amerge cmp i (take n xs) (take n (drop n xs)) s = Some (ys, s')"
  shows "mset (ys @ drop (2 * n) xs) = mset xs"
proof -
  have "mset (ys @ drop (2 * n) xs) = mset (take n xs @ take n (drop n xs) @ drop (2 * n) xs)"
    using amerge_mset[OF assms] by simp
  then show ?thesis by (simp only: take_drop_twice)
qed

lemma apass_refines:
  assumes "apass cmp i n xs s = Some (zs, k, s')" "0 < n" "built h0 h out" "chain h0 p xs None"
    and "distinct (out @ xs)" "set out \<subseteq> {..<length h0}" and "\<And>x. i x = info (h0 ! x)"
  shows "\<exists>h'. while_loop (\<lambda>(h, s, p, list, tail, nmerges). Some (p \<noteq> None)) (pass_body cmp n)
       (h, s, p, hd_ptr out, last_ptr out, m) =
       Some (h', s', None, hd_ptr (out @ zs), last_ptr (out @ zs), m + k) \<and> built h0 h' (out @ zs)"
  using assms(1,3-6)
proof (induction "length xs" arbitrary: xs zs k h p out s m rule: less_induct)
  case less
  note prems = less.prems
  show ?case
  proof (cases "xs = []")
    case True
    with prems show ?thesis by (simp add: apass.simps while_loop.simps)
  next
    case False
    let ?a = "take n xs" and ?b = "take n (drop n xs)" and ?c = "drop (2 * n) xs"
    from prems(1) False assms(2) obtain ys s1 zs1 k1 where
      ys: "amerge cmp i ?a ?b s = Some (ys, s1)" and zs1: "apass cmp i n ?c s1 = Some (zs1, k1, s')"
      and zs: "zs = ys @ zs1" "k = k1 + 1"
      by (subst (asm) apass.simps) (auto split: bind_splits)
    have perm: "mset (ys @ ?c) = mset xs" using amerge_runs[OF ys] .
    have dist: "distinct ((out @ ys) @ ?c)" "set (out @ ys) \<subseteq> {..<length h0}"
      using perm prems(4,5) chain_valid[OF prems(3)] mset_distinct[OF perm] by (auto simp: subset_iff)
    have "chain h p xs None"
      using prems(2,4) by (intro chain_frame[OF prems(3)]) (auto simp: built_same dest: built_outside)
    then have places: "step_places h n p = Some (length ?a, hd_ptr (drop n xs))"
      using False assms(2) by (rule step_places_spec)
    have split: "chain h0 p (?a @ drop n xs) None" using prems(3) by simp
    then obtain q where q: "chain h0 p ?a q" "chain h0 q (drop n xs) None" unfolding chain_append by blast
    then have q_eq: "q = hd_ptr (drop n xs)" by (blast dest: chain_hd_ptr)
    have "runs h0 out ?a ?b ?c p q (length ?a) n"
      unfolding runs_def using q prems(4,5) dist(1) perm
      by (auto simp: mult_2 simp flip: drop_drop)
    from merge_loop_refines[OF ys prems(2) this assms(7)]
    obtain h1 p1 q1 ps1 qs1 where h1: "while_loop (\<lambda>t. Some (merge_cond t)) (merge_body cmp)
        (h, s, p, q, length ?a, n, hd_ptr out, last_ptr out) =
        Some (h1, s1, p1, q1, ps1, qs1, hd_ptr (out @ ys), last_ptr (out @ ys))"
      "built h0 h1 (out @ ys)" "chain h0 q1 ?c None"
      unfolding merged_def by blast
    have body: "pass_body cmp n (h, s, p, hd_ptr out, last_ptr out, m) =
        Some (h1, s1, q1, hd_ptr (out @ ys), last_ptr (out @ ys), m + 1)"
      using h1(1) places by (simp add: pass_body_def q_eq)
    have "length ?c < length xs" using False assms(2) by simp
    from less.hyps[OF this zs1 h1(2,3) dist, of "m + 1"] obtain h' where
      "while_loop (\<lambda>(h, s, p, list, tail, nmerges). Some (p \<noteq> None)) (pass_body cmp n)
        (h1, s1, q1, hd_ptr (out @ ys), last_ptr (out @ ys), m + 1) =
        Some (h', s', None, hd_ptr ((out @ ys) @ zs1), last_ptr ((out @ ys) @ zs1), m + 1 + k1)"
      "built h0 h' ((out @ ys) @ zs1)" by blast
    moreover have "p \<noteq> None" using prems(3) False by (auto dest: chain_hd)
    ultimately show ?thesis
      using body zs by (subst while_loop.simps) (simp del: while_loop.simps)
  qed
qed

lemma apass_mset: "apass cmp i n xs s = Some (zs, k, s') \<Longrightarrow> 0 < n \<Longrightarrow> mset zs = mset xs"
proof (induction "length xs" arbitrary: xs zs k s rule: less_induct)
  case less
  show ?case
  proof (cases "xs = []")
    case True
    with less.prems show ?thesis by (simp add: apass.simps)
  next
    case False
    from less.prems False obtain ys s1 zs1 k1 where
      ys: "amerge cmp i (take n xs) (take n (drop n xs)) s = Some (ys, s1)"
      and zs1: "apass cmp i n (drop (2 * n) xs) s1 = Some (zs1, k1, s')" and zs: "zs = ys @ zs1"
      by (subst (asm) apass.simps) (auto split: bind_splits)
    have "mset zs1 = mset (drop (2 * n) xs)"
      using False less.prems(2) by (intro less.hyps[OF _ zs1]) simp_all
    with amerge_runs[OF ys] show ?thesis by (simp add: zs)
  qed
qed

lemma sort_pass_refines:
  assumes "apass cmp (\<lambda>x. info (h0 ! x)) n xs s = Some (zs, k, s')" "0 < n" "xs \<noteq> []"
    and "chain h0 p xs None" "distinct xs"
  shows "\<exists>h'. sort_pass cmp n h0 s p = Some (h', s', hd_ptr zs, k) \<and>
     chain h' (hd_ptr zs) zs None \<and> relinked (set xs) h0 h'"
proof -
  obtain h1 where h1: "while_loop (\<lambda>(h, s, p, list, tail, nmerges). Some (p \<noteq> None)) (pass_body cmp n)
      (h0, s, p, None, None, 0) = Some (h1, s', None, hd_ptr zs, last_ptr zs, k)" "built h0 h1 zs"
    using apass_refines[OF assms(1,2) built_Nil assms(4), of 0] assms(5) by auto
  have perm: "mset zs = mset xs" using apass_mset[OF assms(1,2)] .
  then have "zs \<noteq> []" "distinct zs" "set zs = set xs" using assms(3,5) mset_distinct[OF perm] by auto
  then obtain ys t where zs: "zs = ys @ [t]" by (metis append_butlast_last_id)
  have t: "t < length h1" "t \<notin> set ys"
    using \<open>distinct zs\<close> \<open>set zs = set xs\<close> chain_valid[OF assms(4)] built_same(1)[OF h1(2)] zs by auto
  let ?h = "h1[t := (h1 ! t)\<lparr>link := None\<rparr>]"
  have "sort_pass cmp n h0 s p = Some (?h, s', hd_ptr zs, k)"
    using h1(1) t by (simp add: sort_pass_def zs)
  moreover have "chain ?h (hd_ptr zs) zs None"
    using h1(2) t by (cases ys) (auto simp: zs built_def)
  moreover have "relinked (set xs) h0 ?h"
  proof (rule relinked_update)
    show "relinked (set xs) h0 h1"
      using h1(2) \<open>set zs = set xs\<close> by (auto simp: built_def relinked_def dest: in_set_butlastD)
    show "t \<in> set xs" using \<open>set zs = set xs\<close> zs by auto
  qed
  ultimately show ?thesis by blast
qed

section \<open>What a comparison has to promise\<close>

text \<open>
  \<open>valid s\<close> are the data pointers the comparison may be given in the state \<open>s\<close>, \<open>known s\<close> those whose
  key is settled; \<open>ext s s'\<close> says that a computation can lead from \<open>s\<close> to \<open>s'\<close>.  A comparison settles
  the keys of its two arguments, keeps the settled ones, and answers for the settled keys.
\<close>

locale comparator =
  fixes cmp :: "'s list_cmp" and ok :: "'s \<Rightarrow> bool" and valid :: "'s \<Rightarrow> nat set"
    and known :: "'s \<Rightarrow> nat set" and key :: "'s \<Rightarrow> nat \<Rightarrow> int" and ext :: "'s \<Rightarrow> 's \<Rightarrow> bool"
  assumes ext_refl: "ext s s"
    and ext_trans: "ext s t \<Longrightarrow> ext t u \<Longrightarrow> ext s u"
    and ext_valid: "ext s t \<Longrightarrow> valid t = valid s"
    and ext_known: "ext s t \<Longrightarrow> known s \<subseteq> known t"
    and ext_key: "ext s t \<Longrightarrow> a \<in> known s \<Longrightarrow> key t a = key s a"
    and cmp_law: "ok s \<Longrightarrow> a \<in> valid s \<Longrightarrow> b \<in> valid s \<Longrightarrow>
      \<exists>c t. cmp a b s = Some (c, t) \<and> ok t \<and> ext s t \<and> a \<in> known t \<and> b \<in> known t \<and>
        (sint c \<le> 0 \<longleftrightarrow> key t a \<le> key t b)"

text \<open>The merge of two sequences by settled keys.\<close>

fun pmerge :: "('a \<Rightarrow> 'k::linorder) \<Rightarrow> 'a list \<Rightarrow> 'a list \<Rightarrow> 'a list" where
  "pmerge f [] ys = ys"
| "pmerge f (x # xs) [] = x # xs"
| "pmerge f (x # xs) (y # ys) =
     (if f x \<le> f y then x # pmerge f xs (y # ys) else y # pmerge f (x # xs) ys)"

lemma pmerge_mset: "mset (pmerge f xs ys) = mset xs + mset ys"
  by (induction f xs ys rule: pmerge.induct) auto

lemma pmerge_sorted:
  "sorted (map f xs) \<Longrightarrow> sorted (map f ys) \<Longrightarrow> sorted (map f (pmerge f xs ys))"
proof (induction f xs ys rule: pmerge.induct)
  case (3 f x xs y ys)
  have "set (pmerge f xs (y # ys)) = set xs \<union> set (y # ys)" "set (pmerge f (x # xs) ys) = set (x # xs) \<union> set ys"
    by (metis pmerge_mset set_mset_mset set_mset_union)+
  with 3 show ?case by (auto intro: order_trans)
qed auto

lemma pmerge_stable:
  "sorted (map f xs) \<Longrightarrow> filter (\<lambda>x. f x = k) (pmerge f xs ys) = filter (\<lambda>x. f x = k) (xs @ ys)"
proof (induction f xs ys rule: pmerge.induct)
  case (3 f x xs y ys)
  show ?case
  proof (cases "f x \<le> f y")
    case False
    then have "filter (\<lambda>x. f x = f y) (x # xs) = []" using "3.prems" by (auto simp: filter_empty_conv)
    with False 3 show ?thesis by auto
  qed (use 3 in auto)
qed auto

lemma pmerge_sort_key:
  assumes "sorted (map f xs)" "sorted (map f ys)"
  shows "pmerge f xs ys = sort_key f (xs @ ys)"
proof (rule properties_for_sort_key[symmetric])
  fix k
  have "filter (\<lambda>x. f x = f k) (pmerge f xs ys) = filter (\<lambda>x. f x = f k) (xs @ ys)"
    by (rule pmerge_stable[OF assms(1)])
  then show "filter (\<lambda>x. f k = f x) (pmerge f xs ys) = filter (\<lambda>x. f k = f x) (xs @ ys)"
    by (simp only: eq_commute[of "f k"])
qed (simp_all add: pmerge_mset pmerge_sorted[OF assms])

text \<open>A run is sorted by settled keys; a run of one cell need not be settled.\<close>

definition settled :: "('s \<Rightarrow> nat set) \<Rightarrow> ('s \<Rightarrow> nat \<Rightarrow> int) \<Rightarrow> (nat \<Rightarrow> nat) \<Rightarrow> 's \<Rightarrow> nat list \<Rightarrow> bool" where
  "settled known key i s xs \<longleftrightarrow> (length xs \<le> 1 \<or> i ` set xs \<subseteq> known s) \<and> sorted (map (\<lambda>x. key s (i x)) xs)"

lemma sorted_short: "length xs \<le> 1 \<Longrightarrow> sorted (map f xs)"
  by (cases xs) auto

lemma pmerge_cong: "(\<And>x. x \<in> set xs \<union> set ys \<Longrightarrow> f x = g x) \<Longrightarrow> pmerge f xs ys = pmerge g xs ys"
  by (induction f xs ys rule: pmerge.induct) auto

lemma pmerge_Nil [simp]: "pmerge f xs [] = xs"
  by (cases xs) auto

lemma set_short: "length xs \<le> 1 \<Longrightarrow> xs \<noteq> [] \<Longrightarrow> set xs = {hd xs}"
  by (cases xs) auto

context comparator
begin

lemma settled_ext: "ext s t \<Longrightarrow> settled known key i s xs \<Longrightarrow> settled known key i t xs"
proof (cases "length xs \<le> 1")
  case False
  assume st: "ext s t" and xs: "settled known key i s xs"
  from xs False have sub: "i ` set xs \<subseteq> known s" by (simp add: settled_def)
  then have same: "map (\<lambda>x. key t (i x)) xs = map (\<lambda>x. key s (i x)) xs"
    using ext_key[OF st] by auto
  show ?thesis using xs sub ext_known[OF st] unfolding settled_def same by auto
qed (simp add: settled_def sorted_short)

lemma amerge_pmerge:
  assumes "ok s" "i ` set xs \<subseteq> valid s" "i ` set ys \<subseteq> valid s"
  shows "\<exists>t. amerge cmp i xs ys s = Some (pmerge (\<lambda>x. key t (i x)) xs ys, t) \<and> ok t \<and> ext s t \<and>
     (xs \<noteq> [] \<longrightarrow> ys \<noteq> [] \<longrightarrow> i (hd xs) \<in> known t \<and> i (hd ys) \<in> known t)"
  using assms
proof (induction "length xs + length ys" arbitrary: xs ys s rule: less_induct)
  case less
  show ?case
  proof (cases xs)
    case Nil
    then show ?thesis using less.prems ext_refl by auto
  next
    case (Cons x xs1)
    note xs = this
    show ?thesis
    proof (cases ys)
      case Nil
      then show ?thesis using less.prems ext_refl xs by auto
    next
      case (Cons y ys1)
      obtain c s1 where c: "cmp (i x) (i y) s = Some (c, s1)" "ok s1" "ext s s1"
          "i x \<in> known s1" "i y \<in> known s1" "sint c \<le> 0 \<longleftrightarrow> key s1 (i x) \<le> key s1 (i y)"
        using cmp_law[of s "i x" "i y"] less.prems xs Cons by auto
      have kept: "key t (i x) = key s1 (i x) \<and> key t (i y) = key s1 (i y) \<and> ext s t \<and> i x \<in> known t \<and> i y \<in> known t"
        if "ext s1 t" for t
        using that c ext_key ext_known ext_trans by blast
      show ?thesis
      proof (cases "sint c \<le> 0")
        case True
        obtain t where t: "amerge cmp i xs1 ys s1 = Some (pmerge (\<lambda>x. key t (i x)) xs1 ys, t)" "ok t" "ext s1 t"
          using less.hyps[of xs1 ys s1] less.prems xs c ext_valid[OF c(3)] by auto
        with kept[OF t(3)] c True show ?thesis by (auto simp: xs Cons intro!: exI[of _ t])
      next
        case False
        obtain t where t: "amerge cmp i xs ys1 s1 = Some (pmerge (\<lambda>x. key t (i x)) xs ys1, t)" "ok t" "ext s1 t"
          using less.hyps[of xs ys1 s1] less.prems Cons c ext_valid[OF c(3)] by auto
        with kept[OF t(3)] c False show ?thesis by (auto simp: xs Cons intro!: exI[of _ t])
      qed
    qed
  qed
qed

lemma settled_known:
  assumes "settled known key i s xs" "xs \<noteq> []" "i (hd xs) \<in> known s"
  shows "i ` set xs \<subseteq> known s"
  using assms set_short[of xs] by (auto simp: settled_def)

text \<open>Merging two settled runs gives their stable sort, now and for every later state.\<close>

lemma amerge_sorts:
  assumes "ok s" "i ` set xs \<subseteq> valid s" "i ` set ys \<subseteq> valid s"
    and "settled known key i s xs" "settled known key i s ys"
  shows "\<exists>zs t. amerge cmp i xs ys s = Some (zs, t) \<and> ok t \<and> ext s t \<and> settled known key i t zs \<and>
     (\<forall>u. ext t u \<longrightarrow> zs = pmerge (\<lambda>x. key u (i x)) xs ys)"
proof -
  obtain t where t: "amerge cmp i xs ys s = Some (pmerge (\<lambda>x. key t (i x)) xs ys, t)" "ok t" "ext s t"
    "xs \<noteq> [] \<longrightarrow> ys \<noteq> [] \<longrightarrow> i (hd xs) \<in> known t \<and> i (hd ys) \<in> known t"
    using amerge_pmerge[OF assms(1-3)] by blast
  let ?zs = "pmerge (\<lambda>x. key t (i x)) xs ys"
  have runs: "settled known key i t xs" "settled known key i t ys"
    using assms(4,5) settled_ext[OF t(3)] by auto
  show ?thesis
  proof (cases "xs = [] \<or> ys = []")
    case True
    then have "\<And>u. pmerge (\<lambda>x. key u (i x)) xs ys = xs @ ys" by auto
    with True t runs show ?thesis by auto
  next
    case False
    then have sub: "i ` set xs \<subseteq> known t" "i ` set ys \<subseteq> known t"
      using t(4) runs settled_known by blast+
    have "set ?zs = set xs \<union> set ys" by (metis pmerge_mset set_mset_mset set_mset_union)
    moreover have "sorted (map (\<lambda>x. key t (i x)) ?zs)"
      using runs by (intro pmerge_sorted) (auto simp: settled_def)
    ultimately have "settled known key i t ?zs" using sub by (auto simp: settled_def)
    moreover have "?zs = pmerge (\<lambda>x. key u (i x)) xs ys" if "ext t u" for u
      using ext_key[OF that] sub by (intro pmerge_cong) auto
    ultimately show ?thesis using t by blast
  qed
qed

end

text \<open>A pass doubles the length of the settled runs and keeps the order of equal keys.\<close>

context comparator
begin

lemma apass_sorts:
  assumes "0 < n" "ok s" "i ` set xs \<subseteq> valid s"
    and "\<And>k. settled known key i s (take n (drop (k * n) xs))"
  shows "\<exists>zs k t. apass cmp i n xs s = Some (zs, k, t) \<and> ok t \<and> ext s t \<and>
     (\<forall>j. settled known key i t (take (2 * n) (drop (j * (2 * n)) zs))) \<and>
     (\<forall>u v. ext t u \<longrightarrow> filter (\<lambda>x. key u (i x) = v) zs = filter (\<lambda>x. key u (i x) = v) xs) \<and>
     (k \<le> 1 \<longleftrightarrow> length xs \<le> 2 * n) \<and> (k = 0 \<longleftrightarrow> xs = []) \<and> length zs = length xs"
  using assms(2-)
proof (induction "length xs" arbitrary: xs s rule: less_induct)
  case less
  show ?case
  proof (cases "xs = []")
    case True
    then show ?thesis using less.prems ext_refl assms(1) by (simp add: apass.simps settled_def)
  next
    case False
    let ?a = "take n xs" and ?b = "take n (drop n xs)" and ?c = "drop (2 * n) xs"
    have a: "settled known key i s ?a" and b: "settled known key i s ?b"
      using less.prems(3)[of 0] less.prems(3)[of 1] by simp_all
    have sub: "i ` set ?a \<subseteq> valid s" "i ` set ?b \<subseteq> valid s" "i ` set ?c \<subseteq> valid s"
      using less.prems(2) by (auto dest: in_set_takeD in_set_dropD)
    obtain ys s1 where ys: "amerge cmp i ?a ?b s = Some (ys, s1)" "ok s1" "ext s s1"
        "settled known key i s1 ys" "\<And>u. ext s1 u \<Longrightarrow> ys = pmerge (\<lambda>x. key u (i x)) ?a ?b"
      using amerge_sorts[OF less.prems(1) sub(1,2) a b] by blast
    have len: "length ys = min (2 * n) (length xs)"
      using arg_cong[OF amerge_mset[OF ys(1)], of size] by simp
    have "settled known key i s1 (take n (drop (k * n) ?c))" for k
      using settled_ext[OF ys(3) less.prems(3)[of "k + 2"]] by (simp only: drop_drop add_mult_distrib)
    moreover have "length ?c < length xs" using False assms(1) by simp
    ultimately obtain zs k t where zs: "apass cmp i n ?c s1 = Some (zs, k, t)" "ok t" "ext s1 t"
        "\<And>j. settled known key i t (take (2 * n) (drop (j * (2 * n)) zs))"
        "\<And>u v. ext t u \<Longrightarrow> filter (\<lambda>x. key u (i x) = v) zs = filter (\<lambda>x. key u (i x) = v) ?c"
        "k = 0 \<longleftrightarrow> ?c = []" "length zs = length ?c"
      using less.hyps[of ?c s1] ys(2) sub(3) ext_valid[OF ys(3)] by auto
    have "settled known key i t (take (2 * n) (drop (j * (2 * n)) (ys @ zs)))" for j
    proof (cases "length xs \<le> 2 * n")
      case True
      then have "zs = []" using zs(7) by simp
      then show ?thesis using settled_ext[OF zs(3) ys(4)] len True
        by (cases j) (simp_all add: settled_def)
    next
      case False
      then show ?thesis using settled_ext[OF zs(3) ys(4)] len zs(4)
        by (cases j) simp_all
    qed
    moreover have "filter (\<lambda>x. key u (i x) = v) (ys @ zs) = filter (\<lambda>x. key u (i x) = v) xs"
      if "ext t u" for u v
    proof -
      have u: "ext s1 u" using ext_trans[OF zs(3) that] .
      have "sorted (map (\<lambda>x. key u (i x)) ?a)"
        using settled_ext[OF ext_trans[OF ys(3) u] a] by (simp add: settled_def)
      then have "filter (\<lambda>x. key u (i x) = v) ys = filter (\<lambda>x. key u (i x) = v) (?a @ ?b)"
        unfolding ys(5)[OF u] by (rule pmerge_stable)
      then have "filter (\<lambda>x. key u (i x) = v) (ys @ zs) = filter (\<lambda>x. key u (i x) = v) (?a @ ?b @ ?c)"
        using zs(5)[OF that] by simp
      then show ?thesis by (simp only: take_drop_twice)
    qed
    moreover have "apass cmp i n xs s = Some (ys @ zs, k + 1, t)"
      using ys(1) zs(1) False assms(1) by (subst apass.simps) simp
    moreover have "ext s t" using ext_trans[OF ys(3) zs(3)] .
    ultimately show ?thesis using zs(2,6,7) len False by auto
  qed
qed

lemma mergesort_loop_sorts:
  assumes "0 < n" "ok s" "\<And>k. settled known key (\<lambda>x. info (h ! x)) s (take n (drop (k * n) xs))"
    and "chain h p xs None" "distinct xs" "xs \<noteq> []" "length xs < 2 ^ 31"
    and "(\<lambda>x. info (h ! x)) ` set xs \<subseteq> valid s"
  shows "\<exists>zs h' t. mergesort_loop cmp n h s p = Some (hd_ptr zs, h', t) \<and> chain h' (hd_ptr zs) zs None \<and>
     relinked (set xs) h h' \<and> ok t \<and> ext s t \<and> mset zs = mset xs \<and>
     settled known key (\<lambda>x. info (h ! x)) t zs \<and>
     (\<forall>u v. ext t u \<longrightarrow> filter (\<lambda>x. key u (info (h ! x)) = v) zs = filter (\<lambda>x. key u (info (h ! x)) = v) xs)"
  using assms
proof (induction "length xs - n" arbitrary: n s h p xs rule: less_induct)
  case less
  let ?i = "\<lambda>x. info (h ! x)"
  obtain zs k t where a: "apass cmp ?i n xs s = Some (zs, k, t)" "ok t" "ext s t"
      "\<And>j. settled known key ?i t (take (2 * n) (drop (j * (2 * n)) zs))"
      "\<And>u v. ext t u \<Longrightarrow> filter (\<lambda>x. key u (?i x) = v) zs = filter (\<lambda>x. key u (?i x) = v) xs"
      "k \<le> 1 \<longleftrightarrow> length xs \<le> 2 * n" "length zs = length xs"
    using apass_sorts[OF less.prems(1,2,8,3)] by blast
  obtain h1 where h1: "sort_pass cmp n h s p = Some (h1, t, hd_ptr zs, k)"
      "chain h1 (hd_ptr zs) zs None" "relinked (set xs) h h1"
    using sort_pass_refines[OF a(1) less.prems(1,6,4,5)] by blast
  have perm: "mset zs = mset xs" using apass_mset[OF a(1) less.prems(1)] .
  note same = mset_distinct[OF perm]
  show ?case
  proof (cases "k \<le> 1")
    case True
    then have "settled known key ?i t zs" using a(4)[of 0] a(6,7) by simp
    then show ?thesis using True h1 a perm by (subst mergesort_loop.simps) auto
  next
    case False
    have infos: "info (h1 ! x) = ?i x" for x using relinked_info[OF h1(3)] by simp
    have small: "n * 2 < 2 ^ 31" using False a(6) less.prems(7) by auto
    have "\<exists>ys h' u. mergesort_loop cmp (n * 2) h1 t (hd_ptr zs) = Some (hd_ptr ys, h', u) \<and>
       chain h' (hd_ptr ys) ys None \<and> relinked (set zs) h1 h' \<and> ok u \<and> ext t u \<and> mset ys = mset zs \<and>
       settled known key (\<lambda>x. info (h1 ! x)) u ys \<and>
       (\<forall>w v. ext u w \<longrightarrow> filter (\<lambda>x. key w (info (h1 ! x)) = v) ys = filter (\<lambda>x. key w (info (h1 ! x)) = v) zs)"
    proof (rule less.hyps)
      show "length zs - n * 2 < length xs - n" using False a(6,7) less.prems(1) by auto
      show "settled known key (\<lambda>x. info (h1 ! x)) t (take (n * 2) (drop (k * (n * 2)) zs))" for k
        using a(4)[of k] by (simp add: infos mult.commute)
      show "(\<lambda>x. info (h1 ! x)) ` set zs \<subseteq> valid t"
        using less.prems(8) same(2) ext_valid[OF a(3)] by (simp add: infos)
    qed (use a(2,7) h1(2) same less.prems in auto)
    then obtain ys h' u where b: "mergesort_loop cmp (n * 2) h1 t (hd_ptr zs) = Some (hd_ptr ys, h', u)"
       "chain h' (hd_ptr ys) ys None" "relinked (set zs) h1 h'" "ok u" "ext t u" "mset ys = mset zs"
       "settled known key ?i u ys"
       "\<And>w v. ext u w \<Longrightarrow> filter (\<lambda>x. key w (?i x) = v) ys = filter (\<lambda>x. key w (?i x) = v) zs"
      unfolding infos by blast
    have "mergesort_loop cmp n h s p = Some (hd_ptr ys, h', u)"
      using False h1(1) b(1) small by (subst mergesort_loop.simps) simp
    moreover have "relinked (set xs) h h'" using relinked_trans[OF h1(3)] b(3) same(2) by simp
    moreover have "filter (\<lambda>x. key w (?i x) = v) ys = filter (\<lambda>x. key w (?i x) = v) xs" if "ext u w" for w v
      using b(8)[OF that] a(5)[OF ext_trans[OF b(5) that]] by simp
    ultimately show ?thesis using b ext_trans[OF a(3) b(5)] perm by (intro exI conjI) auto
  qed
qed

text \<open>The sort returns, and its result is the stable sort by the keys settled in the end.\<close>

lemma core_list_mergesort_sorts:
  assumes "ok s" "chain h p xs None" "distinct xs" "xs \<noteq> []" "length xs < 2 ^ 31"
    and "(\<lambda>x. info (h ! x)) ` set xs \<subseteq> valid s"
  shows "\<exists>zs h' t. core_list_mergesort cmp h p s = Some (hd_ptr zs, h', t) \<and>
     zs = sort_key (\<lambda>x. key t (info (h ! x))) xs \<and> chain h' (hd_ptr zs) zs None \<and>
     relinked (set xs) h h' \<and> ok t \<and> ext s t \<and>
     (2 \<le> length xs \<longrightarrow> (\<lambda>x. info (h ! x)) ` set xs \<subseteq> known t)"
proof -
  have "settled known key (\<lambda>x. info (h ! x)) s (take 1 (drop (k * 1) xs))" for k
    by (simp add: settled_def sorted_short)
  from mergesort_loop_sorts[OF _ assms(1) this assms(2-6)]
  obtain zs h' t where r: "mergesort_loop cmp 1 h s p = Some (hd_ptr zs, h', t)" "chain h' (hd_ptr zs) zs None"
     "relinked (set xs) h h'" "ok t" "ext s t" "mset zs = mset xs" "settled known key (\<lambda>x. info (h ! x)) t zs"
     "\<And>v. filter (\<lambda>x. key t (info (h ! x)) = v) zs = filter (\<lambda>x. key t (info (h ! x)) = v) xs"
    using ext_refl by auto
  have "sort_key (\<lambda>x. key t (info (h ! x))) xs = zs"
  proof (rule properties_for_sort_key)
    fix k
    show "filter (\<lambda>x. key t (info (h ! k)) = key t (info (h ! x))) zs =
        filter (\<lambda>x. key t (info (h ! k)) = key t (info (h ! x))) xs"
      using r(8)[of "key t (info (h ! k))"] by (simp only: eq_commute[of "key t (info (h ! k))"])
  qed (use r in \<open>simp_all add: settled_def\<close>)
  moreover have "(\<lambda>x. info (h ! x)) ` set xs \<subseteq> known t" if "2 \<le> length xs"
    using r(7) that mset_distinct(2)[OF r(6)] mset_eq_length[OF r(6)] by (auto simp: settled_def)
  ultimately show ?thesis using r by (auto simp: core_list_mergesort_def)
qed

end

end
