(* ===== verification/State_Bench.thy ===== *)
theory State_Bench
  imports Crc
begin

text \<open>
  The state-machine benchmark of \<^verbatim>\<open>coremark/src/core_state.c\<close>: the number recogniser
  \<open>core_state_transition\<close>, the input generator \<open>core_init_state\<close> and the benchmark
  \<open>core_bench_state\<close>, over the byte block \<open>memblock[3]\<close> of the benchmark's memory.
\<close>

section \<open>The recogniser\<close>

datatype core_state = CORE_START | CORE_INVALID | CORE_S1 | CORE_S2 | CORE_INT | CORE_FLOAT
  | CORE_EXPONENT | CORE_SCIENTIFIC

text \<open>The values of \<open>enum CORE_STATE\<close> below \<open>NUM_CORE_STATES\<close>, in order.\<close>

definition all_core_states :: "core_state list" where
  "all_core_states = [CORE_START, CORE_INVALID, CORE_S1, CORE_S2, CORE_INT, CORE_FLOAT,
     CORE_EXPONENT, CORE_SCIENTIFIC]"

type_synonym counts = "core_state \<Rightarrow> ee_u32"

definition bump :: "core_state \<Rightarrow> counts \<Rightarrow> counts" where
  "bump s tc = tc(s := tc s + 1)"

text \<open>Character codes of the source's literals.\<close>

abbreviation (input) c_comma :: ee_u8 where "c_comma \<equiv> 0x2c"
abbreviation (input) c_plus :: ee_u8 where "c_plus \<equiv> 0x2b"
abbreviation (input) c_minus :: ee_u8 where "c_minus \<equiv> 0x2d"
abbreviation (input) c_dot :: ee_u8 where "c_dot \<equiv> 0x2e"
abbreviation (input) c_E :: ee_u8 where "c_E \<equiv> 0x45"
abbreviation (input) c_e :: ee_u8 where "c_e \<equiv> 0x65"

definition ee_isdigit :: "ee_u8 \<Rightarrow> bool" where
  "ee_isdigit c \<longleftrightarrow> 0x30 \<le> c \<and> c \<le> 0x39"

text \<open>The \<open>switch\<close>: next state and counters for one symbol that is not a comma.\<close>

fun switch :: "core_state \<Rightarrow> ee_u8 \<Rightarrow> counts \<Rightarrow> core_state \<times> counts" where
  "switch CORE_START c tc =
     (if ee_isdigit c then (CORE_INT, bump CORE_START tc)
      else if c = c_plus \<or> c = c_minus then (CORE_S1, bump CORE_START tc)
      else if c = c_dot then (CORE_FLOAT, bump CORE_START tc)
      else (CORE_INVALID, bump CORE_START (bump CORE_INVALID tc)))"
| "switch CORE_S1 c tc =
     (if ee_isdigit c then (CORE_INT, bump CORE_S1 tc)
      else if c = c_dot then (CORE_FLOAT, bump CORE_S1 tc)
      else (CORE_INVALID, bump CORE_S1 tc))"
| "switch CORE_INT c tc =
     (if c = c_dot then (CORE_FLOAT, bump CORE_INT tc)
      else if \<not> ee_isdigit c then (CORE_INVALID, bump CORE_INT tc)
      else (CORE_INT, tc))"
| "switch CORE_FLOAT c tc =
     (if c = c_E \<or> c = c_e then (CORE_S2, bump CORE_FLOAT tc)
      else if \<not> ee_isdigit c then (CORE_INVALID, bump CORE_FLOAT tc)
      else (CORE_FLOAT, tc))"
| "switch CORE_S2 c tc =
     (if c = c_plus \<or> c = c_minus then (CORE_EXPONENT, bump CORE_S2 tc)
      else (CORE_INVALID, bump CORE_S2 tc))"
| "switch CORE_EXPONENT c tc =
     (if ee_isdigit c then (CORE_SCIENTIFIC, bump CORE_EXPONENT tc)
      else (CORE_INVALID, bump CORE_EXPONENT tc))"
| "switch CORE_SCIENTIFIC c tc =
     (if \<not> ee_isdigit c then (CORE_INVALID, bump CORE_INVALID tc)
      else (CORE_SCIENTIFIC, tc))"
| "switch CORE_INVALID c tc = (CORE_INVALID, tc)"

text \<open>The \<open>for\<close> loop of \<open>core_state_transition\<close> at position \<open>p\<close> of the block \<open>m\<close>; reading past
  the block is \<open>None\<close>.\<close>

function transition_loop ::
    "ee_u8 list \<Rightarrow> nat \<Rightarrow> core_state \<Rightarrow> counts \<Rightarrow> (nat \<times> core_state \<times> counts) option" where
  "transition_loop m p state tc =
     (if p < length m then
        if m ! p \<noteq> 0 \<and> state \<noteq> CORE_INVALID then
          if m ! p = c_comma then Some (p + 1, state, tc)
          else let (state', tc') = switch state (m ! p) tc in transition_loop m (p + 1) state' tc'
        else Some (p, state, tc)
      else None)"
  by pat_completeness auto
termination
  by (relation "measure (\<lambda>(m, p, state, tc). length m - p)") auto

declare transition_loop.simps [simp del]

definition core_state_transition ::
    "ee_u8 list \<Rightarrow> nat \<Rightarrow> counts \<Rightarrow> (nat \<times> core_state \<times> counts) option" where
  "core_state_transition m instr tc = transition_loop m instr CORE_START tc"

section \<open>The benchmark\<close>

text \<open>\<open>while (*p != 0) { fstate = core_state_transition(&p, track_counts); final_counts[fstate]++; }\<close>,
  with state \<open>(p, final_counts, track_counts)\<close>.\<close>

definition scan :: "ee_u8 list \<Rightarrow> nat \<times> counts \<times> counts \<Rightarrow> (nat \<times> counts \<times> counts) option" where
  "scan m = while_loop
     (\<lambda>(p, fc, tc). map_option (\<lambda>c. c \<noteq> 0) (aread m p))
     (\<lambda>(p, fc, tc). do {
        (p, fstate, tc) \<leftarrow> core_state_transition m p tc;
        Some (p, bump fstate fc, tc) })"

text \<open>\<open>while (p < memblock + blksize) { if (*p != ',') *p ^= (ee_u8)seed; p += step; }\<close>, with state
  \<open>(m, p)\<close>; \<open>p\<close> is the offset from \<open>memblock\<close>, which a negative \<open>step\<close> takes below the block.\<close>

definition corrupt :: "ee_u32 \<Rightarrow> ee_s16 \<Rightarrow> ee_s16 \<Rightarrow> ee_u8 list \<times> int \<Rightarrow> (ee_u8 list \<times> int) option" where
  "corrupt blksize seed step = while_loop
     (\<lambda>(m, p). Some (p < uint blksize))
     (\<lambda>(m, p). if p < 0 then None else do {
        c \<leftarrow> aread m (nat p);
        m \<leftarrow> (if c \<noteq> c_comma then awrite m (nat p) (c XOR ucast seed) else Some m);
        Some (m, p + sint step) })"

definition crc_counts :: "counts \<Rightarrow> counts \<Rightarrow> ee_u16 \<Rightarrow> ee_u16" where
  "crc_counts final_counts track_counts crc =
     fold (\<lambda>i crc. crcu32 (track_counts i) (crcu32 (final_counts i) crc)) all_core_states crc"

text \<open>The result is the CRC together with the block after the call.\<close>

definition core_bench_state ::
    "ee_u32 \<Rightarrow> ee_u8 list \<Rightarrow> ee_s16 \<Rightarrow> ee_s16 \<Rightarrow> ee_s16 \<Rightarrow> ee_u16 \<Rightarrow> (ee_u16 \<times> ee_u8 list) option" where
  "core_bench_state blksize m seed1 seed2 step crc = do {
     (_, fc, tc) \<leftarrow> scan m (0, \<lambda>_. 0, \<lambda>_. 0);
     (m, _) \<leftarrow> corrupt blksize seed1 step (m, 0);
     (_, fc, tc) \<leftarrow> scan m (0, fc, tc);
     (m, _) \<leftarrow> corrupt blksize seed2 step (m, 0);
     Some (crc_counts fc tc crc, m) }"

section \<open>The input generator\<close>

definition intpat :: "ee_u8 list list" where
  "intpat = [bytes ''5012'', bytes ''1234'', bytes ''-874'', bytes ''+122'']"

definition floatpat :: "ee_u8 list list" where
  "floatpat = [bytes ''35.54400'', bytes ''.1234500'', bytes ''-110.700'', bytes ''+0.64400'']"

definition scipat :: "ee_u8 list list" where
  "scipat = [bytes ''5.500e+3'', bytes ''-.123e-2'', bytes ''-87e+832'', bytes ''+0.6e-12'']"

definition errpat :: "ee_u8 list list" where
  "errpat = [bytes ''T0.3e-1F'', bytes ''-T.T++Tq'', bytes ''1T3.4e4z'', bytes ''34.0e-T^'']"

text \<open>The \<open>switch\<close> on the seed: the pattern and the length \<open>next\<close> the code gives it.\<close>

definition pattern :: "ee_s16 \<Rightarrow> ee_u8 list \<times> nat" where
  "pattern seed = (let i = unat (signed_drop_bit 3 seed AND 3); k = unat (seed AND 7) in
     if k \<le> 2 then (intpat ! i, 4)
     else if k \<le> 4 then (floatpat ! i, 8)
     else if k \<le> 6 then (scipat ! i, 8)
     else (errpat ! i, 8))"

text \<open>\<open>for (i = 0; i < next; i++) *(p + total + i) = buf[i]; *(p + total + i) = ',';\<close>\<close>

definition put_pattern :: "ee_u8 list \<Rightarrow> nat \<Rightarrow> ee_u8 list \<Rightarrow> nat \<Rightarrow> ee_u8 list option" where
  "put_pattern m tot buf next = do {
     m \<leftarrow> for_loop 0 next (\<lambda>i m. do { b \<leftarrow> aread buf i; awrite m (tot + i) b }) m;
     awrite m (tot + next) c_comma }"

text \<open>The main loop, with state \<open>(m, tot, next, buf, seed)\<close> and the decremented size.  \<open>seed\<close> is
  incremented as a 16-bit integer.\<close>

definition init_state_loop ::
    "nat \<Rightarrow> ee_u8 list \<times> nat \<times> nat \<times> ee_u8 list \<times> ee_s16
      \<Rightarrow> (ee_u8 list \<times> nat \<times> nat \<times> ee_u8 list \<times> ee_s16) option" where
  "init_state_loop size1 = while_loop
     (\<lambda>(m, tot, next, buf, seed). Some (tot + next + 1 < size1))
     (\<lambda>(m, tot, next, buf, seed). do {
        (m, tot) \<leftarrow> (if 0 < next
           then map_option (\<lambda>m. (m, tot + (next + 1))) (put_pattern m tot buf next)
           else Some (m, tot));
        let seed = seed + 1;
        let (buf, next) = pattern seed;
        Some (m, tot, next, buf, seed) })"

text \<open>\<open>size--\<close> on an \<open>ee_u32\<close> wraps for a zero size.\<close>

definition core_init_state :: "ee_u32 \<Rightarrow> ee_s16 \<Rightarrow> ee_u8 list \<Rightarrow> ee_u8 list option" where
  "core_init_state blksize seed p = do {
     (m, tot, _) \<leftarrow> init_state_loop (unat (blksize - 1)) (p, 0, 0, [], seed);
     for_loop tot (unat blksize) (\<lambda>i m. awrite m i 0) m }"

section \<open>The language of the recogniser\<close>

definition is_sign :: "ee_u8 \<Rightarrow> bool" where
  "is_sign c \<longleftrightarrow> c = c_plus \<or> c = c_minus"

definition is_exp :: "ee_u8 \<Rightarrow> bool" where
  "is_exp c \<longleftrightarrow> c = c_E \<or> c = c_e"

definition opt_sign :: "ee_u8 list \<Rightarrow> bool" where
  "opt_sign s \<longleftrightarrow> s = [] \<or> (\<exists>c. is_sign c \<and> s = [c])"

definition digits :: "ee_u8 list \<Rightarrow> bool" where
  "digits u \<longleftrightarrow> list_all ee_isdigit u"

definition int_lit :: "ee_u8 list \<Rightarrow> bool" where
  "int_lit w \<longleftrightarrow> (\<exists>s u. w = s @ u \<and> opt_sign s \<and> u \<noteq> [] \<and> digits u)"

definition float_lit :: "ee_u8 list \<Rightarrow> bool" where
  "float_lit w \<longleftrightarrow> (\<exists>s u v. w = s @ u @ c_dot # v \<and> opt_sign s \<and> digits u \<and> digits v)"

definition sci_lit :: "ee_u8 list \<Rightarrow> bool" where
  "sci_lit w \<longleftrightarrow> (\<exists>f e c u. w = f @ e # c # u \<and> float_lit f \<and> is_exp e \<and> is_sign c \<and>
                              u \<noteq> [] \<and> digits u)"

text \<open>The words that end in each valid state.\<close>

fun lang :: "core_state \<Rightarrow> ee_u8 list \<Rightarrow> bool" where
  "lang CORE_START w \<longleftrightarrow> w = []"
| "lang CORE_S1 w \<longleftrightarrow> (\<exists>c. w = [c] \<and> is_sign c)"
| "lang CORE_INT w \<longleftrightarrow> int_lit w"
| "lang CORE_FLOAT w \<longleftrightarrow> float_lit w"
| "lang CORE_S2 w \<longleftrightarrow> (\<exists>f e. w = f @ [e] \<and> float_lit f \<and> is_exp e)"
| "lang CORE_EXPONENT w \<longleftrightarrow> (\<exists>f e c. w = f @ [e, c] \<and> float_lit f \<and> is_exp e \<and> is_sign c)"
| "lang CORE_SCIENTIFIC w \<longleftrightarrow> sci_lit w"
| "lang CORE_INVALID w \<longleftrightarrow> False"

text \<open>The state component of \<open>switch\<close>, and its run over a word.\<close>

definition delta :: "core_state \<Rightarrow> ee_u8 \<Rightarrow> core_state" where
  "delta s c = fst (switch s c (\<lambda>_. 0))"

definition run :: "ee_u8 list \<Rightarrow> core_state" where
  "run w = foldl delta CORE_START w"

lemma fst_switch: "fst (switch s c tc) = delta s c"
  by (cases s) (auto simp: delta_def)

lemma run_Nil [simp]: "run [] = CORE_START"
  by (simp add: run_def)

lemma run_snoc: "run (w @ [c]) = delta (run w) c"
  by (simp add: run_def)

lemma digits_simps [simp]:
  "digits []" "digits (c # u) \<longleftrightarrow> ee_isdigit c \<and> digits u"
  "digits (u @ v) \<longleftrightarrow> digits u \<and> digits v"
  by (simp_all add: digits_def)

lemma opt_sign_iff: "opt_sign w \<longleftrightarrow> lang CORE_START w \<or> lang CORE_S1 w"
  by (auto simp: opt_sign_def)

lemma int_lit_snoc:
  "int_lit (w @ [c]) \<longleftrightarrow> ee_isdigit c \<and> (opt_sign w \<or> int_lit w)"
proof
  assume "int_lit (w @ [c])"
  then obtain s u where *: "w @ [c] = s @ u" "opt_sign s" "u \<noteq> []" "digits u"
    by (auto simp: int_lit_def)
  then obtain u' d where u: "u = u' @ [d]" by (cases u rule: rev_cases) auto
  with * have "w = s @ u'" "c = d" by auto
  with * u show "ee_isdigit c \<and> (opt_sign w \<or> int_lit w)"
    by (cases "u' = []") (auto simp: int_lit_def)
next
  assume r: "ee_isdigit c \<and> (opt_sign w \<or> int_lit w)"
  then consider "opt_sign w" | s u where "w = s @ u" "opt_sign s" "u \<noteq> []" "digits u"
    by (auto simp: int_lit_def)
  then show "int_lit (w @ [c])"
  proof cases
    case 1
    with r show ?thesis unfolding int_lit_def
      by (intro exI[of _ w] exI[of _ "[c]"]) simp
  next
    case 2
    with r show ?thesis unfolding int_lit_def
      by (intro exI[of _ s] exI[of _ "u @ [c]"]) simp
  qed
qed

lemma opt_sign_digits_iff: "(\<exists>s u. w = s @ u \<and> opt_sign s \<and> digits u) \<longleftrightarrow> opt_sign w \<or> int_lit w"
proof
  assume "\<exists>s u. w = s @ u \<and> opt_sign s \<and> digits u"
  then obtain s u where "w = s @ u" "opt_sign s" "digits u" by blast
  then show "opt_sign w \<or> int_lit w" by (cases "u = []") (auto simp: int_lit_def)
next
  assume "opt_sign w \<or> int_lit w"
  then show "\<exists>s u. w = s @ u \<and> opt_sign s \<and> digits u"
    by (auto simp: int_lit_def intro: exI[of _ w] exI[of _ "[]"])
qed

lemma float_lit_snoc:
  "float_lit (w @ [c]) \<longleftrightarrow>
     c = c_dot \<and> (opt_sign w \<or> int_lit w) \<or> ee_isdigit c \<and> float_lit w"
proof
  assume "float_lit (w @ [c])"
  then obtain s u v where *: "w @ [c] = s @ u @ c_dot # v" "opt_sign s" "digits u" "digits v"
    by (auto simp: float_lit_def)
  show "c = c_dot \<and> (opt_sign w \<or> int_lit w) \<or> ee_isdigit c \<and> float_lit w"
  proof (cases v rule: rev_cases)
    case Nil
    with * have "w = s @ u" "c = c_dot" by auto
    with * show ?thesis using opt_sign_digits_iff by blast
  next
    case (snoc v' d)
    with * have "w = s @ u @ c_dot # v'" "c = d" by auto
    with * snoc show ?thesis unfolding float_lit_def by auto
  qed
next
  assume "c = c_dot \<and> (opt_sign w \<or> int_lit w) \<or> ee_isdigit c \<and> float_lit w"
  then consider "c = c_dot" "\<exists>s u. w = s @ u \<and> opt_sign s \<and> digits u"
    | s u v where "ee_isdigit c" "w = s @ u @ c_dot # v" "opt_sign s" "digits u" "digits v"
    using opt_sign_digits_iff by (auto simp: float_lit_def)
  then show "float_lit (w @ [c])"
  proof cases
    case 1
    then show ?thesis unfolding float_lit_def by fastforce
  next
    case 2
    then have "w @ [c] = s @ u @ c_dot # (v @ [c])" "digits (v @ [c])" by simp_all
    with 2 show ?thesis unfolding float_lit_def by blast
  qed
qed

lemma S2_snoc: "lang CORE_S2 (w @ [c]) \<longleftrightarrow> is_exp c \<and> float_lit w"
  by auto

lemma EXPONENT_snoc: "lang CORE_EXPONENT (w @ [c]) \<longleftrightarrow> is_sign c \<and> lang CORE_S2 w"
  by auto

lemma sci_lit_snoc:
  "sci_lit (w @ [c]) \<longleftrightarrow> ee_isdigit c \<and> (lang CORE_EXPONENT w \<or> sci_lit w)"
proof
  assume "sci_lit (w @ [c])"
  then obtain f e d u where *: "w @ [c] = f @ e # d # u" "float_lit f" "is_exp e" "is_sign d"
      "u \<noteq> []" "digits u"
    by (auto simp: sci_lit_def)
  then obtain u' x where u: "u = u' @ [x]" by (cases u rule: rev_cases) auto
  with * have "w = f @ e # d # u'" "c = x" by auto
  moreover have "lang CORE_EXPONENT (f @ e # d # [])"
    using * by auto
  moreover have "sci_lit (f @ e # d # u')" if "u' \<noteq> []"
    using that * u unfolding sci_lit_def by auto
  ultimately show "ee_isdigit c \<and> (lang CORE_EXPONENT w \<or> sci_lit w)"
    using * u by (cases "u' = []") auto
next
  assume r: "ee_isdigit c \<and> (lang CORE_EXPONENT w \<or> sci_lit w)"
  then obtain f e d u where "w = f @ e # d # u" "float_lit f" "is_exp e" "is_sign d" "digits u"
    by (auto simp: sci_lit_def)
  with r show "sci_lit (w @ [c])" unfolding sci_lit_def
    by (intro exI[of _ f] exI[of _ e] exI[of _ d] exI[of _ "u @ [c]"]) simp
qed

lemmas lang_snoc = int_lit_snoc float_lit_snoc S2_snoc EXPONENT_snoc sci_lit_snoc

lemma char_classes:
  "ee_isdigit c \<Longrightarrow> \<not> is_sign c" "ee_isdigit c \<Longrightarrow> c \<noteq> c_dot" "ee_isdigit c \<Longrightarrow> \<not> is_exp c"
  "is_sign c \<Longrightarrow> c \<noteq> c_dot" "is_sign c \<Longrightarrow> \<not> is_exp c" "is_exp c \<Longrightarrow> c \<noteq> c_dot"
  by (auto simp: ee_isdigit_def is_sign_def is_exp_def)


lemma delta_simps:
  "delta CORE_START c = (if ee_isdigit c then CORE_INT else if is_sign c then CORE_S1
     else if c = c_dot then CORE_FLOAT else CORE_INVALID)"
  "delta CORE_S1 c = (if ee_isdigit c then CORE_INT else if c = c_dot then CORE_FLOAT
     else CORE_INVALID)"
  "delta CORE_INT c = (if c = c_dot then CORE_FLOAT else if ee_isdigit c then CORE_INT
     else CORE_INVALID)"
  "delta CORE_FLOAT c = (if is_exp c then CORE_S2 else if ee_isdigit c then CORE_FLOAT
     else CORE_INVALID)"
  "delta CORE_S2 c = (if is_sign c then CORE_EXPONENT else CORE_INVALID)"
  "delta CORE_EXPONENT c = (if ee_isdigit c then CORE_SCIENTIFIC else CORE_INVALID)"
  "delta CORE_SCIENTIFIC c = (if ee_isdigit c then CORE_SCIENTIFIC else CORE_INVALID)"
  "delta CORE_INVALID c = CORE_INVALID"
  by (simp_all add: delta_def is_sign_def is_exp_def)

lemma lang_snoc_iff:
  assumes "\<And>s. s \<noteq> CORE_INVALID \<Longrightarrow> lang s w \<longleftrightarrow> q = s" and "s \<noteq> CORE_INVALID"
  shows "lang s (w @ [c]) \<longleftrightarrow> delta q c = s"
proof -
  note conv = assms(1)[of CORE_START] assms(1)[of CORE_S1] assms(1)[of CORE_INT]
    assms(1)[of CORE_FLOAT] assms(1)[of CORE_S2] assms(1)[of CORE_EXPONENT]
    assms(1)[of CORE_SCIENTIFIC]
  have sets: "opt_sign w \<longleftrightarrow> q = CORE_START \<or> q = CORE_S1" "int_lit w \<longleftrightarrow> q = CORE_INT"
    "float_lit w \<longleftrightarrow> q = CORE_FLOAT" "lang CORE_S2 w \<longleftrightarrow> q = CORE_S2"
    "lang CORE_EXPONENT w \<longleftrightarrow> q = CORE_EXPONENT" "sci_lit w \<longleftrightarrow> q = CORE_SCIENTIFIC"
    using conv unfolding opt_sign_iff by simp_all
  have first: "lang CORE_S1 (w @ [c]) \<longleftrightarrow> is_sign c \<and> q = CORE_START"
    using conv(1) by auto
  have *: "lang s (w @ [c]) \<longleftrightarrow>
     (case s of CORE_START \<Rightarrow> False | CORE_S1 \<Rightarrow> is_sign c \<and> q = CORE_START
      | CORE_INT \<Rightarrow> ee_isdigit c \<and> q \<in> {CORE_START, CORE_S1, CORE_INT}
      | CORE_FLOAT \<Rightarrow> c = c_dot \<and> q \<in> {CORE_START, CORE_S1, CORE_INT} \<or> ee_isdigit c \<and> q = CORE_FLOAT
      | CORE_S2 \<Rightarrow> is_exp c \<and> q = CORE_FLOAT | CORE_EXPONENT \<Rightarrow> is_sign c \<and> q = CORE_S2
      | CORE_SCIENTIFIC \<Rightarrow> ee_isdigit c \<and> q \<in> {CORE_EXPONENT, CORE_SCIENTIFIC}
      | CORE_INVALID \<Rightarrow> False)"
    by (cases s; simp only: core_state.case lang_snoc lang.simps(1,3,4,7,8) first sets) auto
  show ?thesis
    unfolding * using assms(2)
    by (cases s; cases q) (simp_all add: delta_simps char_classes, auto dest: char_classes)
qed

lemma run_lang: "s \<noteq> CORE_INVALID \<Longrightarrow> lang s w \<longleftrightarrow> run w = s"
proof (induction w arbitrary: s rule: rev_induct)
  case Nil
  then show ?case
    by (cases s) (auto simp: int_lit_def float_lit_def sci_lit_def)
next
  case (snoc c w)
  show ?case unfolding run_snoc by (rule lang_snoc_iff) (use snoc in auto)
qed

section \<open>Scanning\<close>

text \<open>The token that starts at \<open>p\<close>: the symbols up to the next comma or \<open>NUL\<close>.\<close>

definition token :: "ee_u8 list \<Rightarrow> nat \<Rightarrow> ee_u8 list" where
  "token m p = takeWhile (\<lambda>c. c \<noteq> 0 \<and> c \<noteq> c_comma) (drop p m)"

text \<open>How many symbols the loop reads before the state is \<open>CORE_INVALID\<close> or the word ends.\<close>

fun consumed :: "core_state \<Rightarrow> ee_u8 list \<Rightarrow> nat" where
  "consumed q [] = 0"
| "consumed q (c # w) = (if q = CORE_INVALID then 0 else Suc (consumed (delta q c) w))"

lemma foldl_delta_INVALID [simp]: "foldl delta CORE_INVALID w = CORE_INVALID"
  by (induction w) (simp_all add: delta_simps)

lemma consumed_INVALID [simp]: "consumed CORE_INVALID w = 0"
  by (cases w) simp_all

lemma consumed_le: "consumed q w \<le> length w"
  by (induction w arbitrary: q) auto

lemma consumed_valid: "foldl delta q w \<noteq> CORE_INVALID \<Longrightarrow> consumed q w = length w"
  by (induction w arbitrary: q) (auto simp: delta_simps)

lemma nul_drop: "0 \<in> set (drop p m) \<Longrightarrow> p < length m"
  by (metis drop_all empty_iff list.set(1) not_le)

lemma nul_drop_Suc: "0 \<in> set (drop p m) \<Longrightarrow> m ! p \<noteq> 0 \<Longrightarrow> 0 \<in> set (drop (Suc p) m)"
  by (metis Cons_nth_drop_Suc nul_drop set_ConsD)

lemma token_simps:
  "p < length m \<Longrightarrow> m ! p = 0 \<or> m ! p = c_comma \<Longrightarrow> token m p = []"
  "p < length m \<Longrightarrow> m ! p \<noteq> 0 \<Longrightarrow> m ! p \<noteq> c_comma \<Longrightarrow> token m p = m ! p # token m (Suc p)"
  by (auto simp: token_def simp flip: Cons_nth_drop_Suc)

text \<open>The position after the token, past its comma when the token is valid and a comma ends it.\<close>

definition after_token :: "ee_u8 list \<Rightarrow> nat \<Rightarrow> core_state \<Rightarrow> nat" where
  "after_token m p q = p + consumed q (token m p) +
     (if foldl delta q (token m p) \<noteq> CORE_INVALID \<and> m ! (p + length (token m p)) = c_comma
      then 1 else 0)"

lemma transition_loop_spec:
  assumes "0 \<in> set (drop p m)"
  shows "\<exists>tc'. transition_loop m p q tc = Some (after_token m p q, foldl delta q (token m p), tc')
           \<and> p \<le> after_token m p q \<and> 0 \<in> set (drop (after_token m p q) m)"
  using assms
proof (induction m p q tc rule: transition_loop.induct)
  case (1 m p q tc)
  from "1.prems" have p: "p < length m" by (rule nul_drop)
  show ?case
  proof (cases "m ! p \<noteq> 0 \<and> q \<noteq> CORE_INVALID")
    case False
    with p "1.prems" show ?thesis
      by (subst transition_loop.simps) (auto simp: token_simps after_token_def)
  next
    case True
    show ?thesis
    proof (cases "m ! p = c_comma")
      case comma: True
      with p True "1.prems" show ?thesis
        by (subst transition_loop.simps)
          (auto simp: token_simps after_token_def nul_drop_Suc)
    next
      case False
      obtain q' tc1 where sw: "switch q (m ! p) tc = (q', tc1)" by fastforce
      then have q': "q' = delta q (m ! p)" using fst_switch[of q "m ! p" tc] by simp
      have tok: "token m p = m ! p # token m (Suc p)"
        using p True False by (simp add: token_simps)
      have aft: "after_token m p q = after_token m (Suc p) q'"
        using True by (simp add: after_token_def tok q')
      have "\<exists>tc'. transition_loop m (p + 1) q' tc1 =
              Some (after_token m (p + 1) q', foldl delta q' (token m (p + 1)), tc')
              \<and> p + 1 \<le> after_token m (p + 1) q'
              \<and> 0 \<in> set (drop (after_token m (p + 1) q') m)"
        using p True False sw "1.prems" by (intro "1.IH") (auto simp: nul_drop_Suc)
      with p True False sw show ?thesis
        by (subst transition_loop.simps) (auto simp: aft tok q')
    qed
  qed
qed

lemma after_token_progress:
  assumes "0 \<in> set (drop p m)" and "m ! p \<noteq> 0" and "q \<noteq> CORE_INVALID"
  shows "p < after_token m p q"
proof (cases "m ! p = c_comma")
  case True
  with assms nul_drop[OF assms(1)] show ?thesis by (simp add: after_token_def token_simps)
next
  case False
  with assms nul_drop[OF assms(1)] show ?thesis by (simp add: after_token_def token_simps)
qed

text \<open>The scan of a \<open>NUL\<close>-terminated block returns, at a \<open>NUL\<close> inside the block.\<close>

lemma scan_total:
  assumes "0 \<in> set m"
  shows "\<exists>p' fc' tc'. scan m (0, fc, tc) = Some (p', fc', tc') \<and> p' < length m \<and> m ! p' = 0"
proof -
  let ?I = "\<lambda>(p, fc :: counts, tc :: counts). 0 \<in> set (drop p m)"
  have "\<exists>s'. scan m (0, fc, tc) = Some s' \<and> ?I s' \<and>
          (\<lambda>(p, fc, tc). map_option (\<lambda>c. c \<noteq> 0) (aread m p)) s' = Some False"
    unfolding scan_def
  proof (rule while_loop_rule[where r = "measure (\<lambda>(p, fc, tc). length m - p)"])
    show "?I (0, fc, tc)" using assms by simp
    fix t assume I: "?I t"
    obtain p fc tc where t: "t = (p, fc, tc)" by (cases t)
    with I have z: "0 \<in> set (drop p m)" and p: "p < length m" by (auto dest: nul_drop)
    obtain tc' where tr: "core_state_transition m p tc =
         Some (after_token m p CORE_START, run (token m p), tc')"
      and fin: "0 \<in> set (drop (after_token m p CORE_START) m)"
      using transition_loop_spec[OF z, of CORE_START tc]
      by (auto simp: core_state_transition_def run_def)
    have "m ! p \<noteq> 0 \<Longrightarrow> p < after_token m p CORE_START"
      using after_token_progress[OF z, of CORE_START] by simp
    with tr fin p show "(case t of (p, fc, tc) \<Rightarrow> map_option (\<lambda>c. c \<noteq> 0) (aread m p)) = Some False \<or>
        (case t of (p, fc, tc) \<Rightarrow> map_option (\<lambda>c. c \<noteq> 0) (aread m p)) = Some True \<and>
        (\<exists>t'. (case t of (p, fc, tc) \<Rightarrow>
            do { (p, fstate, tc) \<leftarrow> core_state_transition m p tc; Some (p, bump fstate fc, tc) })
            = Some t' \<and> ?I t' \<and> (t', t) \<in> measure (\<lambda>(p, fc, tc). length m - p))"
      unfolding t by auto
  qed simp
  then show ?thesis by (auto simp: aread_def dest: nul_drop split: if_splits)
qed

section \<open>Corruption\<close>

text \<open>What one corruption pass does: every \<open>step\<close>-th byte below \<open>blksize\<close> that is not a comma is
  xored with the low byte of the seed.\<close>

definition corrupted :: "ee_u32 \<Rightarrow> ee_s16 \<Rightarrow> ee_s16 \<Rightarrow> ee_u8 list \<Rightarrow> ee_u8 list" where
  "corrupted blksize seed step m =
     map (\<lambda>i. if i < unat blksize \<and> nat (sint step) dvd i \<and> m ! i \<noteq> c_comma
              then m ! i XOR ucast seed else m ! i) [0..<length m]"

lemma length_corrupted [simp]: "length (corrupted b seed step m) = length m"
  by (simp add: corrupted_def)

lemma nth_corrupted: "i < length m \<Longrightarrow> corrupted b seed step m ! i =
   (if i < unat b \<and> nat (sint step) dvd i \<and> m ! i \<noteq> c_comma then m ! i XOR ucast seed else m ! i)"
  by (simp add: corrupted_def)

text \<open>The block after the pass has reached offset \<open>p\<close>.\<close>

definition corrupted_upto :: "nat \<Rightarrow> nat \<Rightarrow> ee_s16 \<Rightarrow> nat \<Rightarrow> ee_u8 list \<Rightarrow> ee_u8 list" where
  "corrupted_upto b d seed p m =
     map (\<lambda>i. if i < p \<and> i < b \<and> d dvd i \<and> m ! i \<noteq> c_comma then m ! i XOR ucast seed else m ! i)
       [0..<length m]"

lemma corrupted_upto_0: "corrupted_upto b d seed 0 m = m"
  by (rule nth_equalityI) (simp_all add: corrupted_upto_def)

lemma corrupted_upto_done:
  "unat b \<le> p \<Longrightarrow> corrupted_upto (unat b) (nat (sint step)) seed p m = corrupted b seed step m"
  by (auto simp: corrupted_upto_def corrupted_def)

lemma corrupted_upto_step:
  assumes "p < b" "p < length m" "d dvd p" "0 < d"
  shows "corrupted_upto b d seed (p + d) m =
     (if m ! p \<noteq> c_comma then (corrupted_upto b d seed p m)[p := m ! p XOR ucast seed]
      else corrupted_upto b d seed p m)"
proof -
  have gap: "i < p + d \<and> d dvd i \<longleftrightarrow> i < p \<and> d dvd i \<or> i = p" for i
  proof (cases "d dvd i")
    case True
    with assms(3) obtain j k where "i = d * j" "p = d * k" by (auto simp: dvd_def)
    moreover have "d * j < d * k + d \<longleftrightarrow> d * j < d * Suc k" by (simp add: add.commute)
    ultimately show ?thesis
      using assms(4) by (simp only: mult_less_cancel1 mult_cancel1) auto
  qed (use assms(3) in auto)
  show ?thesis
    by (rule nth_equalityI)
      (use assms gap in \<open>auto simp: corrupted_upto_def nth_list_update\<close>)
qed

lemma corrupt_spec:
  assumes pos: "0 < sint step" and len: "unat blksize \<le> length m"
  shows "\<exists>p. corrupt blksize seed step (m, 0) = Some (corrupted blksize seed step m, p)"
proof -
  define d where "d = nat (sint step)"
  have d: "0 < d" and step: "sint step = int d" using pos by (simp_all add: d_def)
  let ?b = "unat blksize"
  have bd: "int p < uint blksize \<longleftrightarrow> p < ?b" for p by (simp only: unat_eq_nat_uint zless_nat_eq_int_zless)
  let ?I = "\<lambda>(m', q). \<exists>p. q = int p \<and> d dvd p \<and> m' = corrupted_upto ?b d seed p m"
  have "\<exists>s'. corrupt blksize seed step (m, 0) = Some s' \<and> ?I s' \<and>
          (\<lambda>(m, p). Some (p < uint blksize)) s' = Some False"
    unfolding corrupt_def
  proof (rule while_loop_rule[where r = "measure (\<lambda>(m, p). nat (uint blksize - p))"])
    show "?I (m, 0)" by (auto simp: corrupted_upto_0 intro!: exI[of _ 0])
    fix t assume "?I t"
    then obtain p where t: "t = (corrupted_upto ?b d seed p m, int p)" and p: "d dvd p" by auto
    let ?m = "corrupted_upto ?b d seed p m" and ?m' = "corrupted_upto ?b d seed (p + d) m"
    show "(case t of (m, p) \<Rightarrow> Some (p < uint blksize)) = Some False \<or>
      (case t of (m, p) \<Rightarrow> Some (p < uint blksize)) = Some True \<and>
      (\<exists>t'. (case t of (m, p) \<Rightarrow> if p < 0 then None else do {
          c \<leftarrow> aread m (nat p);
          m \<leftarrow> (if c \<noteq> c_comma then awrite m (nat p) (c XOR ucast seed) else Some m);
          Some (m, p + sint step) }) = Some t' \<and> ?I t' \<and>
          (t', t) \<in> measure (\<lambda>(m, p). nat (uint blksize - p)))"
    proof (cases "p < ?b")
      case True
      then have in_m: "p < length ?m" "?m ! p = m ! p" "p < length m"
        using len by (simp_all add: corrupted_upto_def)
      have "(case t of (m, p) \<Rightarrow> if p < 0 then None else do {
          c \<leftarrow> aread m (nat p);
          m \<leftarrow> (if c \<noteq> c_comma then awrite m (nat p) (c XOR ucast seed) else Some m);
          Some (m, p + sint step) }) = Some (?m', int (p + d))"
        using in_m corrupted_upto_step[OF True in_m(3) p d, of seed]
        by (simp add: t step)
      moreover have "((?m', int (p + d)), t) \<in> measure (\<lambda>(m, p). nat (uint blksize - p))"
        using True d bd[of p] by (simp add: t)
      moreover have "?I (?m', int (p + d))" using p by (auto intro!: exI[of _ "p + d"])
      moreover have "(case t of (m, p) \<Rightarrow> Some (p < uint blksize)) = Some True"
        using True bd[of p] by (simp add: t)
      ultimately show ?thesis by blast
    next
      case False
      then show ?thesis using bd[of p] by (simp add: t)
    qed
  qed simp
  then obtain p where "corrupt blksize seed step (m, 0) = Some (corrupted_upto ?b d seed p m, int p)"
      "\<not> p < ?b"
    using bd by auto
  then show ?thesis using corrupted_upto_done[of blksize p step seed m] by (auto simp: d_def)
qed

text \<open>A block that keeps a \<open>NUL\<close> through the first corruption pass is scanned safely.\<close>

lemma core_bench_state_total:
  assumes "0 < sint step" "unat blksize \<le> length m" "0 \<in> set m"
    and "0 \<in> set (corrupted blksize seed1 step m)"
  shows "\<exists>crc'. core_bench_state blksize m seed1 seed2 step crc =
           Some (crc', corrupted blksize seed2 step (corrupted blksize seed1 step m))"
proof -
  let ?m1 = "corrupted blksize seed1 step m"
  obtain p1 fc1 tc1 where 1: "scan m (0, \<lambda>_. 0, \<lambda>_. 0) = Some (p1, fc1, tc1)"
    using scan_total[OF assms(3)] by blast
  obtain p2 where 2: "corrupt blksize seed1 step (m, 0) = Some (?m1, p2)"
    using corrupt_spec[OF assms(1,2)] by blast
  obtain p3 fc3 tc3 where 3: "scan ?m1 (0, fc1, tc1) = Some (p3, fc3, tc3)"
    using scan_total[OF assms(4)] by blast
  obtain p4 where 4: "corrupt blksize seed2 step (?m1, 0) = Some (corrupted blksize seed2 step ?m1, p4)"
    using corrupt_spec[OF assms(1), of blksize ?m1] assms(2) by auto
  show ?thesis using 1 2 3 4 by (simp add: core_bench_state_def)
qed

text \<open>Two adjacent \<open>NUL\<close> bytes: a stride of at least two misses one of them.\<close>

definition two_nuls :: "ee_u8 list \<Rightarrow> bool" where
  "two_nuls m \<longleftrightarrow> (\<exists>i. Suc i < length m \<and> m ! i = 0 \<and> m ! Suc i = 0)"

lemma two_nuls_nul: "two_nuls m \<Longrightarrow> 0 \<in> set m"
  by (force simp: two_nuls_def in_set_conv_nth)

lemma two_nuls_corrupted:
  assumes "two_nuls m" and "2 \<le> sint step"
  shows "0 \<in> set (corrupted blksize seed step m)"
proof -
  obtain i where i: "Suc i < length m" "m ! i = 0" "m ! Suc i = 0"
    using assms(1) by (auto simp: two_nuls_def)
  let ?d = "nat (sint step)"
  have "2 \<le> ?d" using assms(2) by simp
  then have "\<not> (?d dvd i \<and> ?d dvd Suc i)"
    using dvd_diff_nat[of ?d "Suc i" i] by auto
  then obtain j where "j \<in> {i, Suc i}" "\<not> ?d dvd j" by auto
  with i have "corrupted blksize seed step m ! j = 0" "j < length m"
    by (auto simp: nth_corrupted)
  then show ?thesis by (auto simp: in_set_conv_nth)
qed

lemma corrupted_undo:
  assumes "\<And>i. i < length m \<Longrightarrow> i < unat blksize \<Longrightarrow> nat (sint step) dvd i \<Longrightarrow> m ! i \<noteq> c_comma
             \<Longrightarrow> m ! i XOR ucast seed \<noteq> c_comma"
  shows "corrupted blksize seed step (corrupted blksize seed step m) = m"
  using assms by (intro nth_equalityI) (auto simp: nth_corrupted xor.assoc)

section \<open>The generated input\<close>

text \<open>The first \<open>n\<close> tokens the generator writes, each followed by its comma.\<close>

definition content :: "ee_s16 \<Rightarrow> nat \<Rightarrow> ee_u8 list" where
  "content seed n = concat (map (\<lambda>k. fst (pattern (seed + of_nat (Suc k))) @ [c_comma]) [0..<n])"

lemma content_0 [simp]: "content seed 0 = []"
  by (simp add: content_def)

lemma content_Suc:
  "content seed (Suc n) = content seed n @ fst (pattern (seed + of_nat (Suc n))) @ [c_comma]"
  by (simp add: content_def)

lemma and_3_less: "unat (x AND 3 :: 16 word) < 4"
  using word_and_le1[of x 3] by (simp add: word_le_nat_alt)

lemma pattern_length: "pattern seed = (buf, n) \<Longrightarrow> length buf = n \<and> 0 < n"
proof -
  let ?i = "unat (signed_drop_bit 3 seed AND 3)"
  have "?i = 0 \<or> ?i = 1 \<or> ?i = 2 \<or> ?i = 3" using and_3_less[of "signed_drop_bit 3 seed"] by arith
  then show "pattern seed = (buf, n) \<Longrightarrow> length buf = n \<and> 0 < n"
    by (auto simp: pattern_def Let_def intpat_def floatpat_def scipat_def errpat_def split: if_splits)
qed

lemma put_pattern_spec:
  assumes "length buf = n" and "tot + n < length m"
  shows "put_pattern m tot buf n = Some (take tot m @ buf @ c_comma # drop (Suc (tot + n)) m)"
proof -
  have "for_loop 0 n (\<lambda>i m. do { b \<leftarrow> aread buf i; awrite m (tot + i) b }) m =
        Some (take (tot + 0) m @ map (\<lambda>i. buf ! i) [0..<n] @ drop (tot + n) m)"
    by (rule for_loop_fill) (use assms in auto)
  moreover have "map (\<lambda>i. buf ! i) [0..<n] = buf" unfolding assms(1)[symmetric] by (rule map_nth)
  ultimately have "put_pattern m tot buf n = awrite (take tot m @ buf @ drop (tot + n) m) (tot + n) c_comma"
    by (simp add: put_pattern_def)
  also have "\<dots> = Some (take tot m @ buf @ c_comma # drop (Suc (tot + n)) m)"
    using assms by (simp add: list_update_append Cons_nth_drop_Suc[symmetric])
  finally show ?thesis .
qed

text \<open>The loop invariant: \<open>n\<close> tokens are in place, and after the first turn \<open>buf\<close> is the next one.\<close>

definition init_inv :: "ee_u8 list \<Rightarrow> ee_s16 \<Rightarrow> nat \<Rightarrow>
    ee_u8 list \<times> nat \<times> nat \<times> ee_u8 list \<times> ee_s16 \<Rightarrow> bool" where
  "init_inv m0 seed n = (\<lambda>(m, tot, nxt, buf, s).
     m = content seed n @ drop tot m0 \<and> tot = length (content seed n) \<and> tot \<le> length m0 \<and>
     (n = 0 \<and> nxt = 0 \<and> s = seed \<or>
      (buf, nxt) = pattern s \<and> s = seed + of_nat (Suc n)))"

lemma init_loop_spec:
  assumes "size1 \<le> length m0"
  shows "\<exists>m tot nxt buf s n. init_state_loop size1 (m0, 0, 0, [], seed) = Some (m, tot, nxt, buf, s)
           \<and> init_inv m0 seed n (m, tot, nxt, buf, s) \<and> size1 \<le> tot + nxt + 1
           \<and> (tot < size1 \<or> n = 0)"
proof -
  let ?c = "\<lambda>(m :: ee_u8 list, tot, nxt, buf :: ee_u8 list, seed :: ee_s16). Some (tot + nxt + 1 < size1)"
  let ?I = "\<lambda>t. \<exists>n. init_inv m0 seed n t \<and> (fst (snd t) < size1 \<or> n = 0)"
  let ?r = "measure (\<lambda>(m :: ee_u8 list, tot, nxt, buf :: ee_u8 list, seed :: ee_s16). size1 - (tot + nxt))"
  have "\<exists>t. init_state_loop size1 (m0, 0, 0, [], seed) = Some t \<and> ?I t \<and> ?c t = Some False"
    unfolding init_state_loop_def
  proof (rule while_loop_rule[where r = ?r])
    show "?I (m0, 0, 0, [], seed)" by (intro exI[of _ 0]) (simp add: init_inv_def)
    fix t assume "?I t"
    then obtain n where n: "init_inv m0 seed n t" by blast
    obtain m tot nxt buf s where t: "t = (m, tot, nxt, buf, s)" by (cases t)
    let ?b = "\<lambda>(m, tot, nxt, buf, seed). do {
        (m, tot) \<leftarrow> (if 0 < nxt
           then map_option (\<lambda>m. (m, tot + (nxt + 1))) (put_pattern m tot buf nxt)
           else Some (m, tot));
        let seed = seed + 1;
        let (buf, nxt) = pattern seed;
        Some (m, tot, nxt, buf, seed) }"
    show "?c t = Some False \<or> ?c t = Some True \<and> (\<exists>t'. ?b t = Some t' \<and> ?I t' \<and> (t', t) \<in> ?r)"
    proof (cases "tot + nxt + 1 < size1")
      case False
      then show ?thesis by (simp add: t)
    next
      case True
      obtain buf' nxt' where pat: "pattern (s + 1) = (buf', nxt')" by fastforce
      then have pos: "0 < nxt'" using pattern_length by blast
      show ?thesis
      proof (cases "0 < nxt")
        case False
        with n have "n = 0" "s = seed" using pattern_length[of s buf nxt]
          by (auto simp: init_inv_def t)
        with n False pat have "?b t = Some (m, tot, nxt', buf', s + 1)"
            "init_inv m0 seed 0 (m, tot, nxt', buf', s + 1)"
          by (simp_all add: init_inv_def t)
        with True pos False show ?thesis by (auto simp: t)
      next
        case nx: True
        with n have p: "pattern s = (buf, nxt)" and s: "s = seed + of_nat (Suc n)"
          and m: "m = content seed n @ drop tot m0" and tot: "tot = length (content seed n)"
          by (auto simp: init_inv_def t)
        have len: "length buf = nxt" using pattern_length[OF p] by simp
        have put: "put_pattern m tot buf nxt = Some (content seed n @ buf @ c_comma # drop (Suc (tot + nxt)) m0)"
          using True assms len by (subst put_pattern_spec) (auto simp: m tot add.commute)
        then have "?b t = Some (content seed (Suc n) @ drop (tot + (nxt + 1)) m0, tot + (nxt + 1), nxt', buf', s + 1)"
          using nx pat p s by (simp add: t content_Suc)
        moreover have "init_inv m0 seed (Suc n) (content seed (Suc n) @ drop (tot + (nxt + 1)) m0,
            tot + (nxt + 1), nxt', buf', s + 1)"
          using True assms pat p s len tot by (simp add: init_inv_def content_Suc algebra_simps)
        ultimately show ?thesis using True pos by (auto simp: t)
      qed
    qed
  qed simp
  then show ?thesis by fastforce
qed

text \<open>The generator fills the first \<open>size\<close> bytes with whole tokens, as many as fit below
  \<open>size - 1\<close>, and zeros, and leaves the bytes behind them alone.\<close>

lemma core_init_state_content:
  assumes "1 \<le> unat blksize" and "unat blksize \<le> length m0"
  shows "\<exists>n. core_init_state blksize seed m0 =
             Some (content seed n @ replicate (unat blksize - length (content seed n)) 0
                     @ drop (unat blksize) m0)
           \<and> (length (content seed n) < unat blksize - 1 \<or> n = 0)
           \<and> unat blksize - 1 \<le> length (content seed (Suc n))"
proof -
  have sz: "unat (blksize - 1) = unat blksize - 1"
    using assms(1) by (simp add: unat_sub word_le_nat_alt)
  obtain m tot nxt buf s n where
    loop: "init_state_loop (unat blksize - 1) (m0, 0, 0, [], seed) = Some (m, tot, nxt, buf, s)"
    and inv: "init_inv m0 seed n (m, tot, nxt, buf, s)"
    and stop: "unat blksize - 1 \<le> tot + nxt + 1" and fits: "tot < unat blksize - 1 \<or> n = 0"
    using init_loop_spec[OF le_trans[OF diff_le_self assms(2)], of 1 seed] by blast
  have tot: "tot = length (content seed n)" and m: "m = content seed n @ drop tot m0"
    using inv by (auto simp: init_inv_def)
  have le: "tot \<le> unat blksize" using fits tot by auto
  have "for_loop tot (unat blksize) (\<lambda>i m. awrite m i 0) m =
      Some (take (0 + tot) m @ map (\<lambda>i. 0) [tot..<unat blksize] @ drop (0 + unat blksize) m)"
    by (rule for_loop_fill) (use le assms(2) m tot in auto)
  then have "core_init_state blksize seed m0 =
      Some (content seed n @ replicate (unat blksize - tot) 0 @ drop (unat blksize) m0)"
    using loop le by (simp add: core_init_state_def sz m tot map_replicate_const)
  moreover have "unat blksize - 1 \<le> length (content seed (Suc n))"
  proof -
    have "nxt \<le> length (fst (pattern (seed + of_nat (Suc n))))"
      using inv pattern_length[of s buf nxt]
      by (auto simp: init_inv_def simp del: of_nat_Suc dest: sym[of "(buf, nxt)"])
    then show ?thesis using stop tot by (simp add: content_Suc)
  qed
  ultimately show ?thesis using fits tot by blast
qed


lemma two_nuls_replicate: "2 \<le> k \<Longrightarrow> two_nuls (xs @ replicate k 0 @ ys)"
  unfolding two_nuls_def by (intro exI[of _ "length xs"]) (simp add: nth_append)

lemma core_init_state_two_nuls:
  assumes "2 \<le> unat blksize" and "unat blksize \<le> length m0"
  shows "\<exists>m. core_init_state blksize seed m0 = Some m \<and> two_nuls m \<and> length m = length m0"
proof -
  obtain n where n: "core_init_state blksize seed m0 =
      Some (content seed n @ replicate (unat blksize - length (content seed n)) 0 @ drop (unat blksize) m0)"
    and fits: "length (content seed n) < unat blksize - 1 \<or> n = 0"
    using core_init_state_content[of blksize m0 seed] assms by auto
  then have "2 \<le> unat blksize - length (content seed n)" using assms(1) by auto
  with n assms(2) show ?thesis by (auto intro: two_nuls_replicate)
qed

section \<open>Properties\<close>

text \<open>C3. The recogniser classifies the token at \<open>p\<close> exactly: the returned state is
  \<open>CORE_INT\<close>, \<open>CORE_FLOAT\<close>, \<open>CORE_SCIENTIFIC\<close> (or one of the intermediate states) precisely when the
  token is a literal of that form, and \<open>CORE_INVALID\<close> when it is none; the pointer moves past a
  valid token and its comma, or just past the first symbol that makes the token invalid.\<close>

theorem core_state_transition_classifies:
  assumes "0 \<in> set (drop p m)"
  shows "\<exists>state tc'. core_state_transition m p tc = Some (after_token m p CORE_START, state, tc') \<and>
           (\<forall>s. s \<noteq> CORE_INVALID \<longrightarrow> (state = s \<longleftrightarrow> lang s (token m p)))"
proof -
  obtain tc' where "core_state_transition m p tc =
      Some (after_token m p CORE_START, run (token m p), tc')"
    using transition_loop_spec[OF assms, of CORE_START tc]
    by (auto simp: core_state_transition_def run_def)
  then show ?thesis using run_lang by blast
qed

theorem core_state_transition_classifies_witness:
  "\<exists>state tc'. core_state_transition [0x2d, 0x31, 0x2e, 0x2c, 0] 0 (\<lambda>_. 0) =
       Some (after_token [0x2d, 0x31, 0x2e, 0x2c, 0] 0 CORE_START, state, tc') \<and>
     (\<forall>s. s \<noteq> CORE_INVALID \<longrightarrow> (state = s \<longleftrightarrow> lang s (token [0x2d, 0x31, 0x2e, 0x2c, 0] 0)))"
  by (rule core_state_transition_classifies) simp

text \<open>C4. The generated input is what its comments say: for every seed and every block of at least
  one byte, \<open>core_init_state\<close> stays inside the block and fills its first \<open>size\<close> bytes with whole
  comma-terminated patterns, chosen by the successive seeds and as many as fit, then zeros.\<close>

theorem core_init_state_fills_block:
  assumes "1 \<le> unat blksize" and "unat blksize \<le> length m0"
  shows "\<exists>n. core_init_state blksize seed m0 =
             Some (content seed n @ replicate (unat blksize - length (content seed n)) 0
                     @ drop (unat blksize) m0)
           \<and> (length (content seed n) < unat blksize - 1 \<or> n = 0)
           \<and> unat blksize - 1 \<le> length (content seed (Suc n))"
  using assms by (rule core_init_state_content)

theorem core_init_state_fills_block_witness:
  "\<exists>n. core_init_state 12 0 (replicate 14 7) =
       Some (content 0 n @ replicate (unat (12 :: ee_u32) - length (content 0 n)) 0
               @ drop (unat (12 :: ee_u32)) (replicate 14 7))
     \<and> (length (content 0 n) < unat (12 :: ee_u32) - 1 \<or> n = 0)
     \<and> unat (12 :: ee_u32) - 1 \<le> length (content 0 (Suc n))"
  by (rule core_init_state_fills_block) simp_all

text \<open>C5. The state benchmark is memory safe and returns on every generated input: whatever the
  seeds and for every stride of at least two, no corruption pass can remove the last \<open>NUL\<close>, so both
  scans stop inside the block.\<close>

theorem state_benchmark_safe:
  assumes "2 \<le> unat blksize" and "unat blksize \<le> length m0" and "2 \<le> sint step"
  shows "\<exists>m crc' m'. core_init_state blksize seed m0 = Some m \<and>
           core_bench_state blksize m seed1 seed2 step crc = Some (crc', m') \<and>
           length m' = length m0"
proof -
  obtain m where m: "core_init_state blksize seed m0 = Some m" "two_nuls m" "length m = length m0"
    using core_init_state_two_nuls[OF assms(1,2)] by blast
  then obtain crc' where "core_bench_state blksize m seed1 seed2 step crc =
      Some (crc', corrupted blksize seed2 step (corrupted blksize seed1 step m))"
    using core_bench_state_total[of step blksize m seed1 seed2 crc] assms
    by (auto simp: two_nuls_nul two_nuls_corrupted)
  with m show ?thesis by auto
qed

theorem state_benchmark_safe_witness:
  "\<exists>m crc' m'. core_init_state 12 0 (replicate 14 7) = Some m \<and>
     core_bench_state 12 m 0x3415 0x3415 0x22 0 = Some (crc', m') \<and>
     length m' = length (replicate 14 (7 :: ee_u8))"
  by (rule state_benchmark_safe) simp_all

text \<open>C6. With equal seeds the second pass undoes the first, provided the xor turns no byte on the
  stride into a comma; the block is then unchanged by the benchmark.\<close>

theorem core_bench_state_restores:
  assumes "2 \<le> sint step" and "unat blksize \<le> length m" and "two_nuls m"
    and "\<forall>c \<in> set m. c \<noteq> c_comma \<longrightarrow> c XOR ucast seed \<noteq> c_comma"
  shows "\<exists>crc'. core_bench_state blksize m seed seed step crc = Some (crc', m)"
proof -
  have "corrupted blksize seed step (corrupted blksize seed step m) = m"
    using assms(4) by (intro corrupted_undo) auto
  then show ?thesis
    using core_bench_state_total[of step blksize m seed seed crc] assms
    by (auto simp: two_nuls_nul two_nuls_corrupted)
qed

theorem core_bench_state_restores_witness:
  "\<exists>crc'. core_bench_state 4 [0x35, 0x2c, 0, 0] 0x3415 0x3415 0x22 0 =
     Some (crc', [0x35, 0x2c, 0, 0])"
  by (rule core_bench_state_restores)
    (simp_all add: two_nuls_def exI[of _ 2])

text \<open>C7. Equal seeds alone do not restore the block, although the comment on the second pass says
  so: with seed \<open>0x19\<close> the digit \<open>5\<close> becomes a comma, which the second pass skips.\<close>

theorem equal_seeds_do_not_always_restore:
  "\<exists>crc'. core_bench_state 4 [0x35, 0x2c, 0, 0] 0x19 0x19 0x22 crc =
     Some (crc', [0x2c, 0x2c, 0, 0])"
proof -
  let ?m = "[0x35, 0x2c, 0, 0] :: ee_u8 list"
  have stride: "\<not> 34 dvd Suc (Suc 0)" "\<not> 34 dvd Suc (Suc (Suc 0))" by presburger+
  have 1: "corrupted 4 0x19 0x22 ?m = [0x2c, 0x2c, 0, 0]"
    using stride by (simp add: corrupted_def upt_rec)
  have 2: "corrupted 4 0x19 0x22 [0x2c, 0x2c, 0, 0] = [0x2c, 0x2c, 0, 0]"
    using stride by (simp add: corrupted_def upt_rec)
  show ?thesis
    using core_bench_state_total[of "0x22" 4 ?m "0x19" "0x19" crc] by (simp add: 1 2)
qed

text \<open>C8. Every integer, float and error pattern of the generator is recognised as what its table
  says, and so are the scientific ones, except \<open>-87e+832\<close>, which the recogniser rejects: it has no
  transition on \<open>e\<close> before a decimal point.\<close>

theorem patterns_recognised:
  "map run intpat = replicate 4 CORE_INT \<and>
   map run floatpat = replicate 4 CORE_FLOAT \<and>
   map run scipat = [CORE_SCIENTIFIC, CORE_SCIENTIFIC, CORE_INVALID, CORE_SCIENTIFIC] \<and>
   map run errpat = replicate 4 CORE_INVALID"
  by code_simp

end
