(* ===== verification/Uart.thy ===== *)
theory Uart
  imports Prelude
begin

text \<open>
  The console: the transmit register of the UART as the code sees it, and the pieces the four
  console drivers of the repository share (waiting for the transmitter, digit buffers).

  The device is a parameter: after the \<open>n\<close>-th byte the next \<open>busy n\<close> reads of the status register find
  bit 0 set.  The bytes written are recorded in \<open>sent\<close>.
\<close>

section \<open>The device\<close>

record uart =
  wait :: nat
  sent :: "ee_u8 list"

definition uart_status :: "uart \<Rightarrow> ee_u32 \<times> uart" where
  "uart_status u = (if wait u = 0 then 0 else 1, u\<lparr>wait := wait u - 1\<rparr>)"

definition uart_write :: "(nat \<Rightarrow> nat) \<Rightarrow> ee_u8 \<Rightarrow> uart \<Rightarrow> uart" where
  "uart_write busy c u = u\<lparr>wait := busy (length (sent u)), sent := sent u @ [c]\<rparr>"

text \<open>\<open>while ((*uart) & 1u) ;\<close>: the state carries the status last read.\<close>

definition wait_free :: "uart \<Rightarrow> uart option" where
  "wait_free u = map_option snd
     (while_loop (\<lambda>(s, u). Some (s AND 1 \<noteq> 0)) (\<lambda>(s, u). Some (uart_status u)) (uart_status u))"

lemma wait_free_eq: "wait_free u = Some (u\<lparr>wait := 0\<rparr>)"
proof -
  have "while_loop (\<lambda>(s, u). Some (s AND 1 \<noteq> 0)) (\<lambda>(s, u). Some (uart_status u)) (uart_status u)
      = Some (0, u\<lparr>wait := 0\<rparr>)"
  proof (induction "wait u" arbitrary: u)
    case 0
    then show ?case by (subst while_loop.simps) (simp add: uart_status_def)
  next
    case (Suc n)
    have "n = wait (u\<lparr>wait := n\<rparr>)" by simp
    from Suc.hyps(1)[OF this] Suc.hyps(2)[symmetric]
    show ?case by (subst while_loop.simps) (simp add: uart_status_def)
  qed
  then show ?thesis by (simp add: wait_free_def)
qed

section \<open>What a console function sends\<close>

text \<open>\<open>r\<close> is the outcome of a function called in \<open>u\<close>: it returned, having sent \<open>bs\<close>.\<close>

definition sends :: "uart \<Rightarrow> ee_u8 list \<Rightarrow> uart option \<Rightarrow> bool" where
  "sends u bs r \<longleftrightarrow> (\<exists>u'. r = Some u' \<and> sent u' = sent u @ bs)"

lemma sends_nothing [intro]: "sends u [] (Some u)"
  by (simp add: sends_def)

lemma sends_bind:
  assumes "sends u bs r" and "\<And>u'. sent u' = sent u @ bs \<Longrightarrow> sends u' cs (f u')"
  shows "sends u (bs @ cs) (Option.bind r f)"
  using assms by (fastforce simp: sends_def)

text \<open>A character output routine as the printing functions use it.\<close>

locale console =
  fixes putc :: "ee_u8 \<Rightarrow> uart \<Rightarrow> uart option" and out :: "ee_u8 \<Rightarrow> ee_u8 list"
  assumes putc_sends: "sends u (out c) (putc c u)"

text \<open>\<open>while (*s) putc(*s++)\<close> on a string with its terminating \<open>NUL\<close>.\<close>

fun put_string :: "(ee_u8 \<Rightarrow> uart \<Rightarrow> uart option) \<Rightarrow> ee_u8 list \<Rightarrow> uart \<Rightarrow> uart option" where
  "put_string putc [] u = None"
| "put_string putc (c # s) u = (if c = 0 then Some u else Option.bind (putc c u) (put_string putc s))"

section \<open>Digits\<close>

text \<open>A local character array: bytes that have not been written are indeterminate.\<close>

type_synonym buffer = "ee_u8 option list"

definition bput :: "buffer \<Rightarrow> nat \<Rightarrow> ee_u8 \<Rightarrow> buffer option" where
  "bput b i c = awrite b i (Some c)"

definition bget :: "buffer \<Rightarrow> nat \<Rightarrow> ee_u8 option" where
  "bget b i = Option.bind (aread b i) (\<lambda>c. c)"

text \<open>\<open>while (v) { b[i++] = digit(v % base); v /= base; }\<close>\<close>

definition digit_loop :: "(ee_u32 \<Rightarrow> ee_u8 option) \<Rightarrow> ee_u32 \<Rightarrow> buffer \<times> nat \<times> ee_u32 \<Rightarrow> (buffer \<times> nat \<times> ee_u32) option" where
  "digit_loop digit base = while_loop (\<lambda>(b, i, v). Some (v \<noteq> 0))
     (\<lambda>(b, i, v). do {
        c \<leftarrow> digit (v mod base);
        b \<leftarrow> bput b i c;
        Some (b, i + 1, v div base) })"

text \<open>\<open>for (j = i - 1; j >= 0; j--) putc(b[j])\<close>\<close>

fun put_back :: "(ee_u8 \<Rightarrow> uart \<Rightarrow> uart option) \<Rightarrow> buffer \<Rightarrow> nat \<Rightarrow> uart \<Rightarrow> uart option" where
  "put_back putc b 0 u = Some u"
| "put_back putc b (Suc j) u = do { c \<leftarrow> bget b j; u \<leftarrow> putc c u; put_back putc b j u }"

text \<open>The digit characters: \<open>'0' + d\<close> and \<open>"0123456789abcdef"[d]\<close>.\<close>

definition dec_char :: "ee_u32 \<Rightarrow> ee_u8 option" where
  "dec_char d = Some (48 + ucast d)"

definition hex_char :: "ee_u32 \<Rightarrow> ee_u8 option" where
  "hex_char d = aread (bytes ''0123456789abcdef'' @ [0]) (unat d)"

text \<open>The positional notation, least significant digit first.\<close>

fun digits :: "nat \<Rightarrow> nat \<Rightarrow> nat list" where
  "digits base v = (if v = 0 \<or> base < 2 then [] else v mod base # digits base (v div base))"

declare digits.simps [simp del]

lemma digits_0 [simp]: "digits base 0 = []"
  by (simp add: digits.simps)

lemma digits_step: "2 \<le> base \<Longrightarrow> v \<noteq> 0 \<Longrightarrow> digits base v = v mod base # digits base (v div base)"
  by (subst digits.simps) simp

lemma digits_less: "2 \<le> base \<Longrightarrow> d \<in> set (digits base v) \<Longrightarrow> d < base"
  by (induction base v rule: digits.induct) (subst (asm) (2) digits.simps, auto split: if_splits)

text \<open>The notation denotes the number.\<close>

lemma digits_value: "2 \<le> base \<Longrightarrow> foldr (\<lambda>d n. d + base * n) (digits base v) 0 = v"
  by (induction base v rule: digits.induct) (subst digits.simps, simp)

lemma length_digits: "2 \<le> base \<Longrightarrow> v < base ^ n \<Longrightarrow> length (digits base v) \<le> n"
proof (induction n arbitrary: v)
  case 0
  then show ?case by simp
next
  case (Suc n)
  show ?case
  proof (cases "v = 0")
    case False
    have "v div base < base ^ n" using Suc.prems by (simp add: less_mult_imp_div_less mult.commute)
    then show ?thesis using Suc.IH[of "v div base"] Suc.prems(1) False by (simp add: digits_step)
  qed simp
qed

text \<open>The text of a number, most significant digit first, with at least one digit.\<close>

definition numeral_text :: "(nat \<Rightarrow> ee_u8) \<Rightarrow> nat \<Rightarrow> nat \<Rightarrow> ee_u8 list" where
  "numeral_text char base v = (if v = 0 then [char 0] else map char (rev (digits base v)))"

lemma digit_loop_spec:
  assumes "2 \<le> unat base" "\<And>d. unat d < unat base \<Longrightarrow> digit d = Some (char (unat d))"
    and "i + length (digits (unat base) (unat v)) \<le> length b"
  shows "\<exists>b'. digit_loop digit base (b, i, v) = Some (b', i + length (digits (unat base) (unat v)), 0) \<and>
     length b' = length b \<and> (\<forall>k < i. b' ! k = b ! k) \<and>
     (\<forall>k < length (digits (unat base) (unat v)). b' ! (i + k) = Some (char (digits (unat base) (unat v) ! k))) \<and>
     (\<forall>k \<ge> i + length (digits (unat base) (unat v)). b' ! k = b ! k)"
  using assms(3)
proof (induction "unat v" arbitrary: v i b rule: less_induct)
  case less
  show ?case
  proof (cases "v = 0")
    case True
    then show ?thesis by (simp add: digit_loop_def while_loop.simps)
  next
    case False
    then have nz: "unat v \<noteq> 0" by (simp add: unat_eq_zero)
    have d: "unat (v mod base) = unat v mod unat base" "unat (v div base) = unat v div unat base"
      by (simp_all add: unat_mod unat_div)
    let ?ds = "digits (unat base) (unat v div unat base)"
    have ds: "digits (unat base) (unat v) = unat v mod unat base # ?ds"
      using digits_step[OF assms(1) nz] .
    have c: "digit (v mod base) = Some (char (unat v mod unat base))"
      using assms(1) assms(2)[of "v mod base"] d(1) by simp
    let ?b = "b[i := Some (char (unat v mod unat base))]"
    have i: "i < length b" using less.prems ds by simp
    have "unat (v div base) < unat v" using assms(1) nz d(2) by simp
    moreover have "Suc i + length (digits (unat base) (unat (v div base))) \<le> length ?b"
      using less.prems ds d(2) by simp
    ultimately obtain b' where b': "digit_loop digit base (?b, Suc i, v div base) = Some (b', Suc i + length ?ds, 0)"
      "length b' = length b" "\<forall>k < Suc i. b' ! k = ?b ! k" "\<forall>k < length ?ds. b' ! (Suc i + k) = Some (char (?ds ! k))"
      "\<forall>k \<ge> Suc i + length ?ds. b' ! k = ?b ! k"
      using less.hyps[of "v div base" "Suc i" ?b] unfolding d(2) length_list_update by blast
    have "digit_loop digit base (b, i, v) = digit_loop digit base (?b, Suc i, v div base)"
      unfolding digit_loop_def using False c i by (subst while_loop.simps) (simp add: bput_def)
    moreover have "b' ! (i + k) = Some (char ((unat v mod unat base # ?ds) ! k))" if "k < Suc (length ?ds)" for k
      using that b'(3,4) i by (cases k) auto
    ultimately show ?thesis using b' i ds by auto
  qed
qed

lemma map_upt_nth: "map (\<lambda>k. f (xs ! k)) [0..<length xs] = map f xs"
  by (rule nth_equalityI) simp_all

context console
begin

lemma put_back_sends:
  assumes "n \<le> length b" "\<And>k. k < n \<Longrightarrow> b ! k = Some (cs k)"
  shows "sends u (concat (map (\<lambda>k. out (cs k)) (rev [0..<n]))) (put_back putc b n u)"
  using assms
proof (induction n arbitrary: u)
  case 0
  then show ?case by auto
next
  case (Suc n)
  have "bget b n = Some (cs n)" using Suc.prems by (simp add: bget_def)
  moreover have "sends u (out (cs n) @ concat (map (\<lambda>k. out (cs k)) (rev [0..<n])))
      (Option.bind (putc (cs n) u) (put_back putc b n))"
    using Suc by (intro sends_bind putc_sends) auto
  ultimately show ?case by simp
qed

lemma put_string_sends:
  "0 \<notin> set t \<Longrightarrow> sends u (concat (map out t)) (put_string putc (t @ 0 # rest) u)"
proof (induction t arbitrary: u)
  case (Cons c t)
  then show ?case by (auto intro!: sends_bind putc_sends)
qed auto

text \<open>A number printed through a digit buffer that is large enough.\<close>

lemma number_sends:
  assumes "2 \<le> unat base" "\<And>d. unat d < unat base \<Longrightarrow> digit d = Some (char (unat d))"
    and "length (digits (unat base) (unat v)) \<le> n" "v \<noteq> 0"
  shows "sends u (concat (map out (numeral_text char (unat base) (unat v))))
     (do { (b, i, _) \<leftarrow> digit_loop digit base (replicate n None, 0, v); put_back putc b i u })"
proof -
  let ?ds = "digits (unat base) (unat v)"
  obtain b where b: "digit_loop digit base (replicate n None, 0, v) = Some (b, length ?ds, 0)" "length b = n"
      "\<And>k. k < length ?ds \<Longrightarrow> b ! k = Some (char (?ds ! k))"
    using digit_loop_spec[of base digit char 0 v "replicate n None"] assms(1-3) by auto
  have "sends u (concat (map (\<lambda>k. out (char (?ds ! k))) (rev [0..<length ?ds]))) (put_back putc b (length ?ds) u)"
    using assms(3) b(2,3) by (intro put_back_sends) simp_all
  moreover have nz: "unat v \<noteq> 0" using assms(4) by (simp add: unat_eq_zero)
  moreover have "map (\<lambda>k. out (char (?ds ! k))) (rev [0..<length ?ds]) = map out (numeral_text char (unat base) (unat v))"
  proof -
    have "map (\<lambda>k. out (char (?ds ! k))) [0..<length ?ds] = map (\<lambda>d. out (char d)) ?ds"
      by (rule map_upt_nth)
    from arg_cong[OF this, of rev]
    have "map (\<lambda>k. out (char (?ds ! k))) (rev [0..<length ?ds]) = map (\<lambda>d. out (char d)) (rev ?ds)"
      unfolding rev_map .
    then show ?thesis using nz unfolding numeral_text_def by (simp add: comp_def)
  qed
  ultimately show ?thesis using b(1) by simp
qed

end

lemma dec_char_spec: "unat d < unat (10 :: ee_u32) \<Longrightarrow> dec_char d = Some (48 + of_nat (unat d))"
  by (simp add: dec_char_def)

lemma hex_char_spec: "unat d < unat (16 :: ee_u32) \<Longrightarrow> hex_char d = Some (bytes ''0123456789abcdef'' ! unat d)"
  by (simp add: hex_char_def nth_append)

lemma decimal_length: "length (digits 10 (unat (v :: ee_u32))) \<le> 10"
proof -
  have "unat v < 10 ^ 10" using unsigned_less[of v, where 'a = nat] by simp
  then show ?thesis by (rule length_digits[rotated]) simp
qed

lemma hex_length: "length (digits 16 (unat (v :: ee_u32))) \<le> 8"
proof -
  have "unat v < 16 ^ 8" using unsigned_less[of v, where 'a = nat] by simp
  then show ?thesis by (rule length_digits[rotated]) simp
qed

end
