(* ===== verification/Portme.thy ===== *)
theory Portme
  imports Uart
begin

text \<open>
  The bare-metal port layer \<^verbatim>\<open>coremark/src/core_portme.c\<close>: alignment, timing and the formatted output
  \<open>ee_printf\<close>.  \<open>int\<close>, \<open>long\<close> and pointers have 32 bits (\<^verbatim>\<open>-mabi=ilp32\<close>), plain \<open>char\<close> is unsigned.
\<close>

section \<open>Memory\<close>

text \<open>\<open>align_mem\<close> on a 32-bit address.\<close>

definition align_mem :: "ee_u32 \<Rightarrow> ee_u32" where
  "align_mem p = (p + 3) AND NOT 3"

section \<open>Timing\<close>

record timer =
  start_tick :: ee_u32
  stop_tick :: ee_u32

definition start_time :: "ee_u32 \<Rightarrow> timer \<Rightarrow> timer" where
  "start_time mtime t = t\<lparr>start_tick := mtime\<rparr>"

definition stop_time :: "ee_u32 \<Rightarrow> timer \<Rightarrow> timer" where
  "stop_time mtime t = t\<lparr>stop_tick := mtime\<rparr>"

definition get_time :: "timer \<Rightarrow> ee_u32" where
  "get_time t = stop_tick t - start_tick t"

definition ee_ticks_per_sec :: ee_u32 where
  "ee_ticks_per_sec = 100000000"

definition time_in_secs :: "ee_u32 \<Rightarrow> ee_u32" where
  "time_in_secs ticks = ticks div ee_ticks_per_sec"

section \<open>Characters and strings\<close>

text \<open>Waiting for the transmitter and writing one byte.\<close>

definition put_raw :: "(nat \<Rightarrow> nat) \<Rightarrow> ee_u8 \<Rightarrow> uart \<Rightarrow> uart option" where
  "put_raw busy c u = map_option (uart_write busy c) (wait_free u)"

text \<open>\<open>_putc\<close> calls itself with a carriage return, which is not a newline, before a newline.\<close>

definition ee_putc :: "(nat \<Rightarrow> nat) \<Rightarrow> ee_u8 \<Rightarrow> uart \<Rightarrow> uart option" where
  "ee_putc busy c u = do {
     u \<leftarrow> (if c = 10 then put_raw busy 13 u else Some u);
     put_raw busy c u }"

definition ee_puts :: "(nat \<Rightarrow> nat) \<Rightarrow> ee_u8 list \<Rightarrow> uart \<Rightarrow> uart option" where
  "ee_puts busy s u = put_string (ee_putc busy) s u"

section \<open>Numbers\<close>

definition ee_print_uint :: "(nat \<Rightarrow> nat) \<Rightarrow> ee_u32 \<Rightarrow> uart \<Rightarrow> uart option" where
  "ee_print_uint busy v u =
     (if v = 0 then ee_putc busy 48 u
      else do {
        (b, i, v) \<leftarrow> digit_loop dec_char 10 (replicate 20 None, 0, v);
        put_back (ee_putc busy) b i u })"

definition ee_print_int :: "(nat \<Rightarrow> nat) \<Rightarrow> ee_s32 \<Rightarrow> uart \<Rightarrow> uart option" where
  "ee_print_int busy v u =
     (if sint v < 0 then do { u \<leftarrow> ee_putc busy 45 u; ee_print_uint busy (- v) u }
      else ee_print_uint busy v u)"

definition hex_body :: "buffer \<times> nat \<times> ee_u32 \<Rightarrow> (buffer \<times> nat \<times> ee_u32) option" where
  "hex_body = (\<lambda>(b, i, v). do {
     c \<leftarrow> hex_char (v AND 0xF);
     b \<leftarrow> bput b i c;
     Some (b, i + 1, drop_bit 4 v) })"

definition pad_zeros :: "nat \<Rightarrow> buffer \<times> nat \<Rightarrow> (buffer \<times> nat) option" where
  "pad_zeros width = while_loop (\<lambda>(b, i). Some (i < width))
     (\<lambda>(b, i). do { b \<leftarrow> bput b i 48; Some (b, i + 1) })"

definition ee_print_hex :: "(nat \<Rightarrow> nat) \<Rightarrow> ee_u32 \<Rightarrow> nat \<Rightarrow> uart \<Rightarrow> uart option" where
  "ee_print_hex busy v width u = do {
     s \<leftarrow> hex_body (replicate 16 None, 0, v);
     (b, i, v) \<leftarrow> while_loop (\<lambda>(b, i, v). Some (v \<noteq> 0)) hex_body s;
     (b, i) \<leftarrow> pad_zeros width (b, i);
     put_back (ee_putc busy) b i u }"

section \<open>The format interpreter\<close>

text \<open>The variable arguments: 32-bit values, or strings with their terminating \<open>NUL\<close>.\<close>

datatype arg = IntArg ee_u32 | StrArg "ee_u8 list"

fun int_arg :: "arg list \<Rightarrow> (ee_u32 \<times> arg list) option" where
  "int_arg (IntArg v # args) = Some (v, args)"
| "int_arg _ = None"

fun str_arg :: "arg list \<Rightarrow> (ee_u8 list \<times> arg list) option" where
  "str_arg (StrArg s # args) = Some (s, args)"
| "str_arg _ = None"

text \<open>A pointer into the format is the rest of the format; reading past its end is \<open>None\<close>.  The width
  is an \<open>int\<close>, it must not overflow.\<close>

fun scan_width :: "ee_u8 list \<Rightarrow> nat \<Rightarrow> (nat \<times> ee_u8 list) option" where
  "scan_width [] width = None"
| "scan_width (c # f) width =
     (if 48 \<le> c \<and> c \<le> 57 then
        let w = width * 10 + unat (c - 48) in if w < 2 ^ 31 then scan_width f w else None
      else Some (width, c # f))"

fun next_char :: "ee_u8 list \<Rightarrow> (ee_u8 \<times> ee_u8 list) option" where
  "next_char [] = None"
| "next_char (c # f) = Some (c, f)"

text \<open>The \<open>switch\<close> on the conversion character.\<close>

definition ee_convert :: "(nat \<Rightarrow> nat) \<Rightarrow> ee_u8 \<Rightarrow> bool \<Rightarrow> nat \<Rightarrow> arg list \<Rightarrow> uart \<Rightarrow> (arg list \<times> uart) option" where
  "ee_convert busy c lng width args u =
     (if c = 37 then map_option (Pair args) (ee_putc busy 37 u)
      else if c = 99 then do { (v, args) \<leftarrow> int_arg args; map_option (Pair args) (ee_putc busy (ucast v) u) }
      else if c = 115 then do { (s, args) \<leftarrow> str_arg args; map_option (Pair args) (ee_puts busy s u) }
      else if c = 100 \<or> c = 105 then do { (v, args) \<leftarrow> int_arg args; map_option (Pair args) (ee_print_int busy v u) }
      else if c = 117 then do { (v, args) \<leftarrow> int_arg args; map_option (Pair args) (ee_print_uint busy v u) }
      else if c = 120 \<or> c = 88 then do { (v, args) \<leftarrow> int_arg args; map_option (Pair args) (ee_print_hex busy v width u) }
      else do {
        u \<leftarrow> ee_putc busy 37 u;
        u \<leftarrow> (if lng then ee_putc busy 108 u else Some u);
        map_option (Pair args) (ee_putc busy c u) })"

lemma scan_width_shorter: "scan_width f w = Some (w', f') \<Longrightarrow> length f' \<le> length f"
  by (induction f w rule: scan_width.induct) (auto simp: Let_def split: if_splits)

lemma next_char_shorter: "next_char f = Some (c, f') \<Longrightarrow> length f = Suc (length f')"
  by (cases f) auto

function ee_printf_from :: "(nat \<Rightarrow> nat) \<Rightarrow> ee_u8 list \<Rightarrow> arg list \<Rightarrow> nat \<Rightarrow> uart \<Rightarrow> (nat \<times> uart) option" where
  "ee_printf_from busy fmt args n u = do {
     (c, f) \<leftarrow> next_char fmt;
     if c = 0 then Some (n, u)
     else if c \<noteq> 37 then do {
       u \<leftarrow> ee_putc busy c u;
       ee_printf_from busy f args (n + 1) u }
     else do {
       (width, f) \<leftarrow> scan_width f 0;
       (c, f') \<leftarrow> next_char f;
       let lng = (c = 108);
       (c, f) \<leftarrow> (if lng then next_char f' else Some (c, f'));
       (args, u) \<leftarrow> ee_convert busy c lng width args u;
       ee_printf_from busy f args (n + 1) u } }"
  by pat_completeness auto
termination
  by (relation "measure (\<lambda>(busy, fmt, args, n, u). length fmt)")
    (auto dest!: scan_width_shorter next_char_shorter split: if_splits)

declare ee_printf_from.simps [simp del]

definition ee_printf :: "(nat \<Rightarrow> nat) \<Rightarrow> ee_u8 list \<Rightarrow> arg list \<Rightarrow> uart \<Rightarrow> (nat \<times> uart) option" where
  "ee_printf busy fmt args u = ee_printf_from busy fmt args 0 u"

section \<open>What it sends\<close>

text \<open>A newline is sent as carriage return and newline.\<close>

definition crlf :: "ee_u8 \<Rightarrow> ee_u8 list" where
  "crlf c = (if c = 10 then [13, 10] else [c])"

lemma put_raw_sends: "sends u [c] (put_raw busy c u)"
  by (simp add: put_raw_def wait_free_eq uart_write_def sends_def)

interpretation portme: console "ee_putc busy" crlf for busy
proof
  fix u c
  show "sends u (crlf c) (ee_putc busy c u)"
  proof (cases "c = 10")
    case True
    have "sends u ([13] @ [10]) (Option.bind (put_raw busy 13 u) (put_raw busy 10))"
      by (intro sends_bind put_raw_sends)
    with True show ?thesis by (simp add: ee_putc_def crlf_def)
  qed (simp add: ee_putc_def crlf_def put_raw_sends)
qed

abbreviation dec_digit :: "nat \<Rightarrow> ee_u8" where
  "dec_digit d \<equiv> 48 + of_nat d"

abbreviation hex_digit :: "nat \<Rightarrow> ee_u8" where
  "hex_digit d \<equiv> bytes ''0123456789abcdef'' ! d"

definition dec_text :: "nat \<Rightarrow> ee_u8 list" where
  "dec_text v = numeral_text dec_digit 10 v"

definition int_text :: "ee_s32 \<Rightarrow> ee_u8 list" where
  "int_text v = (if sint v < 0 then 45 # dec_text (unat (- v)) else dec_text (unat v))"

definition hex_text :: "nat \<Rightarrow> nat \<Rightarrow> ee_u8 list" where
  "hex_text width v = replicate (width - length (numeral_text hex_digit 16 v)) 48 @ numeral_text hex_digit 16 v"

lemma put_one: "sends u (concat (map crlf [c])) (ee_putc busy c u)"
  using portme.putc_sends by simp

lemma ee_puts_sends: "0 \<notin> set t \<Longrightarrow> sends u (concat (map crlf t)) (ee_puts busy (t @ 0 # rest) u)"
  unfolding ee_puts_def by (rule portme.put_string_sends)

lemma ee_print_uint_sends: "sends u (concat (map crlf (dec_text (unat v)))) (ee_print_uint busy v u)"
proof (cases "v = 0")
  case True
  then show ?thesis using put_one[of u 48] by (simp add: ee_print_uint_def dec_text_def numeral_text_def)
next
  case False
  have "length (digits (unat (10 :: ee_u32)) (unat v)) \<le> 20"
    using decimal_length[of v] by simp
  with portme.number_sends[where digit = dec_char and char = dec_digit and base = 10 and n = 20 and v = v
      and busy = busy and u = u] False show ?thesis
    by (simp add: ee_print_uint_def dec_text_def dec_char_spec)
qed

lemma ee_print_int_sends: "sends u (concat (map crlf (int_text v))) (ee_print_int busy v u)"
proof (cases "sint v < 0")
  case True
  have "sends u (crlf 45 @ concat (map crlf (dec_text (unat (- v)))))
     (Option.bind (ee_putc busy 45 u) (ee_print_uint busy (- v)))"
    by (intro sends_bind portme.putc_sends ee_print_uint_sends)
  with True show ?thesis by (simp add: ee_print_int_def int_text_def)
next
  case False
  then show ?thesis using ee_print_uint_sends by (simp add: ee_print_int_def int_text_def)
qed

lemma hex_body_eq: "hex_body (b, i, v) = do { c \<leftarrow> hex_char (v mod 16); b \<leftarrow> bput b i c; Some (b, i + 1, v div 16) }"
proof -
  have "v AND 0xF = v mod 16"
    using take_bit_eq_mask[of 4 v] take_bit_eq_mod[of 4 v] by (simp add: mask_eq_exp_minus_1 take_bit_word_eq_self)
  moreover have "drop_bit 4 v = v div 16" by (simp add: drop_bit_eq_div)
  ultimately show ?thesis by (simp add: hex_body_def)
qed

lemma hex_loop_eq: "while_loop (\<lambda>(b, i, v). Some (v \<noteq> 0)) hex_body = digit_loop hex_char 16"
proof -
  have "hex_body = (\<lambda>(b, i, v). do { c \<leftarrow> hex_char (v mod 16); b \<leftarrow> bput b i c; Some (b, i + 1, v div 16) })"
    by (rule ext) (auto simp: hex_body_eq)
  then show ?thesis by (simp only: digit_loop_def)
qed

text \<open>The first turn of the \<open>do\<close> loop makes no difference but for zero.\<close>

lemma hex_digits:
  assumes "8 \<le> length b"
  shows "\<exists>b'. do { s \<leftarrow> hex_body (b, 0, v); while_loop (\<lambda>(b, i, v). Some (v \<noteq> 0)) hex_body s } =
       Some (b', length (numeral_text hex_digit 16 (unat v)), 0) \<and> length b' = length b \<and>
     (\<forall>k < length (numeral_text hex_digit 16 (unat v)). b' ! k = Some (rev (numeral_text hex_digit 16 (unat v)) ! k))"
proof (cases "v = 0")
  case True
  have "hex_char 0 = Some (hex_digit 0)" using hex_char_spec[of 0] by simp
  moreover have "0 < length b" using assms by linarith
  ultimately show ?thesis using True
    by (auto simp: hex_body_eq bput_def numeral_text_def while_loop.simps)
next
  case False
  then have nz: "unat v \<noteq> 0" by (simp add: unat_eq_zero)
  have "do { s \<leftarrow> hex_body (b, 0, v); while_loop (\<lambda>(b, i, v). Some (v \<noteq> 0)) hex_body s } =
      while_loop (\<lambda>(b, i, v). Some (v \<noteq> 0)) hex_body (b, 0, v)"
    using False by (subst (2) while_loop.simps) simp
  also have "\<dots> = digit_loop hex_char 16 (b, 0, v)" by (simp only: hex_loop_eq)
  finally have eq: "do { s \<leftarrow> hex_body (b, 0, v); while_loop (\<lambda>(b, i, v). Some (v \<noteq> 0)) hex_body s } =
      digit_loop hex_char 16 (b, 0, v)" .
  have "0 + length (digits (unat (16 :: ee_u32)) (unat v)) \<le> length b"
    using hex_length[of v] assms by simp
  with digit_loop_spec[where digit = hex_char and char = hex_digit and base = 16 and i = 0 and b = b and v = v] nz
  show ?thesis unfolding eq by (auto simp: numeral_text_def rev_map hex_char_spec)
qed

lemma pad_zeros_spec:
  assumes "width \<le> length b" "i \<le> length b"
  shows "\<exists>b'. pad_zeros width (b, i) = Some (b', max i width) \<and> length b' = length b \<and>
     (\<forall>k < i. b' ! k = b ! k) \<and> (\<forall>k. i \<le> k \<and> k < width \<longrightarrow> b' ! k = Some 48)"
  using assms
proof (induction "width - i" arbitrary: b i)
  case 0
  then show ?case by (auto simp: pad_zeros_def while_loop.simps max_absorb1)
next
  case (Suc n)
  let ?b = "b[i := Some 48]"
  have less: "i < width" "i < length b" using Suc by auto
  have "n = width - Suc i" "Suc i \<le> length ?b" "width \<le> length ?b" using Suc less by auto
  from Suc.hyps(1)[OF this(1) this(3,2)] obtain b' where b': "pad_zeros width (?b, Suc i) = Some (b', max (Suc i) width)"
    "length b' = length b" "\<forall>k < Suc i. b' ! k = ?b ! k" "\<forall>k. Suc i \<le> k \<and> k < width \<longrightarrow> b' ! k = Some 48" by auto
  have "pad_zeros width (b, i) = pad_zeros width (?b, Suc i)"
    unfolding pad_zeros_def using less by (subst while_loop.simps) (simp add: bput_def)
  moreover have "b' ! k = Some 48" if "i \<le> k" "k < width" for k
    using b'(3,4) that less by (cases "k = i") auto
  ultimately show ?case using b' less by (intro exI[of _ b']) auto
qed

lemma ee_print_hex_sends:
  assumes "width \<le> 16"
  shows "sends u (concat (map crlf (hex_text width (unat v)))) (ee_print_hex busy v width u)"
proof -
  let ?t = "numeral_text hex_digit 16 (unat v)"
  obtain b where b: "do { s \<leftarrow> hex_body (replicate 16 None, 0, v); while_loop (\<lambda>(b, i, v). Some (v \<noteq> 0)) hex_body s } =
       Some (b, length ?t, 0)" "length b = 16" "\<forall>k < length ?t. b ! k = Some (rev ?t ! k)"
    using hex_digits[of "replicate 16 None" v] by auto
  have len: "length ?t \<le> 8" using hex_length[of v] by (simp add: numeral_text_def)
  obtain b' where b': "pad_zeros width (b, length ?t) = Some (b', max (length ?t) width)" "length b' = 16"
     "\<forall>k < length ?t. b' ! k = b ! k" "\<forall>k. length ?t \<le> k \<and> k < width \<longrightarrow> b' ! k = Some 48"
    using pad_zeros_spec[of width b "length ?t"] assms b(2) len by auto
  let ?n = "max (length ?t) width" and ?w = "hex_text width (unat v)"
  have w: "length ?w = ?n" by (simp add: hex_text_def)
  have cell: "b' ! k = Some (rev ?w ! k)" if "k < ?n" for k
    using that b(3) b'(3,4) by (auto simp: hex_text_def nth_append not_less)
  have "sends u (concat (map (\<lambda>k. crlf (rev ?w ! k)) (rev [0..<?n]))) (put_back (ee_putc busy) b' ?n u)"
    using b'(2) len assms cell by (intro portme.put_back_sends) auto
  moreover have "map (\<lambda>k. crlf (rev ?w ! k)) (rev [0..<?n]) = map crlf ?w"
    using map_upt_nth[of crlf "rev ?w"] by (simp add: w rev_map[symmetric])
  ultimately have "sends u (concat (map crlf ?w)) (put_back (ee_putc busy) b' ?n u)" by simp
  moreover have "ee_print_hex busy v width u = put_back (ee_putc busy) b' ?n u"
    unfolding ee_print_hex_def using b(1) b'(1) by (cases "hex_body (replicate 16 None, 0, v)") auto
  ultimately show ?thesis by simp
qed

section \<open>Formats\<close>

text \<open>The formats the interpreter is made for: literal characters, and conversions with an optional leading
  zero, a width (0 for none), an optional \<open>l\<close> and one of its conversion characters.\<close>

datatype directive = Lit ee_u8 | Conv bool nat bool ee_u8

definition width_text :: "bool \<Rightarrow> nat \<Rightarrow> ee_u8 list" where
  "width_text z w = (if z then [48] else []) @ map dec_digit (rev (digits 10 w))"

fun directive_text :: "directive \<Rightarrow> ee_u8 list" where
  "directive_text (Lit c) = [c]"
| "directive_text (Conv z w lng c) = [37] @ width_text z w @ (if lng then [108] else []) @ [c]"

fun directive_ok :: "directive \<Rightarrow> bool" where
  "directive_ok (Lit c) \<longleftrightarrow> c \<noteq> 0 \<and> c \<noteq> 37"
| "directive_ok (Conv z w lng c) \<longleftrightarrow> w \<le> 16 \<and> c \<in> {37, 99, 100, 105, 115, 117, 88, 120}"

text \<open>The text a directive stands for, with the arguments left.\<close>

fun render :: "directive \<Rightarrow> arg list \<Rightarrow> (ee_u8 list \<times> arg list) option" where
  "render (Lit c) args = Some ([c], args)"
| "render (Conv z w lng c) args =
     (if c = 37 then Some ([37], args)
      else if c = 115 then (case args of StrArg s # args \<Rightarrow>
        if 0 \<in> set s then Some (takeWhile (\<lambda>c. c \<noteq> 0) s, args) else None | _ \<Rightarrow> None)
      else (case args of IntArg v # args \<Rightarrow> Some
        (if c = 99 then [ucast v] else if c = 117 then dec_text (unat v)
         else if c = 120 \<or> c = 88 then hex_text w (unat v) else int_text v, args) | _ \<Rightarrow> None))"

text \<open>The text of a list of directives, for any way to render one.\<close>

fun render_all :: "(directive \<Rightarrow> arg list \<Rightarrow> (ee_u8 list \<times> arg list) option) \<Rightarrow> directive list \<Rightarrow> arg list
    \<Rightarrow> ee_u8 list option" where
  "render_all rd [] args = Some []"
| "render_all rd (d # ds) args = do {
     (t, args) \<leftarrow> rd d args;
     ts \<leftarrow> render_all rd ds args;
     Some (t @ ts) }"

lemma dec_digit_range: "d < 10 \<Longrightarrow> 48 \<le> dec_digit d \<and> dec_digit d \<le> 57 \<and> unat (dec_digit d - 48) = d"
proof -
  assume "d < 10"
  then have "d \<in> {0, 1, 2, 3, 4, 5, 6, 7, 8, 9}" by auto
  then show ?thesis by auto
qed

lemma scan_width_digits:
  assumes "\<And>d. d \<in> set ds \<Longrightarrow> d < 10" "\<not> (48 \<le> c \<and> c \<le> 57)"
    and "\<And>n. n \<le> length ds \<Longrightarrow> foldl (\<lambda>w d. w * 10 + d) w (take n ds) < 2 ^ 31"
  shows "scan_width (map dec_digit ds @ c # f) w = Some (foldl (\<lambda>w d. w * 10 + d) w ds, c # f)"
  using assms(1,3)
proof (induction ds arbitrary: w)
  case Nil
  then show ?case using assms(2) by auto
next
  case (Cons d ds)
  have d: "d < 10" "w * 10 + d < 2 ^ 31" using Cons.prems(1)[of d] Cons.prems(2)[of 1] by simp_all
  have "foldl (\<lambda>w d. w * 10 + d) (w * 10 + d) (take n ds) < 2 ^ 31" if "n \<le> length ds" for n
    using Cons.prems(2)[of "Suc n"] that by simp
  then have "scan_width (map dec_digit ds @ c # f) (w * 10 + d) = Some (foldl (\<lambda>w d. w * 10 + d) (w * 10 + d) ds, c # f)"
    using Cons.prems(1) by (intro Cons.IH) simp_all
  then show ?case using dec_digit_range[OF d(1)] d(2) by (simp add: Let_def)
qed

lemma foldl_digits: "foldl (\<lambda>w d. w * 10 + d) 0 (rev (digits 10 v)) = v"
  using digits_value[of 10 v] by (simp add: foldl_conv_foldr algebra_simps)

lemma foldl_digits_bound: "foldl (\<lambda>w d. w * 10 + d) 0 (take n xs) \<le> foldl (\<lambda>w d. w * 10 + (d :: nat)) 0 xs"
proof -
  have mono: "w \<le> foldl (\<lambda>w d. w * 10 + d) w ys" for w :: nat and ys
  proof (induction ys arbitrary: w)
    case (Cons y ys)
    have "w \<le> w * 10 + y" by simp
    also have "\<dots> \<le> foldl (\<lambda>w d. w * 10 + d) (w * 10 + y) ys" by (rule Cons.IH)
    finally show ?case by simp
  qed simp
  have "foldl (\<lambda>w d. w * 10 + d) 0 xs = foldl (\<lambda>w d. w * 10 + d) (foldl (\<lambda>w d. w * 10 + d) 0 (take n xs)) (drop n xs)"
    by (metis append_take_drop_id foldl_append)
  with mono show ?thesis by simp
qed

lemma scan_width_text:
  assumes "w < 2 ^ 31" "\<not> (48 \<le> c \<and> c \<le> 57)"
  shows "scan_width (width_text z w @ c # f) 0 = Some (w, c # f)"
proof -
  have "foldl (\<lambda>w d. w * 10 + d) 0 (take n (rev (digits 10 w))) < 2 ^ 31" for n
    using foldl_digits_bound[of n "rev (digits 10 w)"] foldl_digits[of w] assms(1) by simp
  then show ?thesis
    using scan_width_digits[of "rev (digits 10 w)" c 0 f] digits_less[of 10] assms(2)
    by (auto simp: width_text_def foldl_digits Let_def)
qed

lemma render_sends:
  assumes "render (Conv z w lng c) args = Some (t, args')" "directive_ok (Conv z w lng c)"
  shows "\<exists>r. ee_convert busy c lng w args u = map_option (Pair args') r \<and> sends u (concat (map crlf t)) r"
proof -
  have str: "sends u (concat (map crlf (takeWhile (\<lambda>c. c \<noteq> 0) s))) (ee_puts busy s u)" if "0 \<in> set s" for s
  proof -
    note in0 = that
    obtain x rest where "dropWhile (\<lambda>c. c \<noteq> 0) s = x # rest"
      using in0 by (cases "dropWhile (\<lambda>c. c \<noteq> 0) s") (auto simp: dropWhile_eq_Nil_conv)
    moreover from hd_dropWhile[of "\<lambda>c. c \<noteq> 0" s] this have "x = 0" by simp
    ultimately have "s = takeWhile (\<lambda>c. c \<noteq> 0) s @ 0 # rest" by (metis takeWhile_dropWhile_id)
    moreover have "0 \<notin> set (takeWhile (\<lambda>c. c \<noteq> 0) s)" using set_takeWhileD by fastforce
    ultimately show ?thesis using ee_puts_sends by metis
  qed
  have w: "w \<le> 16" and "c \<in> {37, 99, 100, 105, 115, 117, 88, 120}" using assms(2) by auto
  then consider "c = 37" | "c = 115" | "c = 99" | "c = 117" | "c = 120 \<or> c = 88" | "c = 100 \<or> c = 105" by auto
  then show ?thesis
  proof cases
    case 1
    with assms(1) put_one[of u 37] show ?thesis by (auto simp: ee_convert_def)
  next
    case 2
    with assms(1) str show ?thesis by (auto simp: ee_convert_def split: list.splits arg.splits if_splits)
  next
    case 3
    with assms(1) put_one[of u] show ?thesis by (auto simp: ee_convert_def split: list.splits arg.splits)
  next
    case 4
    with assms(1) show ?thesis by (auto simp: ee_convert_def ee_print_uint_sends split: list.splits arg.splits)
  next
    case 5
    with assms(1) w show ?thesis
      by (auto simp: ee_convert_def split: list.splits arg.splits) (blast intro: ee_print_hex_sends)+
  next
    case 6
    with assms(1) show ?thesis
      by (auto simp: ee_convert_def split: list.splits arg.splits) (blast intro: ee_print_int_sends)+
  qed
qed

lemma printf_from_renders:
  assumes "\<forall>d \<in> set ds. directive_ok d" "render_all render ds args = Some t"
  shows "\<exists>u'. ee_printf_from busy (concat (map directive_text ds) @ 0 # rest) args n u = Some (n + length ds, u') \<and>
     sent u' = sent u @ concat (map crlf t)"
  using assms
proof (induction ds arbitrary: args t n u)
  case Nil
  then show ?case by (subst ee_printf_from.simps) simp
next
  case (Cons d ds)
  let ?f = "concat (map directive_text ds) @ 0 # rest"
  obtain t1 args1 t2 where t: "render d args = Some (t1, args1)" "render_all render ds args1 = Some t2" "t = t1 @ t2"
    using Cons.prems(2) by (auto split: bind_splits)
  have step: "\<exists>u1. ee_printf_from busy (directive_text d @ ?f) args n u = ee_printf_from busy ?f args1 (n + 1) u1 \<and>
      sent u1 = sent u @ concat (map crlf t1)"
  proof (cases d)
    case (Lit c)
    then obtain u1 where "ee_putc busy c u = Some u1" "sent u1 = sent u @ concat (map crlf t1)"
      using put_one[of u c busy] t(1) by (auto simp: sends_def)
    moreover have "c \<noteq> 0" "c \<noteq> 37" "args1 = args" using Cons.prems(1) t(1) Lit by auto
    ultimately show ?thesis using Lit by (subst ee_printf_from.simps) auto
  next
    case (Conv z w lng c)
    then have ok: "directive_ok (Conv z w lng c)" using Cons.prems(1) by simp
    obtain r u1 where r: "ee_convert busy c lng w args u = map_option (Pair args1) r" "r = Some u1"
       "sent u1 = sent u @ concat (map crlf t1)"
      using render_sends[of z w lng c args t1 args1 busy u] t(1) ok Conv by (auto simp: sends_def)
    have c: "\<not> (48 \<le> c \<and> c \<le> 57)" "c \<noteq> 108" and w: "w < 2 ^ 31" using ok by auto
    have l: "\<not> (48 \<le> (108 :: ee_u8) \<and> (108 :: ee_u8) \<le> 57)" by simp
    show ?thesis
    proof (cases lng)
      case True
      then show ?thesis using r c scan_width_text[OF w l, of z "c # ?f"] Conv
        by (subst ee_printf_from.simps) auto
    next
      case False
      then show ?thesis using r c scan_width_text[OF w c(1), of z ?f] Conv
        by (subst ee_printf_from.simps) auto
    qed
  qed
  then obtain u1 where u1: "ee_printf_from busy (directive_text d @ ?f) args n u = ee_printf_from busy ?f args1 (n + 1) u1"
      "sent u1 = sent u @ concat (map crlf t1)" by blast
  with Cons.IH[of args1 t2 "n + 1" u1] Cons.prems(1) t(2,3) show ?case by auto
qed

lemma dec_text_denotes:
  "dec_text n \<noteq> []" "c \<in> set (dec_text n) \<Longrightarrow> 48 \<le> c \<and> c \<le> 57"
  "foldl (\<lambda>w c. w * 10 + unat (c - 48)) 0 (dec_text n) = n" "hd (dec_text n) = 48 \<longleftrightarrow> n = 0"
proof -
  let ?t = "dec_text n"
  have small: "d < 10" if "d \<in> set (digits 10 n)" for d using digits_less[OF _ that] by simp
  then show range: "48 \<le> c \<and> c \<le> 57" if "c \<in> set ?t" for c
    using that dec_digit_range by (auto simp: dec_text_def numeral_text_def split: if_splits)
  have "foldl (\<lambda>w c. w * 10 + unat (c - 48)) 0 (map dec_digit ds) = foldl (\<lambda>w d. w * 10 + d) 0 ds"
    if "\<And>d. d \<in> set ds \<Longrightarrow> d < 10" for ds
    using that dec_digit_range by (induction ds rule: rev_induct) simp_all
  from this[of "rev (digits 10 n)"] small foldl_digits[of n]
  show "foldl (\<lambda>w c. w * 10 + unat (c - 48)) 0 ?t = n"
    by (simp add: dec_text_def numeral_text_def)
  show "?t \<noteq> []" using foldl_digits[of n] by (auto simp: dec_text_def numeral_text_def)
  show "hd ?t = 48 \<longleftrightarrow> n = 0"
  proof
    assume h: "hd ?t = 48"
    show "n = 0"
    proof (rule ccontr)
      assume nz: "n \<noteq> 0"
      have top: "w \<noteq> 0 \<Longrightarrow> digits 10 w \<noteq> [] \<and> last (digits 10 w) \<noteq> 0" for w
      proof (induction w rule: less_induct)
        case (less w)
        then show ?case using less.IH[of "w div 10"] by (cases "w div 10 = 0") (auto simp: digits_step)
      qed
      have "hd ?t = dec_digit (last (digits 10 n))"
        using top[OF nz] nz by (simp add: dec_text_def numeral_text_def hd_map hd_rev)
      moreover have "last (digits 10 n) < 10" using top[OF nz] small by simp
      ultimately have "last (digits 10 n) = 0"
        using dec_digit_range[of "last (digits 10 n)"] h by simp
      with top[OF nz] show False by simp
    qed
  qed (simp add: dec_text_def numeral_text_def)
qed

section \<open>Properties\<close>



text \<open>The decimal output of an unsigned number is its decimal notation: the bytes sent are digits
  that denote the number, without a leading zero but for zero itself.\<close>

theorem print_uint_denotes:
  "\<exists>u' t. ee_print_uint busy v u = Some u' \<and> sent u' = sent u @ t \<and> t \<noteq> [] \<and>
     list_all (\<lambda>c. 48 \<le> c \<and> c \<le> 57) t \<and> foldl (\<lambda>w c. w * 10 + unat (c - 48)) 0 t = unat v \<and>
     (hd t = 48) = (v = 0)"
proof -
  have "concat (map crlf t) = t" if "\<forall>c \<in> set t. 48 \<le> c \<and> c \<le> 57" for t
    using that by (induction t) (auto simp: crlf_def)
  then have "concat (map crlf (dec_text (unat v))) = dec_text (unat v)" using dec_text_denotes(2) by blast
  with ee_print_uint_sends[of u v busy] dec_text_denotes[where n = "unat v"] show ?thesis
    by (auto simp: sends_def unat_eq_zero list_all_iff)
qed

text \<open>C30. The width of \<open>%d\<close> is read and then ignored: \<open>%03d\<close> prints a fraction without its leading
  zeros, so the format \<open>%d.%03d\<close> of the CoreMark/MHz line prints 3.005 as \<open>3.5\<close>.\<close>

theorem printf_ignores_int_width:
  "(\<exists>u'. ee_printf busy (bytes ''%d.%03d'' @ [0]) [IntArg a, IntArg b] u = Some (3, u') \<and>
     sent u' = sent u @ concat (map crlf (int_text a @ [46] @ int_text b))) \<and>
   int_text 3 @ [46] @ int_text 5 = bytes ''3.5''"
proof -
  let ?ds = "[Conv False 0 False 100, Lit 46, Conv True 3 False 100]"
  have dig: "digits 10 3 = [3]" "digits 10 5 = [5]" by (simp_all add: digits.simps)
  have "concat (map directive_text ?ds) @ [0] = bytes ''%d.%03d'' @ [0]"
    by (simp add: width_text_def dig bytes_def)
  moreover have "render_all render ?ds [IntArg a, IntArg b] = Some (int_text a @ [46] @ int_text b)" by simp
  moreover have "int_text 3 @ [46] @ int_text 5 = bytes ''3.5''"
    by (simp add: int_text_def dec_text_def numeral_text_def dig bytes_def)
  ultimately show ?thesis
    using printf_from_renders[of ?ds "[IntArg a, IntArg b]" _ busy "[]" 0 u] by (auto simp: ee_printf_def)
qed

text \<open>C31. The elapsed time is exact across a wrap of the 32-bit cycle counter, as long as less than
  \<open>2 ^ 32\<close> cycles pass.\<close>

theorem get_time_exact:
  assumes "t < 2 ^ 32"
  shows "unat (get_time (stop_time (m + of_nat t) (start_time m tm))) = t"
proof -
  have "get_time (stop_time (m + of_nat t) (start_time m tm)) = of_nat t"
    by (simp add: get_time_def stop_time_def start_time_def)
  then show ?thesis using assms by (simp only: unat_of_nat) simp
qed

lemma get_time_exact_witness:
  "unat (get_time (stop_time (0xfffffff0 + of_nat 0x20) (start_time 0xfffffff0 \<lparr>start_tick = 0, stop_tick = 0\<rparr>))) = 0x20"
  by (rule get_time_exact) simp

end
