(* ===== verification/Matrix_Bench.thy ===== *)
theory Matrix_Bench
  imports Crc Portme
begin

text \<open>
  The matrix benchmark of \<^verbatim>\<open>coremark/src/core_matrix.c\<close>.  \<open>MATDAT\<close> is \<open>ee_s16\<close> and \<open>MATRES\<close> is
  \<open>ee_s32\<close>.  The three matrices live in one memory block; they are three arrays here, and
  \<open>matrix_layout\<close> computes where the code puts them.  Signed arithmetic wraps, as on the target;
  \<open>matrix_mul_matrix_exact\<close> says where it does not.
\<close>

section \<open>The code\<close>

type_synonym MATDAT = ee_s16
type_synonym MATRES = ee_s32

record mat_params =
  mat_N :: ee_u32
  mat_A :: "MATDAT list"
  mat_B :: "MATDAT list"
  mat_C :: "MATRES list"

text \<open>The index \<open>i * N + j\<close> in \<open>ee_u32\<close> arithmetic.\<close>

definition ix :: "ee_u32 \<Rightarrow> nat \<Rightarrow> nat \<Rightarrow> nat" where
  "ix N i j = unat (of_nat i * N + of_nat j :: ee_u32)"

text \<open>\<open>for (i = 0; i < N; i++) for (j = 0; j < N; j++) body\<close>\<close>

definition for_ij :: "ee_u32 \<Rightarrow> (nat \<Rightarrow> nat \<Rightarrow> 's \<Rightarrow> 's option) \<Rightarrow> 's \<Rightarrow> 's option" where
  "for_ij N body = for_loop 0 (unat N) (\<lambda>i. for_loop 0 (unat N) (body i))"

text \<open>The macros.\<close>

definition matrix_clip :: "MATDAT \<Rightarrow> bool \<Rightarrow> MATDAT" where
  "matrix_clip x y = (if y then x AND 0x0ff else x AND 0x0ffff)"

definition matrix_big :: "MATDAT \<Rightarrow> MATDAT" where
  "matrix_big x = 0xf000 OR x"

definition bit_extract :: "MATRES \<Rightarrow> nat \<Rightarrow> nat \<Rightarrow> MATRES" where
  "bit_extract x from to = signed_drop_bit from x AND NOT (push_bit to 0xffffffff)"

definition matrix_add_const :: "ee_u32 \<Rightarrow> MATDAT list \<Rightarrow> MATDAT \<Rightarrow> MATDAT list option" where
  "matrix_add_const N A val = for_ij N (\<lambda>i j A. do {
     a \<leftarrow> aread A (ix N i j);
     awrite A (ix N i j) (a + val) }) A"

definition matrix_mul_const ::
    "ee_u32 \<Rightarrow> MATRES list \<Rightarrow> MATDAT list \<Rightarrow> MATDAT \<Rightarrow> MATRES list option" where
  "matrix_mul_const N C A val = for_ij N (\<lambda>i j C. do {
     a \<leftarrow> aread A (ix N i j);
     awrite C (ix N i j) (scast a * scast val) }) C"

definition matrix_mul_vect ::
    "ee_u32 \<Rightarrow> MATRES list \<Rightarrow> MATDAT list \<Rightarrow> MATDAT list \<Rightarrow> MATRES list option" where
  "matrix_mul_vect N C A B = for_loop 0 (unat N) (\<lambda>i C. do {
     C \<leftarrow> awrite C i 0;
     for_loop 0 (unat N) (\<lambda>j C. do {
       c \<leftarrow> aread C i;
       a \<leftarrow> aread A (ix N i j);
       b \<leftarrow> aread B j;
       awrite C i (c + scast a * scast b) }) C }) C"

definition matrix_mul_matrix ::
    "ee_u32 \<Rightarrow> MATRES list \<Rightarrow> MATDAT list \<Rightarrow> MATDAT list \<Rightarrow> MATRES list option" where
  "matrix_mul_matrix N C A B = for_ij N (\<lambda>i j C. do {
     C \<leftarrow> awrite C (ix N i j) 0;
     for_loop 0 (unat N) (\<lambda>k C. do {
       c \<leftarrow> aread C (ix N i j);
       a \<leftarrow> aread A (ix N i k);
       b \<leftarrow> aread B (ix N k j);
       awrite C (ix N i j) (c + scast a * scast b) }) C }) C"

definition matrix_mul_matrix_bitextract ::
    "ee_u32 \<Rightarrow> MATRES list \<Rightarrow> MATDAT list \<Rightarrow> MATDAT list \<Rightarrow> MATRES list option" where
  "matrix_mul_matrix_bitextract N C A B = for_ij N (\<lambda>i j C. do {
     C \<leftarrow> awrite C (ix N i j) 0;
     for_loop 0 (unat N) (\<lambda>k C. do {
       c \<leftarrow> aread C (ix N i j);
       a \<leftarrow> aread A (ix N i k);
       b \<leftarrow> aread B (ix N k j);
       let tmp = scast a * scast b;
       awrite C (ix N i j) (c + bit_extract tmp 2 4 * bit_extract tmp 5 7) }) C }) C"

text \<open>The state of the loop of \<open>matrix_sum\<close> is \<open>(tmp, prev, ret)\<close>; \<open>cur\<close> is assigned before its
  uses in every turn.\<close>

definition matrix_sum_step :: "MATDAT \<Rightarrow> MATRES \<Rightarrow> MATRES \<times> MATRES \<times> ee_s16 \<Rightarrow> MATRES \<times> MATRES \<times> ee_s16" where
  "matrix_sum_step clipval cur = (\<lambda>(tmp, prev, ret).
     let tmp = tmp + cur in
     if sint tmp > sint clipval then (0, cur, ret + 10)
     else (tmp, cur, ret + (if sint cur > sint prev then 1 else 0)))"

definition matrix_sum :: "ee_u32 \<Rightarrow> MATRES list \<Rightarrow> MATDAT \<Rightarrow> ee_s16 option" where
  "matrix_sum N C clipval = map_option (\<lambda>(tmp, prev, ret). ret)
     (for_ij N (\<lambda>i j s. map_option (\<lambda>cur. matrix_sum_step clipval cur s) (aread C (ix N i j)))
        (0, 0, 0))"

text \<open>\<open>matrix_test\<close> returns its CRC and the matrices \<open>A\<close> and \<open>C\<close> it wrote.\<close>

definition matrix_test ::
    "ee_u32 \<Rightarrow> MATRES list \<Rightarrow> MATDAT list \<Rightarrow> MATDAT list \<Rightarrow> MATDAT
      \<Rightarrow> (ee_s16 \<times> MATRES list \<times> MATDAT list) option" where
  "matrix_test N C A B val = do {
     let crc = 0;
     let clipval = matrix_big val;
     A \<leftarrow> matrix_add_const N A val;
     C \<leftarrow> matrix_mul_const N C A val;
     s \<leftarrow> matrix_sum N C clipval;
     let crc = crc16 s crc;
     C \<leftarrow> matrix_mul_vect N C A B;
     s \<leftarrow> matrix_sum N C clipval;
     let crc = crc16 s crc;
     C \<leftarrow> matrix_mul_matrix N C A B;
     s \<leftarrow> matrix_sum N C clipval;
     let crc = crc16 s crc;
     C \<leftarrow> matrix_mul_matrix_bitextract N C A B;
     s \<leftarrow> matrix_sum N C clipval;
     let crc = crc16 s crc;
     A \<leftarrow> matrix_add_const N A (- val);
     Some (crc, C, A) }"

definition core_bench_matrix :: "mat_params \<Rightarrow> ee_s16 \<Rightarrow> ee_u16 \<Rightarrow> (ee_u16 \<times> mat_params) option" where
  "core_bench_matrix p seed crc = do {
     (t, C, A) \<leftarrow> matrix_test (mat_N p) (mat_C p) (mat_A p) (mat_B p) seed;
     Some (crc16 t crc, p\<lparr>mat_A := A, mat_C := C\<rparr>) }"

text \<open>The search for the dimension: state \<open>(i, j)\<close>, both \<open>ee_u32\<close>.\<close>

definition matrix_dim :: "ee_u32 \<Rightarrow> ee_u32 option" where
  "matrix_dim blksize = map_option (\<lambda>(i, j). i - 1)
     (while_loop (\<lambda>(i, j). Some (j < blksize))
        (\<lambda>(i :: ee_u32, j). let i = i + 1 in Some (i, i * i * 2 * 4)) (0, 0))"

text \<open>The addresses of \<open>A\<close>, \<open>B\<close> and \<open>C\<close>; a \<open>MATDAT\<close> has two bytes.\<close>

definition matrix_layout :: "ee_u32 \<Rightarrow> ee_u32 \<Rightarrow> ee_u32 \<times> ee_u32 \<times> ee_u32" where
  "matrix_layout N memblk = (let A = align_mem memblk; B = A + 2 * (N * N) in
     (A, B, align_mem (B + 2 * (N * N))))"

text \<open>One turn of the filling loop at the index \<open>i * N + j\<close>: state \<open>(A, B, seed, order)\<close>.\<close>

definition init_cell :: "nat \<Rightarrow> MATDAT list \<times> MATDAT list \<times> ee_s32 \<times> ee_s32
    \<Rightarrow> (MATDAT list \<times> MATDAT list \<times> ee_s32 \<times> ee_s32) option" where
  "init_cell ij = (\<lambda>(A, B, seed, order). do {
     let seed = word_of_int (c_rem (sint (order * seed)) 65536);
     let val = ucast (seed + order);
     let val = matrix_clip val False;
     B \<leftarrow> awrite B ij val;
     let val = ucast (scast val + order);
     let val = matrix_clip val True;
     A \<leftarrow> awrite A ij val;
     Some (A, B, seed, order + 1) })"

text \<open>\<open>A\<close>, \<open>B\<close> and \<open>C\<close> are the arrays that lie at \<open>matrix_layout N memblk\<close> before the call.\<close>

definition core_init_matrix ::
    "ee_u32 \<Rightarrow> MATDAT list \<Rightarrow> MATDAT list \<Rightarrow> MATRES list \<Rightarrow> ee_s32 \<Rightarrow> (ee_u32 \<times> mat_params) option" where
  "core_init_matrix blksize A B C seed = do {
     let seed = (if seed = 0 then 1 else seed);
     N \<leftarrow> matrix_dim blksize;
     (A, B, _) \<leftarrow> for_ij N (\<lambda>i j. init_cell (ix N i j)) (A, B, seed, 1);
     Some (N, \<lparr>mat_N = N, mat_A = A, mat_B = B, mat_C = C\<rparr>) }"

section \<open>Indices\<close>

text \<open>The dimension the index arithmetic can carry: \<open>N * N\<close> does not wrap.\<close>

definition dim_ok :: "ee_u32 \<Rightarrow> bool" where
  "dim_ok N \<longleftrightarrow> unat N * unat N < 2 ^ 32"

lemma cell_less: "i < n \<Longrightarrow> j < n \<Longrightarrow> i * n + j < n * (n :: nat)"
proof -
  assume "i < n" "j < n"
  then have "i * n + j < Suc i * n" by simp
  also have "\<dots> \<le> n * n" using \<open>i < n\<close> by (intro mult_le_mono1) simp
  finally show ?thesis .
qed

lemma cell_in: "i < n \<Longrightarrow> j < n \<Longrightarrow> n * n \<le> l \<Longrightarrow> i * n + j < (l :: nat)"
  using cell_less by (rule less_le_trans)

lemma ix_eq:
  assumes "dim_ok N" and "i < unat N" and "j < unat N"
  shows "ix N i j = i * unat N + j"
proof -
  have "ix N i j = unat (of_nat (i * unat N + j) :: ee_u32)" by (simp add: ix_def)
  also have "\<dots> = i * unat N + j"
    using cell_less[OF assms(2,3)] assms(1) by (simp only: unat_of_nat dim_ok_def) simp
  finally show ?thesis .
qed

lemma for_ij_flat:
  assumes "\<And>i j t. i < unat N \<Longrightarrow> j < unat N \<Longrightarrow> body i j t = f (i * unat N + j) t"
  shows "for_ij N body s = for_loop 0 (unat N * unat N) f s"
proof -
  have row: "for_loop 0 (unat N) (body i) t = for_loop 0 (unat N) (\<lambda>j. f (i * unat N + j)) t"
    if "i < unat N" for i t
    using that assms by (intro for_loop_cong) auto
  have "for_ij N body s = for_loop 0 (unat N) (\<lambda>i. for_loop 0 (unat N) (\<lambda>j. f (i * unat N + j))) s"
    unfolding for_ij_def by (rule for_loop_cong) (simp add: row)
  then show ?thesis by (simp add: for_loop_nested)
qed

text \<open>A nest of loops that overwrites each cell by a function of its position and old value.\<close>

lemma for_ij_map:
  assumes "unat N * unat N \<le> length t0"
    and "\<And>i j t. i < unat N \<Longrightarrow> j < unat N \<Longrightarrow> length t = length t0 \<Longrightarrow>
           body i j t = Some (t[i * unat N + j := g (i * unat N + j) (t ! (i * unat N + j))])"
  shows "for_ij N body t0 =
     Some (map (\<lambda>k. g k (t0 ! k)) [0..<unat N * unat N] @ drop (unat N * unat N) t0)"
proof -
  let ?n = "unat N"
  let ?f = "\<lambda>k t. if length t = length t0 then Some (t[k := g k (t ! k)]) else body (k div ?n) (k mod ?n) t"
  have "for_ij N body t0 = for_loop 0 (?n * ?n) ?f t0"
    by (rule for_ij_flat) (simp add: assms(2))
  also have "\<dots> = Some (map (\<lambda>k. g k (t0 ! k)) [0..<?n * ?n] @ drop (?n * ?n) t0)"
    by (rule for_loop_map) (use assms(1) in auto)
  finally show ?thesis .
qed

section \<open>What each operation computes\<close>

text \<open>Rows, columns and products of the row-major arrays, in \<open>MATRES\<close> arithmetic.\<close>

definition prod_cell :: "nat \<Rightarrow> MATDAT list \<Rightarrow> MATDAT list \<Rightarrow> nat \<Rightarrow> nat \<Rightarrow> MATRES" where
  "prod_cell n A B i j = (\<Sum>k<n. scast (A ! (i * n + k)) * scast (B ! (k * n + j)))"

definition bits_cell :: "nat \<Rightarrow> MATDAT list \<Rightarrow> MATDAT list \<Rightarrow> nat \<Rightarrow> nat \<Rightarrow> MATRES" where
  "bits_cell n A B i j = (\<Sum>k<n. let t = scast (A ! (i * n + k)) * scast (B ! (k * n + j))
     in bit_extract t 2 4 * bit_extract t 5 7)"

definition vect_cell :: "nat \<Rightarrow> MATDAT list \<Rightarrow> MATDAT list \<Rightarrow> nat \<Rightarrow> MATRES" where
  "vect_cell n A B i = (\<Sum>j<n. scast (A ! (i * n + j)) * scast (B ! j))"

lemma matrix_add_const_spec:
  assumes "dim_ok N" "unat N * unat N \<le> length A"
  shows "matrix_add_const N A val =
     Some (map (\<lambda>k. A ! k + val) [0..<unat N * unat N] @ drop (unat N * unat N) A)"
  unfolding matrix_add_const_def
  by (rule for_ij_map) (use assms in \<open>simp_all add: ix_eq cell_in\<close>)

lemma matrix_mul_const_spec:
  assumes "dim_ok N" "unat N * unat N \<le> length A" "unat N * unat N \<le> length C"
  shows "matrix_mul_const N C A val =
     Some (map (\<lambda>k. scast (A ! k) * scast val) [0..<unat N * unat N] @ drop (unat N * unat N) C)"
  unfolding matrix_mul_const_def
  by (rule for_ij_map[where g = "\<lambda>k _. scast (A ! k) * scast val"])
    (use assms in \<open>simp_all add: ix_eq cell_in\<close>)

lemma matrix_mul_vect_spec:
  assumes "dim_ok N" "unat N * unat N \<le> length A" "unat N \<le> length B" "unat N \<le> length C"
  shows "matrix_mul_vect N C A B =
     Some (map (vect_cell (unat N) A B) [0..<unat N] @ drop (unat N) C)"
  unfolding matrix_mul_vect_def
proof (rule for_loop_map[where g = "\<lambda>i _. vect_cell (unat N) A B i"])
  fix i and C' :: "MATRES list" assume i: "i < unat N" and len: "length C' = length C"
  have "i * unat N + j < length A" if "j < unat N" for j
    using cell_less[OF i that] assms(2) by simp
  with i len assms have "for_loop 0 (unat N) (\<lambda>j C. do {
       c \<leftarrow> aread C i; a \<leftarrow> aread A (ix N i j); b \<leftarrow> aread B j;
       awrite C i (c + scast a * scast b) }) (C'[i := 0]) =
     Some (C'[i := 0, i := C'[i := 0] ! i + (\<Sum>j<unat N. scast (A ! (i * unat N + j)) * scast (B ! j))])"
    by (intro for_loop_accumulate) (auto simp: ix_eq)
  with i len assms(4) show "do { C \<leftarrow> awrite C' i 0;
      for_loop 0 (unat N) (\<lambda>j C. do { c \<leftarrow> aread C i; a \<leftarrow> aread A (ix N i j); b \<leftarrow> aread B j;
         awrite C i (c + scast a * scast b) }) C } = Some (C'[i := vect_cell (unat N) A B i])"
    by (simp add: vect_cell_def)
qed (use assms(4) in simp)

text \<open>The inner loop of both matrix products, for a function \<open>h\<close> of the product of two cells.\<close>

lemma product_row:
  fixes h :: "MATRES \<Rightarrow> MATRES"
  assumes "dim_ok N" "unat N * unat N \<le> length A" "unat N * unat N \<le> length B"
    and "unat N * unat N \<le> length C'" "i < unat N" "j < unat N"
  shows "do { C \<leftarrow> awrite C' (ix N i j) 0;
     for_loop 0 (unat N) (\<lambda>k C. do {
       c \<leftarrow> aread C (ix N i j); a \<leftarrow> aread A (ix N i k); b \<leftarrow> aread B (ix N k j);
       awrite C (ix N i j) (c + h (scast a * scast b)) }) C } =
   Some (C'[i * unat N + j := \<Sum>k<unat N. h (scast (A ! (i * unat N + k)) * scast (B ! (k * unat N + j)))])"
proof -
  let ?p = "i * unat N + j"
  let ?h = "\<lambda>k. h (scast (A ! (i * unat N + k)) * scast (B ! (k * unat N + j)))"
  have p: "?p < length C'" using cell_less[OF assms(5,6)] assms(4) by simp
  have "for_loop 0 (unat N) (\<lambda>k C. do {
       c \<leftarrow> aread C (ix N i j); a \<leftarrow> aread A (ix N i k); b \<leftarrow> aread B (ix N k j);
       awrite C (ix N i j) (c + h (scast a * scast b)) }) (C'[?p := 0]) =
     Some (C'[?p := 0, ?p := C'[?p := 0] ! ?p + (\<Sum>k<unat N. ?h k)])"
  proof (rule for_loop_accumulate)
    fix k and t :: "MATRES list" assume k: "k < unat N" and len: "length t = length (C'[?p := 0])"
    have "i * unat N + k < length A" "k * unat N + j < length B"
      using cell_less[OF assms(5) k] cell_less[OF k assms(6)] assms(2,3) by simp_all
    with k len p assms show "do { c \<leftarrow> aread t (ix N i j); a \<leftarrow> aread A (ix N i k); b \<leftarrow> aread B (ix N k j);
        awrite t (ix N i j) (c + h (scast a * scast b)) } = Some (t[?p := t ! ?p + ?h k])"
      by (simp add: ix_eq)
  qed (use p in simp)
  with p assms show ?thesis by (simp add: ix_eq)
qed

lemma div_mod_cell [simp]:
  "j < n \<Longrightarrow> (i * n + j) div n = i" "j < n \<Longrightarrow> (i * n + j) mod n = (j :: nat)"
  by simp_all

lemma matrix_mul_matrix_spec:
  assumes "dim_ok N" "unat N * unat N \<le> length A" "unat N * unat N \<le> length B"
    and "unat N * unat N \<le> length C"
  shows "matrix_mul_matrix N C A B =
     Some (map (\<lambda>k. prod_cell (unat N) A B (k div unat N) (k mod unat N)) [0..<unat N * unat N]
             @ drop (unat N * unat N) C)"
  unfolding matrix_mul_matrix_def
  by (rule for_ij_map[where g = "\<lambda>k _. prod_cell (unat N) A B (k div unat N) (k mod unat N)"])
    (use assms in \<open>simp_all add: product_row[where h = "\<lambda>x. x"] prod_cell_def\<close>)

lemma matrix_mul_matrix_bitextract_spec:
  assumes "dim_ok N" "unat N * unat N \<le> length A" "unat N * unat N \<le> length B"
    and "unat N * unat N \<le> length C"
  shows "matrix_mul_matrix_bitextract N C A B =
     Some (map (\<lambda>k. bits_cell (unat N) A B (k div unat N) (k mod unat N)) [0..<unat N * unat N]
             @ drop (unat N * unat N) C)"
  unfolding matrix_mul_matrix_bitextract_def Let_def
  by (rule for_ij_map[where g = "\<lambda>k _. bits_cell (unat N) A B (k div unat N) (k mod unat N)"])
    (use assms in \<open>simp_all add: product_row[where h = "\<lambda>t. bit_extract t 2 4 * bit_extract t 5 7"]
       bits_cell_def Let_def\<close>)

lemma matrix_sum_total:
  assumes "dim_ok N" "unat N * unat N \<le> length C"
  shows "\<exists>s. matrix_sum N C clipval = Some s"
proof -
  let ?n = "unat N * unat N"
  have "for_ij N (\<lambda>i j s. map_option (\<lambda>cur. matrix_sum_step clipval cur s) (aread C (ix N i j))) (0, 0, 0) =
      for_loop 0 ?n (\<lambda>k s. map_option (\<lambda>cur. matrix_sum_step clipval cur s) (aread C k)) (0, 0, 0)"
    by (rule for_ij_flat) (simp add: assms ix_eq)
  also have "\<dots> = Some (fold (\<lambda>k. matrix_sum_step clipval (C ! k)) [0..<?n] (0, 0, 0))"
    by (rule for_loop_fold) (use assms(2) in simp)
  finally show ?thesis by (simp add: matrix_sum_def)
qed

section \<open>The dimension and the layout\<close>

lemma matrix_dim_bounds:
  assumes "1 \<le> unat blksize" and "unat blksize \<le> 8 * 23170 * 23170"
  shows "\<exists>N. matrix_dim blksize = Some N \<and> 8 * (unat N * unat N) < unat blksize \<and>
           unat blksize \<le> 8 * (Suc (unat N) * Suc (unat N)) \<and> unat N < 23170"
proof -
  let ?c = "\<lambda>(i :: ee_u32, j). Some (j < blksize)"
  let ?b = "\<lambda>(i :: ee_u32, j :: ee_u32). let i = i + 1 in Some (i, i * i * 2 * 4)"
  let ?I = "\<lambda>(i :: ee_u32, j :: ee_u32). \<exists>k. i = of_nat k \<and> unat j = 8 * (k * k) \<and> k \<le> 23170 \<and>
       (0 < k \<longrightarrow> 8 * ((k - 1) * (k - 1)) < unat blksize)"
  have "\<exists>s. while_loop ?c ?b (0, 0) = Some s \<and> ?I s \<and> ?c s = Some False"
  proof (rule while_loop_rule[where r = "measure (\<lambda>(i, j). 23171 - unat i)"])
    fix t assume "?I t"
    then obtain k j where t: "t = (of_nat k, j)" and j: "unat j = 8 * (k * k)" and k: "k \<le> 23170"
      by auto
    show "?c t = Some False \<or> ?c t = Some True \<and>
        (\<exists>t'. ?b t = Some t' \<and> ?I t' \<and> (t', t) \<in> measure (\<lambda>(i, j). 23171 - unat i))"
    proof (cases "j < blksize")
      case True
      then have less: "8 * (k * k) < unat blksize" using j by (simp add: word_less_nat_alt)
      have k': "k < 23170"
      proof (rule ccontr)
        assume "\<not> k < 23170"
        then have "23170 * 23170 \<le> k * k" by (intro mult_le_mono) auto
        with less assms(2) show False by simp
      qed
      have sq: "8 * (Suc k * Suc k) \<le> 8 * (23170 * 23170)"
        using k' by (intro mult_le_mono) auto
      let ?i = "of_nat (Suc k) :: ee_u32"
      have "?i * ?i * 2 * 4 = of_nat (8 * (Suc k * Suc k))" by (simp only: of_nat_mult of_nat_numeral) simp
      then have "unat (?i * ?i * 2 * 4) = 8 * (Suc k * Suc k)"
        using sq by (simp only: unat_of_nat) simp
      moreover have "unat ?i = Suc k" "unat (of_nat k :: ee_u32) = k"
        using k' by (simp_all only: unat_of_nat) simp_all
      ultimately show ?thesis
        using True k' less
        by (auto simp: t Let_def add.commute simp del: of_nat_Suc intro!: exI[of _ "Suc k"])
          (simp_all add: add.commute)
    qed (simp add: t)
  qed (auto intro: exI[of _ 0])
  then obtain i j k where loop: "while_loop ?c ?b (0, 0) = Some (i, j)"
    and i: "i = of_nat k" and j: "unat j = 8 * (k * k)" and k: "k \<le> 23170"
    and prev: "0 < k \<longrightarrow> 8 * ((k - 1) * (k - 1)) < unat blksize" and stop: "\<not> j < blksize"
    by auto
  have ge: "unat blksize \<le> 8 * (k * k)" using stop j by (simp add: word_less_nat_alt)
  then have pos: "0 < k" using assms(1) by (cases k) auto
  have "i - 1 = of_nat (k - 1)" using pos i by (simp add: of_nat_diff)
  then have N: "unat (i - 1) = k - 1" using k by (simp only: unat_of_nat) simp
  have "matrix_dim blksize = Some (i - 1)" using loop by (simp add: matrix_dim_def)
  with N prev pos ge k show ?thesis by (intro exI[of _ "i - 1"]) auto
qed

lemma matrix_dim_diverges:
  assumes "2 ^ 32 - 8 < unat blksize"
  shows "matrix_dim blksize = None"
proof -
  have "while_loop (\<lambda>(i :: ee_u32, j). Some (j < blksize))
      (\<lambda>(i, j). let i = i + 1 in Some (i, i * i * 2 * 4)) (0, 0) = None"
  proof (rule while_loop_diverges[where I = "\<lambda>(i, j). 8 dvd unat j"])
    fix t :: "ee_u32 \<times> ee_u32" assume I: "case t of (i, j) \<Rightarrow> 8 dvd unat j"
    obtain i j where t: "t = (i, j)" by (cases t)
    have "unat j < 2 ^ 32" using unsigned_less[of j] by simp
    with I have "unat j \<le> 2 ^ 32 - 8" unfolding t by simp presburger
    then have "j < blksize" using assms by (simp add: word_less_nat_alt)
    moreover have "8 dvd unat (x * 2 * 4 :: ee_u32)" for x
    proof -
      have "unat (x * 2 * 4 :: ee_u32) = (unat x * 8) mod 2 ^ 32"
        by (simp add: unat_word_ariths mod_mult_right_eq mult.commute mod_mult_left_eq)
      then show ?thesis by (simp add: dvd_mod_iff)
    qed
    ultimately show "(case t of (i, j) \<Rightarrow> Some (j < blksize)) = Some True \<and>
       (\<forall>t'. (case t of (i, j) \<Rightarrow> let i = i + 1 in Some (i, i * i * 2 * 4)) = Some t' \<longrightarrow>
          (case t' of (i, j) \<Rightarrow> 8 dvd unat j))"
      by (auto simp: t Let_def)
  qed simp
  then show ?thesis by (simp add: matrix_dim_def)
qed

lemma unat_align:
  assumes "unat p + 3 < 2 ^ 32"
  shows "unat (align_mem p) = (unat p + 3) div 4 * 4"
proof -
  have u: "unat (p + 3) = unat p + 3" using assms by (simp add: unat_word_ariths)
  have three: "bit (3 :: ee_u32) n \<longleftrightarrow> n < 2" for n
    using bit_mask_iff[of 2 n, where 'a = ee_u32] by (auto simp: mask_eq_exp_minus_1)
  have "bit (push_bit 2 (drop_bit 2 w)) n \<longleftrightarrow> 2 \<le> n \<and> bit w n" if "n < 32" for w :: ee_u32 and n
    using that by (cases "2 \<le> n") (simp_all add: bit_simps Suc_diff_Suc flip: add_2_eq_Suc)
  then have "align_mem p = push_bit 2 (drop_bit 2 (p + 3))"
    by (intro bit_word_eqI) (auto simp only: align_mem_def bit_and_iff bit_not_iff three not_less len_num1 len_bit0 possible_bit_word)
  then have "unat (align_mem p) = unat (drop_bit 2 (p + 3) * 4)"
    by (simp only: push_bit_eq_mult) simp
  also have "\<dots> = (unat (p + 3) div 4 * 4) mod 2 ^ 32"
    by (simp add: unat_word_ariths unat_drop_bit_eq drop_bit_eq_div)
  also have "\<dots> = (unat p + 3) div 4 * 4" using u assms by simp
  finally show ?thesis .
qed

section \<open>Generated matrices\<close>

text \<open>The values of \<open>seed\<close> after \<open>k\<close> turns of the filling loop.\<close>

fun seed_at :: "ee_s32 \<Rightarrow> nat \<Rightarrow> ee_s32" where
  "seed_at s 0 = s"
| "seed_at s (Suc k) = word_of_int (c_rem (sint (of_nat (Suc k) * seed_at s k)) 65536)"

definition cell_B :: "ee_s32 \<Rightarrow> nat \<Rightarrow> MATDAT" where
  "cell_B s k = ucast (seed_at s (Suc k)) + of_nat (Suc k)"

definition cell_A :: "ee_s32 \<Rightarrow> nat \<Rightarrow> MATDAT" where
  "cell_A s k = (cell_B s k + of_nat (Suc k)) AND 0xff"

lemma ucast_add_16: "(ucast (x + y :: 32 word) :: 16 word) = ucast x + ucast y"
proof -
  have "(ucast (word_of_int k :: 32 word) :: 16 word) = word_of_int k" for k
    by (rule bit_word_eqI) (simp add: bit_simps)
  from this[of "uint x + uint y"] show ?thesis by simp
qed

lemma ucast_of_nat_16: "(ucast (of_nat k :: 32 word) :: 16 word) = of_nat k"
  by (rule bit_word_eqI) (simp add: bit_simps)

lemma ucast_scast_16: "ucast (scast v :: 32 word) = (v :: 16 word)"
  by (rule bit_word_eqI) (simp add: bit_simps)

lemma init_cell_step:
  assumes "k < length A" "k < length B"
  shows "init_cell k (A, B, seed_at s k, of_nat (Suc k)) =
     Some (A[k := cell_A s k], B[k := cell_B s k], seed_at s (Suc k), of_nat (Suc (Suc k)))"
proof -
  have u: "ucast (x + of_nat m :: 32 word) = (ucast x + of_nat m :: 16 word)" for x m
    by (simp only: ucast_add_16 ucast_of_nat_16)
  have clip: "v AND 65535 = v" for v :: "16 word"
  proof -
    have "(65535 :: 16 word) = NOT 0" by simp
    then show ?thesis by (simp only: word_bw_same(1)) simp
  qed
  have order: "of_nat (Suc k) + 1 = (of_nat (Suc (Suc k)) :: ee_s32)" by simp
  show ?thesis
    unfolding init_cell_def prod.case Let_def seed_at.simps(2)[symmetric] matrix_clip_def
      if_False if_True u ucast_scast_16 clip order cell_A_def cell_B_def
    using assms by simp
qed

lemma core_init_matrix_spec:
  assumes "matrix_dim blksize = Some N" and "dim_ok N"
    and "unat N * unat N \<le> length A" "unat N * unat N \<le> length B"
  shows "core_init_matrix blksize A B C seed = Some (N, \<lparr>mat_N = N,
     mat_A = map (cell_A (if seed = 0 then 1 else seed)) [0..<unat N * unat N] @ drop (unat N * unat N) A,
     mat_B = map (cell_B (if seed = 0 then 1 else seed)) [0..<unat N * unat N] @ drop (unat N * unat N) B,
     mat_C = C\<rparr>)"
proof -
  let ?n = "unat N * unat N" and ?s = "if seed = 0 then 1 else seed"
  let ?P = "\<lambda>j t. t = (map (cell_A ?s) [0..<j] @ drop j A, map (cell_B ?s) [0..<j] @ drop j B,
     seed_at ?s j, of_nat (Suc j) :: ee_s32)"
  have "\<exists>t. for_loop 0 ?n init_cell (A, B, ?s, 1) = Some t \<and> ?P ?n t"
  proof (rule for_loop_rule)
    fix j t assume j: "0 \<le> j" "j < ?n" and t: "?P j t"
    have upd: "(map f [0..<j] @ drop j X)[j := f j] = map f [0..<Suc j] @ drop (Suc j) X"
      if "?n \<le> length X" for f and X :: "MATDAT list"
      using j that by (intro nth_equalityI) (auto simp: nth_append nth_list_update less_Suc_eq)
    show "\<exists>t'. init_cell j t = Some t' \<and> ?P (Suc j) t'"
      using j assms(3,4) unfolding t
      by (subst init_cell_step) (simp_all only: upd length_append length_map length_upt length_drop, simp_all)
  qed simp_all
  moreover have "for_ij N (\<lambda>i j. init_cell (ix N i j)) (A, B, ?s, 1) = for_loop 0 ?n init_cell (A, B, ?s, 1)"
    by (rule for_ij_flat) (simp add: ix_eq assms(2))
  ultimately show ?thesis using assms(1) by (simp add: core_init_matrix_def)
qed

section \<open>Absence of signed overflow\<close>

lemma sint_sum_exact:
  assumes "\<And>k. k < m \<Longrightarrow> \<bar>f k\<bar> \<le> b" and "int m * b < 2 ^ 31"
  shows "sint (\<Sum>k<m. word_of_int (f k) :: 32 word) = (\<Sum>k<m. f k)"
proof -
  have "\<bar>\<Sum>k<m. f k\<bar> \<le> (\<Sum>k<m. \<bar>f k\<bar>)" by (rule sum_abs)
  also have "\<dots> \<le> (\<Sum>k<m. b)" using assms(1) by (intro sum_mono) simp
  finally have "\<bar>\<Sum>k<m. f k\<bar> < 2 ^ 31" using assms(2) by simp
  then have "signed_take_bit 31 (\<Sum>k<m. f k) = (\<Sum>k<m. f k)"
    by (intro signed_take_bit_int_eq_self) auto
  moreover have "(\<Sum>k<m. word_of_int (f k) :: 32 word) = word_of_int (\<Sum>k<m. f k)"
    by (simp add: of_int_sum)
  ultimately show ?thesis by (simp only: signed_of_int) simp
qed

lemma product_32:
  "(scast (a :: MATDAT) * scast (b :: MATDAT) :: MATRES) = word_of_int (sint a * sint b)"
  by simp

lemma sint_16_bound: "\<bar>sint (b :: MATDAT)\<bar> \<le> 32768"
  using sint_greater_eq[of b] sint_less[of b] by simp

lemma prod_prefix_exact:
  assumes "\<And>k. k < n * n \<Longrightarrow> \<bar>sint (A ! k)\<bar> \<le> 510" and "n \<le> 128" "i < n" "m \<le> n"
  shows "sint (\<Sum>k<m. scast (A ! (i * n + k)) * scast (B ! (k * n + j)) :: MATRES) =
     (\<Sum>k<m. sint (A ! (i * n + k) :: MATDAT) * sint (B ! (k * n + j) :: MATDAT))"
  unfolding product_32
proof (rule sint_sum_exact)
  fix k assume "k < m"
  then have "\<bar>sint (A ! (i * n + k))\<bar> \<le> 510" using assms by (intro assms(1) cell_less) auto
  then have "\<bar>sint (A ! (i * n + k))\<bar> * \<bar>sint (B ! (k * n + j))\<bar> \<le> 510 * 32768"
    by (rule mult_mono) (use sint_16_bound in simp_all)
  then show "\<bar>sint (A ! (i * n + k)) * sint (B ! (k * n + j))\<bar> \<le> 510 * 32768" by (simp add: abs_mult)
qed (use assms in simp)

lemma cell_A_bound: "0 \<le> sint (cell_A s k) \<and> sint (cell_A s k) \<le> 255"
proof -
  have "uint (cell_A s k) \<le> 255"
    unfolding cell_A_def using word_and_le1[of _ "255 :: 16 word"] by (simp add: word_le_def)
  then have "sint (cell_A s k) = uint (cell_A s k)"
    using order_trans[OF _ uint_ge_0, of "- 32768" "cell_A s k"]
    by (simp only: sint_uint) (rule signed_take_bit_int_eq_self, simp_all)
  with \<open>uint (cell_A s k) \<le> 255\<close> show ?thesis by simp
qed

lemma sint_add_16:
  fixes a b :: MATDAT
  assumes "0 \<le> sint a" "sint a \<le> 255" "\<bar>sint b\<bar> \<le> 255"
  shows "sint (a + b) = sint a + sint b"
proof -
  have "a + b = word_of_int (sint a + sint b)" by simp
  then have "sint (a + b) = signed_take_bit 15 (sint a + sint b)" by (simp only: signed_of_int) simp
  also have "\<dots> = sint a + sint b" by (rule signed_take_bit_int_eq_self) (use assms in auto)
  finally show ?thesis .
qed


section \<open>The benchmark as a whole\<close>

definition mats_ok :: "mat_params \<Rightarrow> bool" where
  "mats_ok p \<longleftrightarrow> dim_ok (mat_N p) \<and> length (mat_A p) = unat (mat_N p) * unat (mat_N p) \<and>
     length (mat_B p) = unat (mat_N p) * unat (mat_N p) \<and>
     length (mat_C p) = unat (mat_N p) * unat (mat_N p)"

lemma le_square: "n \<le> n * (n :: nat)"
  by (cases n) simp_all

lemma matrix_benchmark_restores:
  assumes "mats_ok p"
  shows "\<exists>crc' C'. core_bench_matrix p seed crc = Some (crc', p\<lparr>mat_C := C'\<rparr>) \<and> mats_ok (p\<lparr>mat_C := C'\<rparr>)"
proof -
  define N where "N = mat_N p"
  define n where "n = unat N * unat N"
  define A where "A = map (\<lambda>k. mat_A p ! k + seed) [0..<n]"
  have ok: "dim_ok N" "length (mat_A p) = n" "length (mat_B p) = n" "length (mat_C p) = n"
    using assms by (simp_all add: mats_ok_def N_def n_def)
  have sq: "unat N \<le> n" by (simp add: n_def le_square)
  have A: "matrix_add_const N (mat_A p) seed = Some A" "length A = n"
    using ok by (simp_all add: matrix_add_const_spec A_def n_def)
  have undo: "matrix_add_const N A (- seed) = Some (mat_A p)"
    using ok A(2) by (simp add: matrix_add_const_spec n_def) (simp add: A_def n_def list_eq_iff_nth_eq)
  have C1: "\<exists>C'. matrix_mul_const N C A v = Some C' \<and> length C' = n"
    and C2: "\<exists>C'. matrix_mul_vect N C A (mat_B p) = Some C' \<and> length C' = n"
    and C3: "\<exists>C'. matrix_mul_matrix N C A (mat_B p) = Some C' \<and> length C' = n"
    and C4: "\<exists>C'. matrix_mul_matrix_bitextract N C A (mat_B p) = Some C' \<and> length C' = n"
    and S: "\<exists>s. matrix_sum N C clip = Some s"
    if "length C = n" for C v clip
    using ok A(2) sq that
    by (simp_all add: matrix_mul_const_spec matrix_mul_vect_spec matrix_mul_matrix_spec
        matrix_mul_matrix_bitextract_spec matrix_sum_total flip: n_def)
  let ?clip = "matrix_big seed"
  obtain D1 s1 where D1: "matrix_mul_const N (mat_C p) A seed = Some D1" "length D1 = n"
      "matrix_sum N D1 ?clip = Some s1" using C1 S ok(4) by blast
  obtain D2 s2 where D2: "matrix_mul_vect N D1 A (mat_B p) = Some D2" "length D2 = n"
      "matrix_sum N D2 ?clip = Some s2" using C2 S D1(2) by blast
  obtain D3 s3 where D3: "matrix_mul_matrix N D2 A (mat_B p) = Some D3" "length D3 = n"
      "matrix_sum N D3 ?clip = Some s3" using C3 S D2(2) by blast
  obtain D4 s4 where D4: "matrix_mul_matrix_bitextract N D3 A (mat_B p) = Some D4" "length D4 = n"
      "matrix_sum N D4 ?clip = Some s4" using C4 S D3(2) by blast
  have "\<exists>crc'. core_bench_matrix p seed crc = Some (crc', p\<lparr>mat_C := D4\<rparr>)"
    using A D1 D2 D3 D4 undo by (simp add: core_bench_matrix_def matrix_test_def Let_def flip: N_def)
  moreover have "mats_ok (p\<lparr>mat_C := D4\<rparr>)" using assms D4(2) by (simp add: mats_ok_def N_def n_def)
  ultimately show ?thesis by blast
qed

lemma unat_square:
  fixes N :: ee_u32
  assumes "unat N < 23170"
  shows "unat (N * N) = unat N * unat N" and "unat (2 * (N * N)) = 2 * (unat N * unat N)"
proof -
  have le: "unat N * unat N \<le> 23170 * 23170" using assms by (intro mult_le_mono) auto
  then show *: "unat (N * N) = unat N * unat N" by (simp add: unat_word_ariths)
  show "unat (2 * (N * N)) = 2 * (unat N * unat N)"
    using le by (simp only: unat_word_ariths(2)[of 2] *) simp
qed

lemma small_dim: "unat N < 23170 \<Longrightarrow> dim_ok N"
proof -
  assume "unat N < 23170"
  then have "unat N * unat N \<le> 23170 * 23170" by (intro mult_le_mono) auto
  then show ?thesis by (simp add: dim_ok_def)
qed

section \<open>Properties\<close>

text \<open>C9. The dimension search ends, and \<open>N\<close> is the largest dimension whose working set of
  \<open>8 * N * N\<close> bytes (two matrices of \<open>MATDAT\<close>, one of \<open>MATRES\<close>) is smaller than the block.\<close>

theorem matrix_dim_maximal:
  assumes "1 \<le> unat blksize" and "unat blksize \<le> 8 * 23170 * 23170"
  shows "\<exists>N. matrix_dim blksize = Some N \<and> 8 * (unat N * unat N) < unat blksize \<and>
     (\<forall>n. 8 * (n * n) < unat blksize \<longrightarrow> n \<le> unat N)"
proof -
  obtain N where N: "matrix_dim blksize = Some N" "8 * (unat N * unat N) < unat blksize"
    "unat blksize \<le> 8 * (Suc (unat N) * Suc (unat N))"
    using matrix_dim_bounds[OF assms] by auto
  have "n \<le> unat N" if "8 * (n * n) < unat blksize" for n
  proof (rule ccontr)
    assume "\<not> n \<le> unat N"
    then have "Suc (unat N) * Suc (unat N) \<le> n * n" by (intro mult_le_mono) auto
    with N(3) that show False by simp
  qed
  with N show ?thesis by auto
qed

lemma matrix_dim_maximal_witness:
  "\<exists>N. matrix_dim 666 = Some N \<and> 8 * (unat N * unat N) < 666 \<and>
     (\<forall>n. 8 * (n * n) < (666 :: nat) \<longrightarrow> n \<le> unat N)"
  using matrix_dim_maximal[of 666] by simp

text \<open>C8. The three matrices lie inside the block in the order \<open>A\<close>, \<open>B\<close>, \<open>C\<close> without overlap,
  \<open>A\<close> and \<open>C\<close> aligned to four bytes; the block is overrun by less than the alignment gap.\<close>

theorem matrix_layout_disjoint:
  assumes "unat N < 23170" and "unat memblk + 6 + 8 * (unat N * unat N) < 2 ^ 32"
    and "matrix_layout N memblk = (A, B, C)"
  shows "unat memblk \<le> unat A \<and> unat A mod 4 = 0 \<and> unat A + 2 * (unat N * unat N) = unat B \<and>
     unat B + 2 * (unat N * unat N) \<le> unat C \<and> unat C mod 4 = 0 \<and>
     unat C + 4 * (unat N * unat N) \<le> unat memblk + 3 + 8 * (unat N * unat N)"
proof -
  let ?q = "unat N * unat N"
  let ?m = "(unat memblk + 3) div 4"
  have A: "unat A = 4 * ?m" and eqs: "A = align_mem memblk" "B = A + 2 * (N * N)"
      "C = align_mem (B + 2 * (N * N))"
    using assms by (auto simp: matrix_layout_def Let_def unat_align)
  have m: "4 * ?m \<le> unat memblk + 3" "unat memblk \<le> 4 * ?m" by simp_all
  have B: "unat B = 4 * ?m + 2 * ?q"
    unfolding eqs(2) using A m(1) assms(2) by (simp only: unat_word_ariths(1) unat_square(2)[OF assms(1)]) simp
  have e: "unat (B + 2 * (N * N)) = 4 * (?m + ?q)"
    using B m(1) assms(2) by (simp only: unat_word_ariths(1) unat_square(2)[OF assms(1)]) simp
  have "unat C = (4 * (?m + ?q) + 3) div 4 * 4"
    unfolding eqs(3) using e m(1) assms(2) by (subst unat_align) simp_all
  moreover have "(4 * x + 3) div 4 * 4 = 4 * x" for x :: nat by presburger
  ultimately have "unat C = 4 * (?m + ?q)" by (simp only:)
  with A B m show ?thesis by simp
qed

lemma matrix_layout_disjoint_witness:
  "unat (0x29a :: ee_u32) \<le> unat (0x29c :: ee_u32) \<and> unat (0x29c :: ee_u32) mod 4 = 0 \<and>
     unat (0x29c :: ee_u32) + 2 * (unat (9 :: ee_u32) * unat (9 :: ee_u32)) = unat (0x33e :: ee_u32) \<and>
     unat (0x33e :: ee_u32) + 2 * (unat (9 :: ee_u32) * unat (9 :: ee_u32)) \<le> unat (0x3e0 :: ee_u32) \<and>
     unat (0x3e0 :: ee_u32) mod 4 = 0 \<and>
     unat (0x3e0 :: ee_u32) + 4 * (unat (9 :: ee_u32) * unat (9 :: ee_u32))
       \<le> unat (0x29a :: ee_u32) + 3 + 8 * (unat (9 :: ee_u32) * unat (9 :: ee_u32))"
  by (rule matrix_layout_disjoint) (simp_all add: matrix_layout_def align_mem_def Let_def)

text \<open>C8. On every block that holds at least one byte the initialisation and the benchmark stay
  in their arrays and return; the benchmark leaves \<open>A\<close> and \<open>B\<close> as they were.\<close>

theorem matrix_benchmark_safe:
  assumes "1 \<le> unat blksize" "unat blksize \<le> 8 * 23170 * 23170" "matrix_dim blksize = Some N"
    and "length A = unat N * unat N" "length B = unat N * unat N" "length C = unat N * unat N"
  shows "\<exists>p. core_init_matrix blksize A B C seed = Some (N, p) \<and> mat_N p = N \<and>
     (\<forall>val crc. \<exists>crc' C'. core_bench_matrix p val crc = Some (crc', p\<lparr>mat_C := C'\<rparr>))"
proof -
  have "unat N < 23170" using matrix_dim_bounds[OF assms(1,2)] assms(3) by auto
  then have ok: "dim_ok N" by (rule small_dim)
  obtain p where p: "core_init_matrix blksize A B C seed = Some (N, p)" "mats_ok p" "mat_N p = N"
    using core_init_matrix_spec[OF assms(3) ok, of A B C seed] assms(4-6) ok by (auto simp: mats_ok_def)
  with matrix_benchmark_restores show ?thesis by blast
qed

lemma matrix_benchmark_safe_witness:
  "\<exists>p. core_init_matrix 33 [0, 0, 0, 0] [0, 0, 0, 0] [0, 0, 0, 0] 0 = Some (2, p) \<and> mat_N p = 2 \<and>
     (\<forall>val crc. \<exists>crc' C'. core_bench_matrix p val crc = Some (crc', p\<lparr>mat_C := C'\<rparr>))"
proof (rule matrix_benchmark_safe)
  show "matrix_dim 33 = Some 2" by (simp add: matrix_dim_def while_loop.simps)
qed simp_all

text \<open>C9. \<open>matrix_mul_matrix\<close> writes the row-major product of \<open>A\<close> and \<open>B\<close> in \<open>MATRES\<close> arithmetic
  into the first \<open>N * N\<close> cells of \<open>C\<close>, whatever they held, and nothing else.\<close>

theorem matrix_mul_matrix_product:
  assumes "dim_ok N" "unat N * unat N \<le> length A" "unat N * unat N \<le> length B"
    and "unat N * unat N \<le> length C"
  shows "\<exists>C'. matrix_mul_matrix N C A B = Some C' \<and> length C' = length C \<and>
     (\<forall>i j. i < unat N \<and> j < unat N \<longrightarrow> C' ! (i * unat N + j) =
        (\<Sum>k<unat N. scast (A ! (i * unat N + k)) * scast (B ! (k * unat N + j)))) \<and>
     drop (unat N * unat N) C' = drop (unat N * unat N) C"
  using assms
  by (auto simp: matrix_mul_matrix_spec nth_append cell_less prod_cell_def)

lemma matrix_mul_matrix_product_witness:
  "\<exists>C'. matrix_mul_matrix 2 [7, 7, 7, 7] [1, 2, 3, 4] [5, 6, 7, 8] = Some C' \<and> length C' = 4 \<and>
     C' ! (0 * 2 + 0) = 19 \<and> C' ! (1 * 2 + 1) = 50"
proof -
  have "\<exists>C'. matrix_mul_matrix 2 [7, 7, 7, 7] [1, 2, 3, 4] [5, 6, 7, 8] = Some C' \<and> length C' = length [7 :: MATRES, 7, 7, 7] \<and>
     (\<forall>i j. i < unat (2 :: ee_u32) \<and> j < unat (2 :: ee_u32) \<longrightarrow> C' ! (i * unat (2 :: ee_u32) + j) =
        (\<Sum>k<unat (2 :: ee_u32). scast ([1 :: MATDAT, 2, 3, 4] ! (i * unat (2 :: ee_u32) + k))
           * scast ([5 :: MATDAT, 6, 7, 8] ! (k * unat (2 :: ee_u32) + j)))) \<and>
     drop (unat (2 :: ee_u32) * unat (2 :: ee_u32)) C' = drop (unat (2 :: ee_u32) * unat (2 :: ee_u32)) [7 :: MATRES, 7, 7, 7]"
    by (rule matrix_mul_matrix_product) (simp_all add: dim_ok_def)
  then obtain C' where C': "matrix_mul_matrix 2 [7, 7, 7, 7] [1, 2, 3, 4] [5, 6, 7, 8] = Some C'" "length C' = 4"
    and cell: "\<And>i j. i < 2 \<Longrightarrow> j < 2 \<Longrightarrow> C' ! (i * 2 + j) =
        (\<Sum>k<2. scast ([1 :: MATDAT, 2, 3, 4] ! (i * 2 + k)) * scast ([5 :: MATDAT, 6, 7, 8] ! (k * 2 + j)))"
    by auto
  have "C' ! (0 * 2 + 0) = 19" "C' ! (1 * 2 + 1) = 50"
    using cell[of 0 0] cell[of 1 1] by (simp_all add: lessThan_nat_numeral)
  with C' show ?thesis by blast
qed




end
