(* ===== verification/List_Bench.thy ===== *)
theory List_Bench
  imports List_Sort State_Bench Matrix_Bench
begin

text \<open>
  The list benchmark of \<^verbatim>\<open>coremark/src/core_list_join.c\<close> on top of the list operations and the sort:
  the result block \<open>core_results\<close>, the two comparisons, \<open>core_bench_list\<close> and \<open>core_list_init\<close>.
\<close>

section \<open>The code\<close>

text \<open>\<open>RESULTS_S\<close>.  \<open>memblock[3]\<close> is the block of the state benchmark, whose bytes are the field
  \<open>state_block\<close>; the memory of the list is passed beside the record.  The field \<open>list\<close> is \<open>res_list\<close>,
  \<open>size\<close> is \<open>res_size\<close>; the field \<open>port\<close> carries no data the benchmark reads.\<close>

record core_results =
  seed1 :: ee_s16
  seed2 :: ee_s16
  seed3 :: ee_s16
  state_block :: "ee_u8 list"
  res_size :: ee_u32
  iterations :: ee_u32
  execs :: ee_u32
  res_list :: "nat option"
  mat :: mat_params
  crc :: ee_u16
  crclist :: ee_u16
  crcmatrix :: ee_u16
  crcstate :: ee_u16
  err :: ee_s16

text \<open>What a comparison may change: the list data and, unless its pointer is \<open>NULL\<close>, the result block.\<close>

type_synonym cmp_state = "datas \<times> core_results option"

text \<open>The \<open>switch\<close> of \<open>calc_func\<close>: the new return value and result block.\<close>

definition calc_op :: "ee_s16 \<Rightarrow> ee_s16 \<Rightarrow> ee_s16 \<Rightarrow> core_results \<Rightarrow> (ee_s16 \<times> core_results) option" where
  "calc_op flag dtype data res =
     (if flag = 0 then do {
        let dtype = (if sint dtype < 0x22 then 0x22 else dtype);
        (retval, m) \<leftarrow> core_bench_state (res_size res) (state_block res) (seed1 res) (seed2 res) dtype (crc res);
        let res = res\<lparr>state_block := m\<rparr>;
        Some (retval, if crcstate res = 0 then res\<lparr>crcstate := retval\<rparr> else res) }
      else if flag = 1 then do {
        (retval, p) \<leftarrow> core_bench_matrix (mat res) dtype (crc res);
        let res = res\<lparr>mat := p\<rparr>;
        Some (retval, if crcmatrix res = 0 then res\<lparr>crcmatrix := retval\<rparr> else res) }
      else Some (data, res))"

definition calc_func :: "nat \<Rightarrow> cmp_state \<Rightarrow> (ee_s16 \<times> cmp_state) option" where
  "calc_func pdata = (\<lambda>(ds, resp). do {
     d \<leftarrow> aread ds pdata;
     let data = data16 d;
     let optype = signed_drop_bit 7 data AND 1;
     if optype \<noteq> 0 then Some (data AND 0x007f, (ds, resp))
     else do {
       let flag = data AND 0x7;
       let dtype = signed_drop_bit 3 data AND 0xf;
       let dtype = dtype OR push_bit 4 dtype;
       res \<leftarrow> resp;
       (retval, res) \<leftarrow> calc_op flag dtype data res;
       let res = res\<lparr>crc := crcu16 retval (crc res)\<rparr>;
       let retval = retval AND 0x007f;
       ds \<leftarrow> awrite ds pdata (d\<lparr>data16 := (data AND 0xff00) OR 0x0080 OR retval\<rparr>);
       Some (retval, (ds, Some res)) } })"

definition cmp_complex :: "cmp_state list_cmp" where
  "cmp_complex a b s = do {
     (val1, s) \<leftarrow> calc_func a s;
     (val2, s) \<leftarrow> calc_func b s;
     Some (scast val1 - scast val2, s) }"

text \<open>\<open>(x & 0xff00) | (0x00ff & (x >> 8))\<close>\<close>

definition regen :: "ee_s16 \<Rightarrow> ee_s16" where
  "regen x = (x AND 0xff00) OR (0x00ff AND signed_drop_bit 8 x)"

definition regen_at :: "nat \<Rightarrow> datas \<Rightarrow> datas option" where
  "regen_at a ds = do { d \<leftarrow> aread ds a; awrite ds a (d\<lparr>data16 := regen (data16 d)\<rparr>) }"

definition cmp_idx :: "cmp_state list_cmp" where
  "cmp_idx a b = (\<lambda>(ds, res). do {
     ds \<leftarrow> (if res = None then Option.bind (regen_at a ds) (regen_at b) else Some ds);
     x \<leftarrow> aread ds a;
     y \<leftarrow> aread ds b;
     Some (scast (idx x) - scast (idx y), (ds, res)) })"

text \<open>The loop that finds \<open>find_num\<close> values: state \<open>(list, heap, retval, found, missed, info)\<close>.\<close>

type_synonym find_state = "nat option \<times> heads \<times> ee_u16 \<times> ee_u16 \<times> ee_u16 \<times> list_data"

text \<open>Move the cell after \<open>this_find\<close>, if there is one, behind the head of the list.\<close>

definition cache_next :: "heads \<Rightarrow> nat option \<Rightarrow> nat option \<Rightarrow> heads option" where
  "cache_next h this_find list = do {
     finder \<leftarrow> get_link h this_find;
     if finder \<noteq> None then do {
       n \<leftarrow> get_link h finder;
       h \<leftarrow> set_link h this_find n;
       n \<leftarrow> get_link h list;
       h \<leftarrow> set_link h finder n;
       set_link h list finder }
     else Some h }"

definition find_body :: "datas \<Rightarrow> nat \<Rightarrow> find_state \<Rightarrow> find_state option" where
  "find_body ds i = (\<lambda>(list, h, retval, found, missed, tgt). do {
     let tgt = tgt\<lparr>data16 := of_nat i AND 0xff\<rparr>;
     this_find \<leftarrow> core_list_find h ds list tgt;
     (list, h) \<leftarrow> core_list_reverse h list;
     (h, retval, found, missed) \<leftarrow>
       (if this_find = None then do {
          let missed = missed + 1;
          n \<leftarrow> get_link h list;
          d \<leftarrow> Option.bind (get_info h n) (aread ds);
          Some (h, retval + (signed_drop_bit 8 (data16 d) AND 1), found, missed) }
        else do {
          let found = found + 1;
          d \<leftarrow> Option.bind (get_info h this_find) (aread ds);
          let retval = (if data16 d AND 0x1 \<noteq> 0 then retval + (signed_drop_bit 9 (data16 d) AND 1) else retval);
          h \<leftarrow> cache_next h this_find list;
          Some (h, retval, found, missed) });
     let tgt = (if 0 \<le> sint (idx tgt) then tgt\<lparr>idx := idx tgt + 1\<rparr> else tgt);
     Some (list, h, retval, found, missed, tgt) })"

text \<open>\<open>while (finder) { retval = crc16(list->info->data16, retval); finder = finder->next; }\<close>\<close>

definition crc_walk :: "heads \<Rightarrow> datas \<Rightarrow> nat option \<Rightarrow> nat option \<Rightarrow> ee_u16 \<Rightarrow> ee_u16 option" where
  "crc_walk h ds list finder retval = map_option snd (while_loop
     (\<lambda>(finder, retval). Some (finder \<noteq> None))
     (\<lambda>(finder, retval). do {
        d \<leftarrow> Option.bind (get_info h list) (aread ds);
        n \<leftarrow> get_link h finder;
        Some (n, crc16 (data16 d) retval) }) (finder, retval))"

definition core_bench_list :: "heads \<Rightarrow> datas \<Rightarrow> core_results \<Rightarrow> ee_s16
    \<Rightarrow> (ee_u16 \<times> heads \<times> datas \<times> core_results) option" where
  "core_bench_list h ds res finder_idx = do {
     let list = res_list res;
     let find_num = seed3 res;
     (list, h, retval, found, missed, tgt) \<leftarrow>
       for_loop 0 (nat (sint find_num)) (find_body ds)
         (list, h, 0, 0, 0, \<lparr>data16 = 0, idx = finder_idx\<rparr>);
     let retval = retval + (found * 4 - missed);
     (list, h, ds, resp) \<leftarrow> (if 0 < sint finder_idx
        then core_list_mergesort cmp_complex h list (ds, Some res) else Some (list, h, ds, Some res));
     res \<leftarrow> resp;
     n \<leftarrow> get_link h list;
     (remover, h) \<leftarrow> core_list_remove h n;
     finder \<leftarrow> core_list_find h ds list tgt;
     finder \<leftarrow> (if finder = None then get_link h list else Some finder);
     retval \<leftarrow> crc_walk h ds list finder retval;
     n \<leftarrow> get_link h list;
     (remover, h) \<leftarrow> core_list_undo_remove h remover n;
     (list, h, ds, _) \<leftarrow> core_list_mergesort cmp_idx h list (ds, None);
     finder \<leftarrow> get_link h list;
     retval \<leftarrow> crc_walk h ds list finder retval;
     Some (retval, h, ds, res) }"

text \<open>\<open>core_list_init\<close>: \<open>h\<close> and \<open>ds\<close> are what the block holds before the call where the code places
  the list heads and the list data.  \<open>per_item = 16 + sizeof(struct list_data_s) = 20\<close>.\<close>

definition init_size :: "ee_u32 \<Rightarrow> ee_u32" where
  "init_size blksize = blksize div 20 - 2"

definition init_data :: "ee_s16 \<Rightarrow> nat \<Rightarrow> ee_s16" where
  "init_data seed i = (let datpat = ucast (scast seed XOR of_nat i :: ee_u32) AND 0xf;
     dat = push_bit 3 datpat OR ucast (of_nat i AND 0x7 :: ee_u32) in push_bit 8 dat OR dat)"

text \<open>The index the numbering gives to the item with number \<open>i\<close>; the \<open>i\<close> of the first \<open>&\<close> is the
  incremented one.\<close>

definition item_idx :: "ee_u32 \<Rightarrow> ee_s16 \<Rightarrow> ee_u32 \<Rightarrow> ee_s16" where
  "item_idx blkitems seed i =
     (if i < blkitems div 5 then ucast i
      else let pat = ucast (i XOR scast seed) :: ee_u16; i = i + 1 in
        0x3fff AND (ucast (push_bit 8 (i AND 0x07)) OR pat))"

text \<open>The numbering: state \<open>(finder, i, data)\<close>.\<close>

definition index_step :: "heads \<Rightarrow> ee_u32 \<Rightarrow> ee_s16 \<Rightarrow> nat option \<times> ee_u32 \<times> datas
    \<Rightarrow> (nat option \<times> ee_u32 \<times> datas) option" where
  "index_step h blkitems seed = (\<lambda>(finder, i, ds). do {
     a \<leftarrow> get_info h finder;
     d \<leftarrow> aread ds a;
     ds \<leftarrow> awrite ds a (d\<lparr>idx := item_idx blkitems seed i\<rparr>);
     n \<leftarrow> get_link h finder;
     Some (n, i + 1, ds) })"

definition core_list_init :: "heads \<Rightarrow> datas \<Rightarrow> ee_u32 \<Rightarrow> ee_s16 \<Rightarrow> (nat option \<times> heads \<times> datas) option" where
  "core_list_init h ds blksize seed = do {
     let blkitems = init_size blksize;
     let memblock_end = unat blkitems;
     let datablock_end = unat blkitems;
     let list = Some 0;
     h \<leftarrow> set_link h list None;
     h \<leftarrow> set_info h list 0;
     d \<leftarrow> aread ds 0;
     ds \<leftarrow> awrite ds 0 (d\<lparr>idx := 0x0000, data16 := 0x8080\<rparr>);
     (_, s) \<leftarrow> core_list_insert_new list \<lparr>data16 = 0xffff, idx = 0x7fff\<rparr>
       memblock_end datablock_end (h, ds, 1, 1);
     (h, ds, _, _) \<leftarrow> for_loop 0 (unat blkitems) (\<lambda>i s. map_option snd
       (core_list_insert_new list \<lparr>data16 = init_data seed i, idx = 0x7fff\<rparr> memblock_end datablock_end s)) s;
     finder \<leftarrow> get_link h list;
     (_, _, ds) \<leftarrow> while_loop (\<lambda>(finder, i, ds). map_option (\<lambda>n. n \<noteq> None) (get_link h finder))
       (index_step h blkitems seed) (finder, 1, ds);
     (list, h, ds, _) \<leftarrow> core_list_mergesort cmp_idx h list (ds, None);
     Some (list, h, ds) }"

section \<open>The bits of \<open>data16\<close>\<close>

text \<open>The high byte is the backup, bit 7 the cache flag, bits 0 to 6 the cached value.\<close>

lemma bit_masks:
  "bit (0xff :: ee_s16) n \<longleftrightarrow> n < 8"
  "bit (0x7f :: ee_s16) n \<longleftrightarrow> n < 7"
  "bit (0xff00 :: ee_s16) n \<longleftrightarrow> 8 \<le> n \<and> n < 16"
  "bit (0x80 :: ee_s16) n \<longleftrightarrow> n = 7"
proof -
  have m: "(0xff :: ee_s16) = mask 8" "(0x7f :: ee_s16) = mask 7" "(0xff00 :: ee_s16) = push_bit 8 (mask 8)"
    "(0x80 :: ee_s16) = push_bit 7 1"
    by (simp_all add: mask_eq_exp_minus_1 push_bit_eq_mult)
  show "bit (0xff :: ee_s16) n \<longleftrightarrow> n < 8" unfolding m(1) by (auto simp: bit_mask_iff)
  show "bit (0x7f :: ee_s16) n \<longleftrightarrow> n < 7" unfolding m(2) by (auto simp: bit_mask_iff)
  show "bit (0xff00 :: ee_s16) n \<longleftrightarrow> 8 \<le> n \<and> n < 16"
    unfolding m(3) by (auto simp: bit_push_bit_iff bit_mask_iff)
  show "bit (0x80 :: ee_s16) n \<longleftrightarrow> n = 7"
    unfolding m(4) bit_push_bit_iff bit_1_iff by auto
qed

lemma bit_regen: "bit (regen x) n \<longleftrightarrow> n < 16 \<and> bit x (if n < 8 then n + 8 else n)"
  unfolding regen_def bit_or_iff bit_and_iff bit_signed_drop_bit_iff bit_masks
  by (auto dest: bit_imp_le_length simp: add.commute)

lemma regen_regen [simp]: "regen (regen x) = regen x"
  by (rule bit_word_eqI) (auto simp: bit_regen)

lemma regen_high [simp]: "regen x AND 0xff00 = x AND 0xff00"
proof (rule bit_word_eqI)
  fix n
  show "bit (regen x AND 0xff00) n = bit (x AND 0xff00) n"
    unfolding bit_and_iff bit_masks bit_regen by auto
qed

lemma regen_cong: "x AND 0xff00 = y AND 0xff00 \<Longrightarrow> regen x = regen y"
proof (rule bit_word_eqI)
  fix n assume eq: "x AND 0xff00 = y AND 0xff00" and n: "n < LENGTH(16)"
  have "8 \<le> m \<Longrightarrow> m < 16 \<Longrightarrow> bit x m = bit y m" for m
    using arg_cong[OF eq, of "\<lambda>w. bit w m"] unfolding bit_and_iff bit_masks by simp
  with n show "bit (regen x) n = bit (regen y) n" by (auto simp: bit_regen)
qed

lemma cached_value:
  fixes d r :: ee_s16
  defines "v \<equiv> (d AND 0xff00) OR 0x0080 OR (r AND 0x007f)"
  shows "bit v 7" and "v AND 0x7f = r AND 0x7f" and "v AND 0xff00 = d AND 0xff00"
proof -
  show "bit v 7" unfolding v_def bit_or_iff bit_and_iff bit_masks by simp
  show "v AND 0x7f = r AND 0x7f"
    unfolding v_def by (rule bit_word_eqI) (auto simp only: bit_or_iff bit_and_iff bit_masks)
  show "v AND 0xff00 = d AND 0xff00"
    unfolding v_def by (rule bit_word_eqI) (auto simp only: bit_or_iff bit_and_iff bit_masks)
qed

lemma cache_flag: "signed_drop_bit 7 d AND 1 = (if bit d 7 then 1 else (0 :: ee_s16))"
  by (rule bit_word_eqI) (auto simp: bit_and_iff bit_signed_drop_bit_iff bit_1_iff intro: gr0I)

lemma sint_diff_32: "sint (scast (x :: ee_s16) - scast (y :: ee_s16) :: ee_s32) = sint x - sint y"
proof -
  have "(scast x - scast y :: ee_s32) = word_of_int (sint x - sint y)" by simp
  then have "sint (scast x - scast y :: ee_s32) = signed_take_bit 31 (sint x - sint y)"
    by (simp only: signed_of_int) simp
  also have "\<dots> = sint x - sint y"
    using sint_16_bound[of x] sint_16_bound[of y] by (intro signed_take_bit_int_eq_self) auto
  finally show ?thesis .
qed

section \<open>Comparing by index\<close>

text \<open>The key is \<open>idx\<close>; a cell is settled once its data has been regenerated.\<close>

definition idx_ok :: "cmp_state \<Rightarrow> bool" where
  "idx_ok s \<longleftrightarrow> snd s = None"

definition data_in :: "cmp_state \<Rightarrow> nat set" where
  "data_in s = {..<length (fst s)}"

definition idx_known :: "cmp_state \<Rightarrow> nat set" where
  "idx_known s = {a. a < length (fst s) \<and> regen (data16 (fst s ! a)) = data16 (fst s ! a)}"

definition idx_key :: "cmp_state \<Rightarrow> nat \<Rightarrow> int" where
  "idx_key s a = sint (idx (fst s ! a))"

definition idx_ext :: "cmp_state \<Rightarrow> cmp_state \<Rightarrow> bool" where
  "idx_ext s t \<longleftrightarrow> length (fst t) = length (fst s) \<and> snd t = snd s \<and>
     (\<forall>a. idx (fst t ! a) = idx (fst s ! a) \<and>
        (data16 (fst t ! a) = data16 (fst s ! a) \<or> data16 (fst t ! a) = regen (data16 (fst s ! a))))"

lemma regen_at_law:
  assumes "a < length ds"
  shows "\<exists>ds'. regen_at a ds = Some ds' \<and> idx_ext (ds, None) (ds', None) \<and> a \<in> idx_known (ds', None)"
  using assms by (simp add: regen_at_def idx_ext_def idx_known_def nth_list_update)

lemma idx_ext_trans: "idx_ext s t \<Longrightarrow> idx_ext t u \<Longrightarrow> idx_ext s u"
  unfolding idx_ext_def by (metis regen_regen)

lemma idx_ext_known: "idx_ext s t \<Longrightarrow> idx_known s \<subseteq> idx_known t"
  unfolding idx_ext_def idx_known_def by (auto) (metis regen_regen)+

interpretation by_idx: comparator cmp_idx idx_ok data_in idx_known idx_key idx_ext
proof unfold_locales
  fix s a b assume "idx_ok s" "a \<in> data_in s" "b \<in> data_in s"
  then obtain ds where s: "s = (ds, None)" "a < length ds" "b < length ds"
    by (cases s) (auto simp: idx_ok_def data_in_def)
  obtain ds1 where 1: "regen_at a ds = Some ds1" "idx_ext (ds, None) (ds1, None)" "a \<in> idx_known (ds1, None)"
    using regen_at_law[OF s(2)] by blast
  then have "b < length ds1" using s(3) by (simp add: idx_ext_def)
  then obtain ds2 where 2: "regen_at b ds1 = Some ds2" "idx_ext (ds1, None) (ds2, None)" "b \<in> idx_known (ds2, None)"
    using regen_at_law by blast
  have "a < length ds2" "b < length ds2" "a \<in> idx_known (ds2, None)"
    using 1 2 s idx_ext_known[OF 2(2)] by (auto simp: idx_ext_def)
  then have "cmp_idx a b s = Some (scast (idx (ds2 ! a)) - scast (idx (ds2 ! b)), (ds2, None))"
    using 1(1) 2(1) by (simp add: cmp_idx_def s)
  moreover have "sint (scast (idx (ds2 ! a)) - scast (idx (ds2 ! b)) :: ee_s32) \<le> 0 \<longleftrightarrow>
      idx_key (ds2, None) a \<le> idx_key (ds2, None) b"
    unfolding sint_diff_32 idx_key_def by simp
  ultimately show "\<exists>c t. cmp_idx a b s = Some (c, t) \<and> idx_ok t \<and> idx_ext s t \<and> a \<in> idx_known t \<and> b \<in> idx_known t \<and>
      (sint c \<le> 0 \<longleftrightarrow> idx_key t a \<le> idx_key t b)"
    using \<open>a \<in> idx_known (ds2, None)\<close> 2(3) idx_ext_trans[OF 1(2) 2(2)]
    by (auto simp: idx_ok_def s intro!: exI[of _ ds2])
next
  show "idx_ext s u" if "idx_ext s t" "idx_ext t u" for s t u using that by (rule idx_ext_trans)
  show "idx_known s \<subseteq> idx_known t" if "idx_ext s t" for s t using that by (rule idx_ext_known)
qed (simp_all add: idx_ext_def data_in_def idx_key_def)

section \<open>Comparing by calculated value\<close>

text \<open>When the result block can run the two benchmarks.  Equal seeds other than a comma restore every
  \<open>NUL\<close> byte of the state input, so any number of runs stays inside the block.\<close>

definition res_ok :: "core_results \<Rightarrow> bool" where
  "res_ok r \<longleftrightarrow> mats_ok (mat r) \<and> unat (res_size r) \<le> length (state_block r) \<and> two_nuls (state_block r) \<and>
     seed1 r = seed2 r \<and> ucast (seed2 r) \<noteq> c_comma"

text \<open>What a run of the benchmarks leaves alone.\<close>

definition res_ext :: "core_results \<Rightarrow> core_results \<Rightarrow> bool" where
  "res_ext r r' \<longleftrightarrow> seed1 r' = seed1 r \<and> seed2 r' = seed2 r \<and> seed3 r' = seed3 r \<and> res_size r' = res_size r \<and>
     length (state_block r') = length (state_block r) \<and> iterations r' = iterations r \<and> execs r' = execs r \<and>
     res_list r' = res_list r \<and> mat_N (mat r') = mat_N (mat r) \<and> mat_A (mat r') = mat_A (mat r) \<and>
     mat_B (mat r') = mat_B (mat r) \<and> crclist r' = crclist r \<and> err r' = err r"

definition val_ok :: "cmp_state \<Rightarrow> bool" where
  "val_ok s \<longleftrightarrow> (\<exists>r. snd s = Some r \<and> res_ok r)"

definition val_known :: "cmp_state \<Rightarrow> nat set" where
  "val_known s = {a. a < length (fst s) \<and> bit (data16 (fst s ! a)) 7}"

definition val_key :: "cmp_state \<Rightarrow> nat \<Rightarrow> int" where
  "val_key s a = sint (data16 (fst s ! a) AND 0x7f)"

definition val_ext :: "cmp_state \<Rightarrow> cmp_state \<Rightarrow> bool" where
  "val_ext s t \<longleftrightarrow> length (fst t) = length (fst s) \<and> rel_option res_ext (snd s) (snd t) \<and>
     (\<forall>a. idx (fst t ! a) = idx (fst s ! a) \<and> data16 (fst t ! a) AND 0xff00 = data16 (fst s ! a) AND 0xff00 \<and>
        (bit (data16 (fst s ! a)) 7 \<longrightarrow> data16 (fst t ! a) = data16 (fst s ! a)))"

lemma two_nuls_restored:
  assumes "two_nuls m" "ucast seed \<noteq> c_comma"
  shows "two_nuls (corrupted b seed step (corrupted b seed step m))"
proof -
  have "corrupted b seed step (corrupted b seed step m) ! i = 0" if "i < length m" "m ! i = 0" for i
    using that assms(2) by (simp add: nth_corrupted xor.assoc)
  with assms(1) show ?thesis by (auto simp: two_nuls_def)
qed

lemma res_ext_refl: "res_ext r r"
  by (simp add: res_ext_def)

lemma res_ext_trans: "res_ext r s \<Longrightarrow> res_ext s t \<Longrightarrow> res_ext r t"
  by (simp add: res_ext_def)

lemma calc_op_total:
  assumes "res_ok r"
  shows "\<exists>v r'. calc_op flag dtype data r = Some (v, r') \<and> res_ok r' \<and> res_ext r r'"
proof -
  consider "flag = 0" | "flag = 1" | "flag \<noteq> 0" "flag \<noteq> 1" by blast
  then show ?thesis
  proof cases
    case 1
    let ?d = "if sint dtype < 0x22 then 0x22 else dtype"
    have step: "2 \<le> sint ?d" by simp
    obtain c where c: "core_bench_state (res_size r) (state_block r) (seed1 r) (seed2 r) ?d (crc r) =
        Some (c, corrupted (res_size r) (seed2 r) ?d (corrupted (res_size r) (seed1 r) ?d (state_block r)))"
      using core_bench_state_total[of ?d "res_size r" "state_block r" "seed1 r" "seed2 r" "crc r"]
        assms step two_nuls_corrupted[of "state_block r" ?d] by (auto simp: res_ok_def two_nuls_nul)
    have "two_nuls (corrupted (res_size r) (seed2 r) ?d (corrupted (res_size r) (seed1 r) ?d (state_block r)))"
      using assms by (auto simp: res_ok_def intro: two_nuls_restored)
    with c assms 1 show ?thesis
      by (simp add: calc_op_def Let_def res_ok_def res_ext_def)
  next
    case 2
    obtain c C' where "core_bench_matrix (mat r) dtype (crc r) = Some (c, mat r\<lparr>mat_C := C'\<rparr>)"
        "mats_ok (mat r\<lparr>mat_C := C'\<rparr>)"
      using matrix_benchmark_restores[of "mat r" dtype "crc r"] assms unfolding res_ok_def by blast
    with assms 2 show ?thesis by (simp add: calc_op_def Let_def res_ok_def res_ext_def)
  next
    case 3
    with assms show ?thesis by (simp add: calc_op_def res_ext_refl)
  qed
qed


lemma val_ext_refl: "val_ext s s"
  by (simp add: val_ext_def option.rel_refl res_ext_refl)

lemma calc_func_law:
  assumes "val_ok s" "a \<in> data_in s"
  shows "\<exists>v t. calc_func a s = Some (v, t) \<and> val_ok t \<and> val_ext s t \<and> a \<in> val_known t \<and>
     v = data16 (fst t ! a) AND 0x7f"
proof -
  obtain ds r where s: "s = (ds, Some r)" "res_ok r" "a < length ds"
    using assms by (cases s) (auto simp: val_ok_def data_in_def)
  let ?d = "data16 (ds ! a)"
  show ?thesis
  proof (cases "bit ?d 7")
    case True
    then have "calc_func a s = Some (?d AND 0x7f, s)"
      using s(1,3) by (simp add: calc_func_def cache_flag)
    moreover have "a \<in> val_known s" using True s(1,3) by (simp add: val_known_def)
    ultimately show ?thesis using s(1) assms(1) val_ext_refl by (intro exI[of _ "?d AND 0x7f"] exI[of _ s]) simp
  next
    case False
    let ?t = "signed_drop_bit 3 ?d AND 0xf"
    obtain v r1 where op: "calc_op (?d AND 0x7) (?t OR push_bit 4 ?t) ?d r = Some (v, r1)" "res_ok r1" "res_ext r r1"
      using calc_op_total[OF s(2)] by blast
    let ?r = "r1\<lparr>crc := crcu16 v (crc r1)\<rparr>"
    let ?v = "(?d AND 0xff00) OR 0x0080 OR (v AND 0x007f)"
    let ?ds = "ds[a := (ds ! a)\<lparr>data16 := ?v\<rparr>]"
    have run: "calc_func a s = Some (v AND 0x7f, (?ds, Some ?r))"
      using s(1,3) False op(1) by (simp add: calc_func_def cache_flag Let_def)
    have r: "res_ok ?r" using op(2) by (simp add: res_ok_def)
    have r2: "res_ext r ?r" using op(3) by (simp add: res_ext_def)
    have "val_ext s (?ds, Some ?r)"
      using s(1,3) r2 False cached_value(3)[of ?d v] by (auto simp: val_ext_def nth_list_update)
    moreover have "a \<in> val_known (?ds, Some ?r)" using s(3) cached_value(1)[of ?d v] by (simp add: val_known_def)
    moreover have "v AND 0x7f = data16 (?ds ! a) AND 0x7f" using s(3) cached_value(2)[of ?d v] by simp
    moreover have "val_ok (?ds, Some ?r)" using r by (simp add: val_ok_def)
    ultimately show ?thesis using run by (intro exI[of _ "v AND 0x7f"] exI[of _ "(?ds, Some ?r)"]) simp
  qed
qed

lemma val_ext_trans: "val_ext s t \<Longrightarrow> val_ext t u \<Longrightarrow> val_ext s u"
  unfolding val_ext_def using res_ext_trans
  by (intro conjI) (simp, blast intro: option.rel_transp[THEN transpD] transpI, simp)

lemma val_ext_keeps: "val_ext s t \<Longrightarrow> a \<in> val_known s \<Longrightarrow> a \<in> val_known t \<and> val_key t a = val_key s a"
  by (auto simp: val_ext_def val_known_def val_key_def)

interpretation by_val: comparator cmp_complex val_ok data_in val_known val_key val_ext
proof unfold_locales
  fix s a b assume ok: "val_ok s" "a \<in> data_in s" "b \<in> data_in s"
  obtain v t where 1: "calc_func a s = Some (v, t)" "val_ok t" "val_ext s t" "a \<in> val_known t"
      "v = data16 (fst t ! a) AND 0x7f" using calc_func_law[OF ok(1,2)] by blast
  then have "b \<in> data_in t" using ok(3) by (simp add: val_ext_def data_in_def)
  then obtain w u where 2: "calc_func b t = Some (w, u)" "val_ok u" "val_ext t u" "b \<in> val_known u"
      "w = data16 (fst u ! b) AND 0x7f" using calc_func_law[OF 1(2)] by blast
  have a: "a \<in> val_known u" "sint v = val_key u a" "sint w = val_key u b"
    using val_ext_keeps[OF 2(3) 1(4)] 1(5) 2(5) by (simp_all add: val_key_def)
  have "sint (scast v - scast w :: ee_s32) \<le> 0 \<longleftrightarrow> val_key u a \<le> val_key u b"
    unfolding sint_diff_32 a(2,3) by simp
  then show "\<exists>c t. cmp_complex a b s = Some (c, t) \<and> val_ok t \<and> val_ext s t \<and> a \<in> val_known t \<and>
      b \<in> val_known t \<and> (sint c \<le> 0 \<longleftrightarrow> val_key t a \<le> val_key t b)"
    using 1 2 a(1) val_ext_trans[OF 1(3) 2(3)] by (simp add: cmp_complex_def)
next
  show "val_ext s u" if "val_ext s t" "val_ext t u" for s t u using that by (rule val_ext_trans)
  show "val_known s \<subseteq> val_known t" if "val_ext s t" for s t using val_ext_keeps[OF that] by blast
  show "val_key t a = val_key s a" if "val_ext s t" "a \<in> val_known s" for s t a
    using val_ext_keeps[OF that] by blast
  show "val_ext s s" for s by (rule val_ext_refl)
qed (simp add: val_ext_def data_in_def)

section \<open>The searches\<close>

text \<open>The heap \<open>h'\<close> holds the cells \<open>xs\<close> of \<open>h\<close> in some order from \<open>p\<close> on.\<close>

definition rearranged :: "heads \<Rightarrow> nat list \<Rightarrow> heads \<Rightarrow> nat option \<Rightarrow> nat list \<Rightarrow> bool" where
  "rearranged h xs h' p ys \<longleftrightarrow> chain h' p ys None \<and> mset ys = mset xs \<and> relinked (set xs) h h'"

lemma rearranged_trans:
  "rearranged h xs h1 p ys \<Longrightarrow> rearranged h1 ys h2 q zs \<Longrightarrow> rearranged h xs h2 q zs"
  unfolding rearranged_def by (metis mset_distinct(2) relinked_trans)

lemma rearranged_facts:
  assumes "rearranged h xs h' p ys"
  shows "chain h' p ys None" "set ys = set xs" "length ys = length xs" "distinct ys = distinct xs"
    "info (h' ! x) = info (h ! x)"
  using assms mset_distinct[of ys xs] mset_eq_length[of ys xs] relinked_info[of "set xs" h h' x]
  by (simp_all add: rearranged_def)

lemma cache_next_spec:
  assumes "chain h p ys None" "distinct ys" "t \<in> set ys"
  shows "\<exists>h' zs. cache_next h (Some t) p = Some h' \<and> rearranged h ys h' p zs"
proof -
  obtain as bs where ys: "ys = as @ t # bs" using assms(3) by (auto simp: in_set_conv_decomp)
  show ?thesis
  proof (cases bs)
    case Nil
    with assms(1) ys have "cache_next h (Some t) p = Some h" by (simp add: cache_next_def)
    with assms(1) show ?thesis by (auto simp: rearranged_def)
  next
    case (Cons f cs)
    have f: "f < length h" "t < length h" "link (h ! t) = Some f" "t \<noteq> f"
      using assms(1,2) by (auto simp: ys Cons)
    show ?thesis
    proof (cases as)
      case Nil
      let ?h = "h[t := (h ! t)\<lparr>link := link (h ! f)\<rparr>, f := (h ! f)\<lparr>link := link (h ! f)\<rparr>, t := (h ! t)\<lparr>link := Some f\<rparr>]"
      have "cache_next h (Some t) p = Some ?h" using assms(1) f by (simp add: cache_next_def ys Nil Cons)
      moreover have "rearranged h ys ?h p ys"
        using assms(1,2) f by (auto simp: rearranged_def ys Nil Cons relinked_def nth_list_update)
      ultimately show ?thesis by blast
    next
      case as: (Cons y0 as1)
      let ?h = "h[t := (h ! t)\<lparr>link := link (h ! f)\<rparr>, f := (h ! f)\<lparr>link := link (h ! y0)\<rparr>, y0 := (h ! y0)\<lparr>link := Some f\<rparr>]"
      have y0: "y0 < length h" "y0 \<noteq> t" "y0 \<noteq> f" "p = Some y0" using assms(1,2) by (auto simp: ys as Cons)
      have "cache_next h (Some t) p = Some ?h" using y0 f by (simp add: cache_next_def)
      moreover have "rearranged h ys ?h p (y0 # f # as1 @ t # cs)"
        using assms(1,2) f y0 by (auto simp: rearranged_def ys as Cons relinked_def nth_list_update)
      ultimately show ?thesis by blast
    qed
  qed
qed

lemma find_body_spec:
  assumes "chain h p xs None" "distinct xs" "2 \<le> length xs" "\<And>x. x \<in> set xs \<Longrightarrow> info (h ! x) < length ds"
  shows "\<exists>p' h' ys retval' found' missed' tgt'. find_body ds i (p, h, retval, found, missed, tgt) =
     Some (p', h', retval', found', missed', tgt') \<and> rearranged h xs h' p' ys"
proof -
  let ?i = "tgt\<lparr>data16 := of_nat i AND 0xff\<rparr>"
  define tf where "tf = hd_ptr (dropWhile (\<lambda>x. find_differs ?i (ds ! info (h ! x))) xs)"
  have find: "core_list_find h ds p ?i = Some tf"
    using core_list_find_spec[OF assms(1,4)] by (simp add: tf_def)
  obtain h1 where rev: "core_list_reverse h p = Some (hd_ptr (rev xs), h1)"
      "chain h1 (hd_ptr (rev xs)) (rev xs) None" "relinked (set xs) h h1"
    using core_list_reverse_spec[OF assms(1,2)] by blast
  then have r1: "rearranged h xs h1 (hd_ptr (rev xs)) (rev xs)" by (simp add: rearranged_def)
  have infos: "info (h1 ! x) < length ds" if "x \<in> set xs" for x
    using assms(4)[OF that] relinked_info[OF rev(3)] by simp
  show ?thesis
  proof (cases tf)
    case None
    obtain a b cs where ab: "rev xs = a # b # cs"
      using assms(3) by (metis length_rev Suc_le_length_iff numeral_2_eq_2)
    then have "b \<in> set xs" by (metis list.set_intros(1,2) set_rev)
    then have "get_link h1 (hd_ptr (rev xs)) = Some (Some b)" "get_info h1 (Some b) = Some (info (h1 ! b))"
        "aread ds (info (h1 ! b)) = Some (ds ! info (h1 ! b))"
      using rev(2) infos by (auto simp: ab)
    then show ?thesis using find rev(1) None r1
      by (auto simp: find_body_def Let_def intro!: exI[of _ "rev xs"])
  next
    case (Some t)
    then obtain ws where "dropWhile (\<lambda>x. find_differs ?i (ds ! info (h ! x))) xs = t # ws"
      unfolding tf_def by (cases "dropWhile (\<lambda>x. find_differs ?i (ds ! info (h ! x))) xs") auto
    then have t: "t \<in> set xs" by (metis list.set_intros(1) set_dropWhileD)
    then obtain h2 zs where c: "cache_next h1 (Some t) (hd_ptr (rev xs)) = Some h2"
        "rearranged h1 (rev xs) h2 (hd_ptr (rev xs)) zs"
      using cache_next_spec[OF rev(2), of t] assms(2) unfolding distinct_rev set_rev by blast
    have "t < length h1" using chain_valid[OF rev(2)] t by simp
    then have "get_info h1 (Some t) = Some (info (h1 ! t))" "aread ds (info (h1 ! t)) = Some (ds ! info (h1 ! t))"
      using infos[OF t] by simp_all
    moreover have "rearranged h xs h2 (hd_ptr (rev xs)) zs" using rearranged_trans[OF r1 c(2)] .
    ultimately show ?thesis using find rev(1) Some c(1)
      by (auto simp: find_body_def Let_def intro!: exI[of _ zs])
  qed
qed

lemma find_loop_spec:
  assumes "chain h p xs None" "distinct xs" "2 \<le> length xs" "\<And>x. x \<in> set xs \<Longrightarrow> info (h ! x) < length ds"
  shows "\<exists>p' h' ys retval' found' missed' tgt'. for_loop 0 n (find_body ds) (p, h, retval, found, missed, tgt) =
     Some (p', h', retval', found', missed', tgt') \<and> rearranged h xs h' p' ys"
proof -
  let ?P = "\<lambda>(j :: nat) (p', h', (r :: ee_u16), (f :: ee_u16), (m :: ee_u16), (tgt :: list_data)). \<exists>ys. rearranged h xs h' p' ys"
  have "\<exists>s. for_loop 0 n (find_body ds) (p, h, retval, found, missed, tgt) = Some s \<and> ?P n s"
  proof (rule for_loop_rule)
    show "?P 0 (p, h, retval, found, missed, tgt)" using assms(1) by (auto simp: rearranged_def)
  next
    fix j t assume "?P j t"
    then obtain p1 h1 r f m tgt1 ys where t: "t = (p1, h1, r, f, m, tgt1)" and ys: "rearranged h xs h1 p1 ys"
      by (cases t) auto
    note fs = rearranged_facts[OF ys]
    from find_body_spec[OF fs(1), of ds j r f m tgt1] fs assms
    obtain p2 h2 zs r2 f2 m2 tgt2 where "find_body ds j t = Some (p2, h2, r2, f2, m2, tgt2)" "rearranged h1 ys h2 p2 zs"
      by (auto simp: t)
    with rearranged_trans[OF ys] show "\<exists>t'. find_body ds j t = Some t' \<and> ?P (Suc j) t'" by auto
  qed simp
  then show ?thesis by auto
qed

lemma crc_walk_total:
  assumes "chain h q xs None" "x < length h" "info (h ! x) < length ds"
  shows "\<exists>r. crc_walk h ds (Some x) q retval = Some r"
proof -
  let ?loop = "while_loop (\<lambda>(finder, retval). Some (finder \<noteq> None))
     (\<lambda>(finder, retval). do { d \<leftarrow> Option.bind (get_info h (Some x)) (aread ds); n \<leftarrow> get_link h finder;
        Some (n, crc16 (data16 d) retval) })"
  have "\<exists>r. ?loop (q, retval) = Some r"
    using assms(1)
  proof (induction xs arbitrary: q retval)
    case Nil
    then show ?case by (subst while_loop.simps) simp
  next
    case (Cons y ys)
    from Cons.IH[of "link (h ! y)" "crc16 (data16 (ds ! info (h ! x))) retval"] Cons.prems assms(2,3)
    show ?case by (subst while_loop.simps) simp
  qed
  then show ?thesis by (auto simp: crc_walk_def)
qed

section \<open>The benchmark restores the list\<close>

text \<open>Taking the second cell out, searching and walking the rest, and putting it back.\<close>

lemma remove_walk_undo:
  assumes "chain h p xs None" "distinct xs" "3 \<le> length xs" "\<And>x. x \<in> set xs \<Longrightarrow> info (h ! x) < length ds"
  obtains a b h' f n r where "get_link h p = Some a" "core_list_remove h a = Some (b, h')"
    "core_list_find h' ds p i = Some f" "(if f = None then get_link h' p else Some f) = Some n"
    "crc_walk h' ds p n retval = Some r" "get_link h' p = Some a" "core_list_undo_remove h' b a = Some (b, h)"
proof -
  obtain c a b rest where xs: "xs = c # a # b # rest"
    using assms(3) by (metis Suc_le_length_iff numeral_3_eq_3)
  have p: "p = Some c" "c < length h" "a \<noteq> b" "a < length h" "b < length h" "link (h ! a) = Some b"
      "link (h ! c) = Some a" "c \<noteq> a" "c \<noteq> b"
    using assms(1,2) by (auto simp: xs)
  let ?h = "h[a := (h ! a)\<lparr>info := info (h ! b), link := link (h ! b)\<rparr>,
       b := (h ! b)\<lparr>info := info (h ! a), link := None\<rparr>]"
  have rem: "core_list_remove h (Some a) = Some (Some b, ?h)" using p by (intro core_list_remove_spec)
  have chain: "chain ?h p (c # a # rest) None" using assms(1,2) p by (auto simp: xs)
  have infos: "info (?h ! x) < length ds" if "x \<in> set (c # a # rest)" for x
    using that assms(2) p assms(4)[of c] assms(4)[of a] assms(4)[of b] assms(4)[of x]
    by (auto simp: xs nth_list_update)
  let ?zs = "dropWhile (\<lambda>x. find_differs i (ds ! info (?h ! x))) (c # a # rest)"
  have find: "core_list_find ?h ds p i = Some (hd_ptr ?zs)" by (rule core_list_find_spec[OF chain infos])
  have l: "get_link ?h p = Some (Some a)" using p by simp
  have "\<exists>n ys. (if hd_ptr ?zs = None then get_link ?h p else Some (hd_ptr ?zs)) = Some n \<and> chain ?h n ys None"
  proof (cases "?zs")
    case Nil
    then show ?thesis using l chain by (intro exI[of _ "Some a"] exI[of _ "a # rest"]) simp
  next
    case (Cons z zs)
    have "c # a # rest = takeWhile (\<lambda>x. find_differs i (ds ! info (?h ! x))) (c # a # rest) @ z # zs"
      using Cons takeWhile_dropWhile_id[of "\<lambda>x. find_differs i (ds ! info (?h ! x))" "c # a # rest"] by (simp only:)
    then obtain us where "c # a # rest = us @ z # zs" by blast
    then have "chain ?h p (us @ z # zs) None" using chain by (simp only:)
    then have "chain ?h (Some z) (z # zs) None" unfolding chain_append by auto
    then show ?thesis using Cons by (intro exI[of _ "Some z"] exI[of _ "z # zs"]) simp
  qed
  then obtain n ys where n: "(if hd_ptr ?zs = None then get_link ?h p else Some (hd_ptr ?zs)) = Some n" "chain ?h n ys None"
    by blast
  have "c < length ?h" "info (?h ! c) < length ds" using p infos[of c] by simp_all
  from crc_walk_total[OF n(2) this, of retval] obtain r where r: "crc_walk ?h ds p n retval = Some r"
    using p(1) by blast
  have undo: "core_list_undo_remove ?h (Some b) (Some a) = Some (Some b, h)"
    using remove_undo[of a b h] rem p by simp
  show ?thesis
    by (rule that[of "Some a" "Some b" ?h "hd_ptr ?zs" n r]) (use p rem find n r l undo in simp_all)
qed

text \<open>A well-formed list: sorted strictly by index, every data word its own backup.\<close>

definition list_ok :: "heads \<Rightarrow> datas \<Rightarrow> nat option \<Rightarrow> nat list \<Rightarrow> bool" where
  "list_ok h ds p xs \<longleftrightarrow> chain h p xs None \<and> distinct xs \<and> 3 \<le> length xs \<and> length xs < 2 ^ 31 \<and>
     (\<forall>x \<in> set xs. info (h ! x) < length ds \<and> regen (data16 (ds ! info (h ! x))) = data16 (ds ! info (h ! x))) \<and>
     sorted_wrt (<) (map (\<lambda>x. sint (idx (ds ! info (h ! x)))) xs)"

lemma sort_key_strict:
  assumes "mset ys = mset xs" "sorted_wrt (<) (map f xs)"
  shows "sort_key f ys = (xs :: 'a list)"
proof -
  have d: "distinct (map f xs)" "sorted (map f xs)"
    using assms(2) strict_sorted_iff[of "map f xs"] by auto
  show ?thesis
  proof (rule sort_key_inj_key_eq[OF assms(1)])
    show "inj_on f (set ys)" using d(1) mset_distinct(2)[OF assms(1)] by (simp add: distinct_map)
  qed (rule d(2))
qed

text \<open>The middle of the benchmark: search, sort by value unless \<open>finder_idx\<close> is negative.\<close>

lemma sort_by_value:
  assumes "chain h p ys None" "distinct ys" "ys \<noteq> []" "length ys < 2 ^ 31"
    and "\<And>x. x \<in> set ys \<Longrightarrow> info (h ! x) < length ds" "res_ok res"
  shows "\<exists>p' h' ds' res' zs. (if b then core_list_mergesort cmp_complex h p (ds, Some res)
       else Some (p, h, ds, Some res)) = Some (p', h', ds', Some res') \<and> rearranged h ys h' p' zs \<and>
     val_ext (ds, Some res) (ds', Some res') \<and> res_ok res'"
proof (cases b)
  case True
  have "val_ok (ds, Some res)" "(\<lambda>x. info (h ! x)) ` set ys \<subseteq> data_in (ds, Some res)"
    using assms(5,6) by (auto simp: val_ok_def data_in_def)
  from by_val.core_list_mergesort_sorts[OF this(1) assms(1-4) this(2)]
  obtain zs h' t where r: "core_list_mergesort cmp_complex h p (ds, Some res) = Some (hd_ptr zs, h', t)"
     "zs = sort_key (\<lambda>x. val_key t (info (h ! x))) ys" "chain h' (hd_ptr zs) zs None"
     "relinked (set ys) h h'" "val_ok t" "val_ext (ds, Some res) t" by blast
  obtain ds' res' where t: "t = (ds', Some res')" "res_ok res'"
    using r(5) by (cases t) (auto simp: val_ok_def)
  have "rearranged h ys h' (hd_ptr zs) zs" using r(2-4) by (simp add: rearranged_def)
  then show ?thesis using True r(1,6) t by auto
next
  case False
  with assms show ?thesis by (auto simp: rearranged_def val_ext_refl)
qed

lemma bench_list_restores:
  assumes ok: "list_ok h ds (res_list res) xs" and res: "res_ok res"
  shows "\<exists>ret ds' res'. core_bench_list h ds res finder_idx = Some (ret, h, ds', res') \<and>
     length ds' = length ds \<and> (\<forall>x \<in> set xs. ds' ! info (h ! x) = ds ! info (h ! x)) \<and>
     res_ok res' \<and> res_ext res res'"
proof -
  note l = ok[unfolded list_ok_def]
  have c0: "chain h (res_list res) xs None" "distinct xs" "3 \<le> length xs" "length xs < 2 ^ 31"
    and in0: "\<And>x. x \<in> set xs \<Longrightarrow> info (h ! x) < length ds" using l by auto
  have two: "2 \<le> length xs" using c0(3) by simp
  obtain p1 h1 ys1 rv1 fo1 mi1 tgt1 where s1: "for_loop 0 (nat (sint (seed3 res))) (find_body ds)
       (res_list res, h, 0, 0, 0, \<lparr>data16 = 0, idx = finder_idx\<rparr>) = Some (p1, h1, rv1, fo1, mi1, tgt1)"
     and r1: "rearranged h xs h1 p1 ys1"
    using find_loop_spec[OF c0(1,2) two in0] by blast
  note f1 = rearranged_facts[OF r1]
  have in1: "info (h1 ! x) < length ds" if "x \<in> set ys1" for x using that in0 f1 by simp
  have d1: "distinct ys1" "ys1 \<noteq> []" "length ys1 < 2 ^ 31" using f1 c0 by auto
  obtain p2 h2 ds2 res2 ys2 where s2: "(if 0 < sint finder_idx
        then core_list_mergesort cmp_complex h1 p1 (ds, Some res) else Some (p1, h1, ds, Some res)) =
        Some (p2, h2, ds2, Some res2)" and r2: "rearranged h1 ys1 h2 p2 ys2"
     and v2: "val_ext (ds, Some res) (ds2, Some res2)" "res_ok res2"
    using sort_by_value[OF f1(1) d1 in1 res, of "0 < sint finder_idx"] by blast
  have r02: "rearranged h xs h2 p2 ys2" using rearranged_trans[OF r1 r2] .
  note f2 = rearranged_facts[OF r02]
  have len2: "length ds2 = length ds" using v2(1) by (simp add: val_ext_def)
  have in2: "info (h2 ! x) < length ds2" if "x \<in> set ys2" for x using that in0 f2 len2 by simp
  have d2: "distinct ys2" "3 \<le> length ys2" "ys2 \<noteq> []" "length ys2 < 2 ^ 31" using f2 c0 by auto
  obtain a b h3 f n rv3 where s3: "get_link h2 p2 = Some a" "core_list_remove h2 a = Some (b, h3)"
    "core_list_find h3 ds2 p2 tgt1 = Some f" "(if f = None then get_link h3 p2 else Some f) = Some n"
    "crc_walk h3 ds2 p2 n (rv1 + (fo1 * 4 - mi1)) = Some rv3" "get_link h3 p2 = Some a"
    "core_list_undo_remove h3 b a = Some (b, h2)"
    using remove_walk_undo[OF f2(1) d2(1,2) in2] by blast
  have "idx_ok (ds2, None)" "(\<lambda>x. info (h2 ! x)) ` set ys2 \<subseteq> data_in (ds2, None)"
    using in2 by (auto simp: idx_ok_def data_in_def)
  from by_idx.core_list_mergesort_sorts[OF this(1) f2(1) d2(1,3,4) this(2)]
  obtain zs h4 t where s4: "core_list_mergesort cmp_idx h2 p2 (ds2, None) = Some (hd_ptr zs, h4, t)"
     "zs = sort_key (\<lambda>x. idx_key t (info (h2 ! x))) ys2" "chain h4 (hd_ptr zs) zs None"
     "relinked (set ys2) h2 h4" "idx_ok t" "idx_ext (ds2, None) t"
     "(\<lambda>x. info (h2 ! x)) ` set ys2 \<subseteq> idx_known t" using d2(2) by auto
  obtain ds4 where t: "t = (ds4, None)" using s4(5) by (cases t) (simp add: idx_ok_def)
  have e4: "length ds4 = length ds" "\<And>a. idx (ds4 ! a) = idx (ds2 ! a)"
    "\<And>a. data16 (ds4 ! a) = data16 (ds2 ! a) \<or> data16 (ds4 ! a) = regen (data16 (ds2 ! a))"
    using s4(6) len2 by (auto simp: t idx_ext_def)
  have e2: "\<And>a. idx (ds2 ! a) = idx (ds ! a)" "\<And>a. data16 (ds2 ! a) AND 0xff00 = data16 (ds ! a) AND 0xff00"
    using v2(1) by (auto simp: val_ext_def)
  have "zs = sort_key (\<lambda>x. sint (idx (ds ! info (h ! x)))) ys2"
    using s4(2) by (simp add: t idx_key_def e4(2) e2(1) f2(5))
  also have "\<dots> = xs" using r02 l by (intro sort_key_strict) (auto simp: rearranged_def)
  finally have zs: "zs = xs" .
  have "relinked (set xs) h h4" using r02 s4(4) f2(2) relinked_trans by (auto simp: rearranged_def)
  moreover have head: "hd_ptr xs = res_list res" using chain_hd_ptr[OF c0(1)] by simp
  ultimately have h4: "h4 = h" using s4(3) c0(1) zs by (intro relinked_same_chain) simp_all
  have data: "ds4 ! info (h ! x) = ds ! info (h ! x)" if x: "x \<in> set xs" for x
  proof -
    let ?a = "info (h ! x)"
    have known: "regen (data16 (ds4 ! ?a)) = data16 (ds4 ! ?a)"
      using s4(7) x f2 by (auto simp: t idx_known_def)
    have "regen (data16 (ds4 ! ?a)) = regen (data16 (ds2 ! ?a))" using e4(3)[of ?a] by auto
    also have "\<dots> = regen (data16 (ds ! ?a))" using e2(2) by (rule regen_cong)
    also have "\<dots> = data16 (ds ! ?a)" using l x by auto
    finally have "data16 (ds4 ! ?a) = data16 (ds ! ?a)" using known by simp
    then show ?thesis using e4(2) e2(1) by (intro list_data.equality) simp_all
  qed
  obtain c b1 rest where xs: "xs = c # b1 # rest" using two by (metis Suc_le_length_iff numeral_2_eq_2)
  have c: "res_list res = Some c" "c < length h" "info (h ! c) < length ds4" "get_link h (Some c) = Some (link (h ! c))"
    "chain h (link (h ! c)) (b1 # rest) None"
    using c0(1) in0[of c] e4(1) by (auto simp: xs)
  have n: "get_link h (res_list res) = Some (link (h ! c))" using c(1,4) by simp
  obtain ret where s5: "crc_walk h ds4 (res_list res) (link (h ! c)) rv3 = Some ret"
    using crc_walk_total[OF c(5,2,3)] c(1) by auto
  have "core_bench_list h ds res finder_idx = Some (ret, h, ds4, res2)"
    unfolding core_bench_list_def Let_def s1 bind.bind_lunit prod.case s2 s3 s3(4)[unfolded s3(6)] s4(1)[unfolded zs h4 head t] n s5
    by (rule refl)
  moreover have "res_ext res res2" using v2(1) by (simp add: val_ext_def)
  ultimately show ?thesis using e4(1) data v2(2) by blast
qed

section \<open>The generated list\<close>

lemma regen_doubled:
  assumes "\<And>n. bit (d :: ee_s16) n \<Longrightarrow> n < 8"
  shows "regen (push_bit 8 d OR d) = push_bit 8 d OR d"
proof (rule bit_word_eqI)
  fix n assume "n < LENGTH(16)"
  then show "bit (regen (push_bit 8 d OR d)) n = bit (push_bit 8 d OR d) n"
    unfolding bit_regen bit_or_iff bit_push_bit_iff using assms[of n] assms[of "n + 8"] assms[of "n - 8"] by auto
qed

lemma regen_consts: "regen 0x8080 = 0x8080" "regen 0xffff = 0xffff"
  by (simp_all add: regen_def)

lemma regen_init_data: "regen (init_data seed i) = init_data seed i"
  unfolding init_data_def Let_def
proof (rule regen_doubled)
  fix n
  have f: "bit (0xf :: ee_s16) n \<longleftrightarrow> n < 4" and t: "bit (0x7 :: ee_u32) n \<longleftrightarrow> n < 3" for n
    using bit_mask_iff[of 4 n, where 'a = ee_s16] bit_mask_iff[of 3 n, where 'a = ee_u32]
    by (auto simp: mask_eq_exp_minus_1)
  assume "bit (push_bit 3 (ucast (scast seed XOR of_nat i :: ee_u32) AND 0xf) OR ucast (of_nat i AND 0x7 :: ee_u32) :: ee_s16) n"
  then have "(3 \<le> n \<and> bit (0xf :: ee_s16) (n - 3)) \<or> bit (0x7 :: ee_u32) n"
    unfolding bit_or_iff bit_push_bit_iff bit_and_iff bit_unsigned_iff by blast
  then show "n < 8" unfolding f t by auto
qed

text \<open>The memory after \<open>m\<close> cells have been placed.\<close>

definition placed :: "nat \<Rightarrow> nat \<Rightarrow> heads \<times> datas \<times> nat \<times> nat \<Rightarrow> bool" where
  "placed sz m = (\<lambda>(h, ds, mb, db). mb = m \<and> db = m \<and> 1 \<le> m \<and> m < sz \<and> length h = sz \<and> length ds = sz \<and>
     chain h (Some 0) (0 # rev [1..<m]) None \<and> (\<forall>x < m. info (h ! x) = x \<and> regen (data16 (ds ! x)) = data16 (ds ! x)) \<and>
     idx (ds ! 0) = 0 \<and> (\<forall>x. 1 \<le> x \<and> x < m \<longrightarrow> idx (ds ! x) = 0x7fff))"

lemma insert_places:
  assumes "placed sz m s" "idx i = 0x7fff" "regen (data16 i) = data16 i"
  shows "\<exists>r s'. core_list_insert_new (Some 0) i sz sz s = Some (r, s') \<and> placed sz (min (Suc m) (sz - 1)) s'"
proof -
  obtain h ds where s: "s = (h, ds, m, m)" and p: "1 \<le> m" "m < sz" "length h = sz" "length ds = sz"
      "chain h (Some 0) (0 # rev [1..<m]) None" "\<And>x. x < m \<Longrightarrow> info (h ! x) = x \<and> regen (data16 (ds ! x)) = data16 (ds ! x)"
      "idx (ds ! 0) = 0" "\<And>x. 1 \<le> x \<Longrightarrow> x < m \<Longrightarrow> idx (ds ! x) = 0x7fff"
    using assms(1) by (cases s) (auto simp: placed_def)
  show ?thesis
  proof (cases "m + 1 \<ge> sz")
    case True
    then have "min (Suc m) (sz - 1) = m" using p(2) by simp
    with True assms(1) show ?thesis by (simp add: core_list_insert_new_def s)
  next
    case False
    then have m: "min (Suc m) (sz - 1) = Suc m" by simp
    let ?h = "h[m := (h ! m)\<lparr>link := link (h ! 0), info := m\<rparr>, 0 := (h ! 0)\<lparr>link := Some m\<rparr>]"
    let ?ds = "ds[m := (ds ! m)\<lparr>data16 := data16 i, idx := idx i\<rparr>]"
    have ins: "core_list_insert_new (Some 0) i sz sz s = Some (Some m, ?h, ?ds, m + 1, m + 1)"
      using False p(1-4) by (simp add: core_list_insert_new_def s Let_def copy_info_def list_update_swap[of 0 m])
    have "chain ?h (Some 0) (0 # rev [1..<Suc m]) None"
      using p(1-3,5) by simp
    moreover have "info (?h ! x) = x \<and> regen (data16 (?ds ! x)) = data16 (?ds ! x)" if "x < Suc m" for x
      using that p(1-4) p(6)[of x] p(6)[of 0] assms(3) by (auto simp: nth_list_update less_Suc_eq)
    moreover have "idx (?ds ! x) = 0x7fff" if "1 \<le> x" "x < Suc m" for x
      using that p(2,4) p(8)[of x] assms(2) by (auto simp: nth_list_update less_Suc_eq)
    moreover have "idx (?ds ! 0) = 0" using p(1,7) by simp
    ultimately have "placed sz (Suc m) (?h, ?ds, m + 1, m + 1)"
      using p(1-4) False by (simp add: placed_def del: chain.simps)
    with ins m show ?thesis by auto
  qed
qed

lemma insert_loop:
  assumes "placed sz m s"
  shows "\<exists>s'. for_loop 0 n (\<lambda>i s. map_option snd
       (core_list_insert_new (Some 0) \<lparr>data16 = init_data seed i, idx = 0x7fff\<rparr> sz sz s)) s = Some s' \<and>
     placed sz (min (m + n) (sz - 1)) s'"
proof -
  have "\<exists>s'. for_loop 0 n (\<lambda>i s. map_option snd
       (core_list_insert_new (Some 0) \<lparr>data16 = init_data seed i, idx = 0x7fff\<rparr> sz sz s)) s = Some s' \<and>
     (\<lambda>j. placed sz (min (m + j) (sz - 1))) n s'"
  proof (rule for_loop_rule)
    show "placed sz (min (m + 0) (sz - 1)) s" using assms by (auto simp: placed_def min_def)
  next
    fix j t assume t: "placed sz (min (m + j) (sz - 1)) t"
    have "min (Suc (min (m + j) (sz - 1))) (sz - 1) = min (m + Suc j) (sz - 1)" by auto
    with insert_places[OF t, of "\<lparr>data16 = init_data seed j, idx = 0x7fff\<rparr>"] regen_init_data
    show "\<exists>t'. map_option snd (core_list_insert_new (Some 0) \<lparr>data16 = init_data seed j, idx = 0x7fff\<rparr> sz sz t) = Some t' \<and>
        placed sz (min (m + Suc j) (sz - 1)) t'" by fastforce
  qed simp
  then show ?thesis by simp
qed

lemma index_loop:
  assumes "chain h p (zs @ [e]) None" "distinct (zs @ [e])" "\<And>x. x \<in> set zs \<Longrightarrow> info (h ! x) = x \<and> x < length ds"
  shows "\<exists>ds'. while_loop (\<lambda>(finder, i, ds). map_option (\<lambda>n. n \<noteq> None) (get_link h finder))
       (index_step h blkitems seed) (p, of_nat k, ds) = Some (Some e, of_nat (k + length zs), ds') \<and>
     length ds' = length ds \<and> (\<forall>x. x \<notin> set zs \<longrightarrow> ds' ! x = ds ! x) \<and>
     (\<forall>j < length zs. ds' ! (zs ! j) = (ds ! (zs ! j))\<lparr>idx := item_idx blkitems seed (of_nat (k + j))\<rparr>)"
  using assms
proof (induction zs arbitrary: p k ds)
  case Nil
  then show ?case by (subst while_loop.simps) auto
next
  case (Cons z zs)
  let ?ds = "ds[z := (ds ! z)\<lparr>idx := item_idx blkitems seed (of_nat k)\<rparr>]"
  have z: "p = Some z" "z < length h" "info (h ! z) = z" "z < length ds" "link (h ! z) = Some (hd (zs @ [e]))"
      "chain h (link (h ! z)) (zs @ [e]) None"
    using Cons.prems by (auto, cases zs, auto)
  have d: "distinct (zs @ [e])" and inb: "\<And>x. x \<in> set zs \<Longrightarrow> info (h ! x) = x \<and> x < length ?ds"
    using Cons.prems by auto
  obtain ds' where ds': "while_loop (\<lambda>(finder, i, ds). map_option (\<lambda>n. n \<noteq> None) (get_link h finder))
       (index_step h blkitems seed) (link (h ! z), of_nat (Suc k), ?ds) = Some (Some e, of_nat (Suc k + length zs), ds')"
     "length ds' = length ?ds" "\<And>x. x \<notin> set zs \<Longrightarrow> ds' ! x = ?ds ! x"
     "\<And>j. j < length zs \<Longrightarrow> ds' ! (zs ! j) = (?ds ! (zs ! j))\<lparr>idx := item_idx blkitems seed (of_nat (Suc k + j))\<rparr>"
    using Cons.IH[OF z(6) d inb, of "Suc k"] by blast
  have "index_step h blkitems seed (p, of_nat k, ds) = Some (link (h ! z), of_nat (Suc k), ?ds)"
    using z by (simp add: index_step_def)
  moreover have "get_link h p = Some (Some (hd (zs @ [e])))" using z by simp
  ultimately have "while_loop (\<lambda>(finder, i, ds). map_option (\<lambda>n. n \<noteq> None) (get_link h finder))
       (index_step h blkitems seed) (p, of_nat k, ds) = Some (Some e, of_nat (k + length (z # zs)), ds')"
    using ds'(1) by (subst while_loop.simps) simp
  moreover have "ds' ! ((z # zs) ! j) = (ds ! ((z # zs) ! j))\<lparr>idx := item_idx blkitems seed (of_nat (k + j))\<rparr>"
    if "j < length (z # zs)" for j
  proof (cases j)
    case 0
    then show ?thesis using ds'(3)[of z] Cons.prems(2) z(4) by simp
  next
    case (Suc i)
    then have "zs ! i \<noteq> z" using that Cons.prems(2) by (auto simp: in_set_conv_nth)
    then show ?thesis using ds'(4)[of i] that Suc by simp
  qed
  moreover have "ds' ! x = ds ! x" if "x \<notin> set (z # zs)" for x
    using that ds'(3)[of x] by (simp add: nth_list_update)
  ultimately show ?case using ds'(2)
    by (intro exI[of _ ds'] conjI allI impI) (assumption | simp only: length_list_update)+
qed


lemma item_idx_range:
  assumes "unat blkitems \<le> 10000" "unat i \<le> 10000"
  shows "0 \<le> sint (item_idx blkitems seed i) \<and> sint (item_idx blkitems seed i) < 0x7fff"
proof -
  have small: "0 \<le> sint w \<and> sint w < 0x7fff" if "uint w \<le> 0x3fff" for w :: ee_s16
  proof -
    have "sint w = uint w"
      using that order_trans[OF _ uint_ge_0, of "- 32768" w]
      by (simp only: sint_uint) (rule signed_take_bit_int_eq_self, simp_all)
    then show ?thesis using that by simp
  qed
  show ?thesis
  proof (cases "i < blkitems div 5")
    case True
    have "unat i < unat (blkitems div 5)" using True by (simp add: word_less_nat_alt)
    also have "\<dots> = unat blkitems div 5" by (simp add: unat_div)
    finally have "unat i < 0x3fff" using assms(1) by simp
    moreover have "unat (ucast i :: ee_s16) = take_bit 16 (unat i)" by (simp add: unsigned_ucast_eq)
    ultimately have "unat (ucast i :: ee_s16) < 0x3fff" using take_bit_nat_less_eq_self[of 16 "unat i"] by linarith
    then have "uint (ucast i :: ee_s16) \<le> 0x3fff" by (simp only: unat_eq_nat_uint nat_less_iff uint_ge_0)
    then show ?thesis using True small by (simp add: item_idx_def)
  next
    case False
    have "uint (0x3fff AND w :: ee_s16) \<le> 0x3fff" for w
      using word_and_le2[of "0x3fff :: ee_s16" w] by (simp add: word_le_def)
    then show ?thesis using False small by (simp add: item_idx_def Let_def)
  qed
qed

lemma core_list_init_ok:
  assumes "4 \<le> sz" "sz \<le> 10000" "unat (init_size blksize) = sz" "length h = sz" "length ds = sz"
    and "distinct (0 # map (\<lambda>k. item_idx (init_size blksize) seed (of_nat k)) [1..<sz - 2])"
  shows "\<exists>h' ds' xs. core_list_init h ds blksize seed = Some (Some 0, h', ds') \<and>
     list_ok h' ds' (Some 0) xs \<and> length xs = sz - 1"
proof -
  let ?it = "\<lambda>k. item_idx (init_size blksize) seed (of_nat k)"
  let ?h0 = "h[0 := (h ! 0)\<lparr>link := None, info := 0\<rparr>]"
  let ?ds0 = "ds[0 := (ds ! 0)\<lparr>idx := 0, data16 := 0x8080\<rparr>]"
  have ne: "0 < length h" "0 < length ds" using assms(1,4,5) by linarith+
  then have a: "set_link h (Some 0) None = Some (h[0 := (h ! 0)\<lparr>link := None\<rparr>])"
    "set_info (h[0 := (h ! 0)\<lparr>link := None\<rparr>]) (Some 0) 0 = Some ?h0"
    "aread ds 0 = Some (ds ! 0)" "awrite ds 0 ((ds ! 0)\<lparr>idx := 0, data16 := 0x8080\<rparr>) = Some ?ds0"
    by simp_all
  have "placed sz 1 (?h0, ?ds0, 1, 1)" using ne[unfolded length_greater_0_conv] assms(1,4,5) by (simp add: placed_def regen_consts)
  moreover have "min (Suc 1) (sz - 1) = 2" using assms(1) by simp
  ultimately obtain r s1 where i1: "core_list_insert_new (Some 0) \<lparr>data16 = 0xffff, idx = 0x7fff\<rparr> sz sz (?h0, ?ds0, 1, 1) = Some (r, s1)"
      "placed sz 2 s1"
    using insert_places[of sz 1 "(?h0, ?ds0, 1, 1)" "\<lparr>data16 = 0xffff, idx = 0x7fff\<rparr>"]
    by (auto simp: regen_consts simp del: min_Suc_Suc)
  have "min (2 + sz) (sz - 1) = sz - 1" by simp
  then obtain h1 ds1 where i2: "for_loop 0 sz (\<lambda>i s. map_option snd
       (core_list_insert_new (Some 0) \<lparr>data16 = init_data seed i, idx = 0x7fff\<rparr> sz sz s)) s1 = Some (h1, ds1, sz - 1, sz - 1)"
     and pl: "placed sz (sz - 1) (h1, ds1, sz - 1, sz - 1)"
    using insert_loop[OF i1(2), of sz seed] by (auto simp: placed_def)
  have c1: "chain h1 (Some 0) (0 # rev [1..<sz - 1]) None" "length h1 = sz" "length ds1 = sz"
    and in1: "\<And>x. x < sz - 1 \<Longrightarrow> info (h1 ! x) = x \<and> regen (data16 (ds1 ! x)) = data16 (ds1 ! x)"
    and k1: "idx (ds1 ! 0) = 0" "idx (ds1 ! 1) = 0x7fff"
    using pl assms(1) by (auto simp: placed_def)
  let ?zs = "rev [2..<sz - 1]"
  have "[1..<sz - 1] = 1 # [2..<sz - 1]" using assms(1) by (simp add: upt_conv_Cons numeral_2_eq_2)
  then have rv: "rev [1..<sz - 1] = ?zs @ [1]" by simp
  obtain p where p: "get_link h1 (Some 0) = Some p" "chain h1 p (?zs @ [1]) None"
    using c1(1,2) rv by simp
  have dz: "distinct (?zs @ [1])" and inz: "\<And>x. x \<in> set ?zs \<Longrightarrow> info (h1 ! x) = x \<and> x < length ds1"
    using in1 c1(3) by auto
  obtain ds2 where i3: "while_loop (\<lambda>(finder, i, ds). map_option (\<lambda>n. n \<noteq> None) (get_link h1 finder))
       (index_step h1 (init_size blksize) seed) (p, 1, ds1) = Some (Some 1, of_nat (1 + length ?zs), ds2)"
     and d2: "length ds2 = sz" "\<And>x. x \<notin> set ?zs \<Longrightarrow> ds2 ! x = ds1 ! x"
       "\<And>j. j < length ?zs \<Longrightarrow> ds2 ! (?zs ! j) = (ds1 ! (?zs ! j))\<lparr>idx := ?it (1 + j)\<rparr>"
    using index_loop[OF p(2) dz inz, of "init_size blksize" seed 1] unfolding of_nat_1 c1(3) by blast
  let ?xs = "0 # rev [1..<sz - 1]"
  have cell: "ds2 ! x = (ds1 ! x)\<lparr>idx := ?it (sz - 1 - x)\<rparr>" if "2 \<le> x" "x < sz - 1" for x
  proof -
    have "?zs ! (sz - 2 - x) = x" "sz - 2 - x < length ?zs" "1 + (sz - 2 - x) = sz - 1 - x"
      using that by (simp_all add: rev_nth)
    then show ?thesis using d2(3)[of "sz - 2 - x"] by (simp only:)
  qed
  have fresh: "regen (data16 (ds2 ! x)) = data16 (ds2 ! x)" if "x < sz - 1" for x
    using that in1[of x] cell[of x] d2(2)[of x] by (cases "2 \<le> x") auto
  define f where "f x = sint (idx (ds2 ! x))" for x
  have f: "f 0 = 0" "f 1 = 0x7fff" "\<And>x. 2 \<le> x \<Longrightarrow> x < sz - 1 \<Longrightarrow> f x = sint (?it (sz - 1 - x))"
    using k1 d2(2)[of 0] d2(2)[of 1] cell by (simp_all add: f_def)
  have range: "0 \<le> sint (?it k) \<and> sint (?it k) < 0x7fff" if "k < sz" for k
    using that assms(2,3) by (intro item_idx_range) (simp_all add: unat_of_nat)
  have inj_it: "inj_on ?it {1..<sz - 2}" "0 \<notin> ?it ` {1..<sz - 2}"
    using assms(6) by (simp_all add: distinct_map)
  have num: "sz - 1 - x \<in> {1..<sz - 2}" if "2 \<le> x" "x < sz - 1" for x using that by auto
  have other: "f x \<noteq> 0" "f x < 0x7fff" if "2 \<le> x" "x < sz - 1" for x
    using f(3)[OF that] range[of "sz - 1 - x"] num[OF that] inj_it(2) assms(1)
    by (auto simp: signed_eq_0_iff image_iff)
  have inj: "x = y" if "x < sz - 1" "y < sz - 1" "f x = f y" for x y
  proof (cases "2 \<le> x \<and> 2 \<le> y")
    case True
    then have "?it (sz - 1 - x) = ?it (sz - 1 - y)" using that f(3) by (simp add: signed_word_eqI)
    then have "sz - 1 - x = sz - 1 - y" using inj_onD[OF inj_it(1)] num that True by blast
    then show ?thesis using that by simp
  next
    case False
    then have "x = 0 \<or> x = 1 \<or> y = 0 \<or> y = 1" by auto
    then show ?thesis using that f(1,2) other[of x] other[of y] by (metis One_nat_def Suc_1 less_2_cases less_irrefl not_less zero_neq_numeral)
  qed
  have nonneg: "0 \<le> f x" if "x < sz - 1" for x
    using f(1,2) f(3)[of x] range[of "sz - 1 - x"] that assms(1) by (cases "2 \<le> x") (auto dest!: less_2_cases simp: not_le)
  have xs: "distinct ?xs" "set ?xs = {..<sz - 1}" "length ?xs = sz - 1" using assms(1) by auto
  have "idx_ok (ds2, None)" "(\<lambda>x. info (h1 ! x)) ` set ?xs \<subseteq> data_in (ds2, None)"
    using in1 d2(1) xs(2) by (auto simp: idx_ok_def data_in_def simp del: set_rev)
  moreover have "?xs \<noteq> []" "length ?xs < 2 ^ 31" using xs(3) assms(2) by simp_all
  ultimately have sorted: "\<exists>zs h4 t. core_list_mergesort cmp_idx h1 (Some 0) (ds2, None) = Some (hd_ptr zs, h4, t) \<and>
     zs = sort_key (\<lambda>x. idx_key t (info (h1 ! x))) ?xs \<and> chain h4 (hd_ptr zs) zs None \<and>
     relinked (set ?xs) h1 h4 \<and> idx_ok t \<and> idx_ext (ds2, None) t \<and>
     (2 \<le> length ?xs \<longrightarrow> (\<lambda>x. info (h1 ! x)) ` set ?xs \<subseteq> idx_known t)"
    using c1(1) xs(1) by (intro by_idx.core_list_mergesort_sorts)
  obtain zs h4 t where s4: "core_list_mergesort cmp_idx h1 (Some 0) (ds2, None) = Some (hd_ptr zs, h4, t)"
     "zs = sort_key (\<lambda>x. idx_key t (info (h1 ! x))) ?xs" "chain h4 (hd_ptr zs) zs None"
     "relinked (set ?xs) h1 h4" "idx_ok t" "idx_ext (ds2, None) t"
     "2 \<le> length ?xs \<longrightarrow> (\<lambda>x. info (h1 ! x)) ` set ?xs \<subseteq> idx_known t"
    using sorted by blast
  obtain ds4 where t: "t = (ds4, None)" using s4(5) by (cases t) (simp add: idx_ok_def)
  have e4: "length ds4 = sz" "\<And>a. idx (ds4 ! a) = idx (ds2 ! a)"
    using s4(6) d2(1) by (auto simp: t idx_ext_def)
  have mz: "mset zs = mset ?xs" by (simp add: s4(2))
  then have zset: "set zs = {..<sz - 1}" "distinct zs" "length zs = sz - 1"
    using mset_distinct[OF mz] mset_eq_length[OF mz] xs by simp_all
  have key: "idx_key t (info (h1 ! x)) = f x" if "x \<in> set zs" for x
    using that in1 by (simp add: zset t idx_key_def e4(2) f_def)
  have "sorted (map (\<lambda>x. idx_key t (info (h1 ! x))) zs)" unfolding s4(2) by (rule sorted_sort_key)
  then have srt: "sorted (map f zs)" using key by (simp cong: map_cong)
  moreover have "distinct (map f zs)" using zset inj by (auto simp: distinct_map inj_on_def)
  ultimately have strict: "sorted_wrt (<) (map f zs)" using strict_sorted_iff by blast
  have hd: "hd_ptr zs = Some 0"
  proof (cases zs)
    case (Cons z zs1)
    have "0 \<in> set zs" "z \<in> set zs" using zset(1) assms(1) Cons by auto
    then have "f z \<le> 0" using srt f(1) Cons by auto
    then have "f z = f 0" using nonneg[of z] f(1) \<open>z \<in> set zs\<close> zset(1) by simp
    moreover have "z < sz - 1" "0 < sz - 1" using \<open>z \<in> set zs\<close> zset(1) assms(1) by auto
    ultimately have "z = 0" using inj by blast
    then show ?thesis using Cons by simp
  qed (use zset(3) assms(1) in simp)
  have in4: "info (h4 ! x) = x" if "x \<in> set zs" for x
    using that in1 relinked_info[OF s4(4)] zset(1) by simp
  have "regen (data16 (ds4 ! x)) = data16 (ds4 ! x)" if "x \<in> set zs" for x
  proof -
    have "x \<in> set ?xs" "2 \<le> length ?xs" using that zset(1) assms(1) unfolding xs(2,3) by simp_all
    then have "info (h1 ! x) \<in> idx_known t" using s4(7) by blast
    then show ?thesis using in1[of x] that zset(1) by (simp add: t idx_known_def)
  qed
  then have cells: "info (h4 ! x) < length ds4 \<and> regen (data16 (ds4 ! info (h4 ! x))) = data16 (ds4 ! info (h4 ! x))"
    if "x \<in> set zs" for x
    using that in4[OF that] e4(1) zset(1) by simp
  have "map (\<lambda>x. sint (idx (ds4 ! info (h4 ! x)))) zs = map f zs"
    using in4 by (simp add: e4(2) f_def)
  moreover have "3 \<le> length zs" "length zs < 2 ^ 31" using zset(3) assms(1,2) by (linarith, simp)
  ultimately have ok: "list_ok h4 ds4 (Some 0) zs"
    unfolding list_ok_def using s4(3) zset(2) cells strict by (simp only: hd) simp
  have "core_list_init h ds blksize seed = Some (Some 0, h4, ds4)"
    unfolding core_list_init_def Let_def assms(3) a bind.bind_lunit prod.case i1(1) i2 p(1) i3 s4(1)[unfolded t hd]
    by (rule refl)
  with ok zset(3) show ?thesis by blast
qed

section \<open>Properties\<close>

text \<open>A small list, its data and a result block, on which the properties are shown to apply.\<close>

definition demo_heads :: heads where
  "demo_heads = [\<lparr>link = Some 2, info = 0\<rparr>, \<lparr>link = None, info = 1\<rparr>, \<lparr>link = Some 1, info = 2\<rparr>]"

definition demo_datas :: datas where
  "demo_datas = [\<lparr>data16 = 0x8080, idx = 0\<rparr>, \<lparr>data16 = 0xffff, idx = 0x7fff\<rparr>, \<lparr>data16 = 0, idx = 1\<rparr>]"

definition demo_results :: core_results where
  "demo_results = \<lparr>seed1 = 0, seed2 = 0, seed3 = 0x66, state_block = [0, 0], res_size = 2, iterations = 1,
     execs = 7, res_list = Some 0, mat = \<lparr>mat_N = 1, mat_A = [0], mat_B = [0], mat_C = [0]\<rparr>,
     crc = 0, crclist = 0, crcmatrix = 0, crcstate = 0, err = 0\<rparr>"

lemma demo_chain: "chain demo_heads (Some 0) [0, 2, 1] None"
  by (simp add: demo_heads_def)

lemma demo_infos: "x \<in> set [0, 2, 1] \<Longrightarrow> info (demo_heads ! x) < length demo_datas"
  by (auto simp: demo_heads_def demo_datas_def)

lemma demo_list_ok: "list_ok demo_heads demo_datas (res_list demo_results) [0, 2, 1]"
  by (simp add: list_ok_def demo_heads_def demo_datas_def demo_results_def regen_consts) (simp add: regen_def)

lemma demo_res_ok: "res_ok demo_results"
  by (simp add: res_ok_def demo_results_def mats_ok_def dim_ok_def two_nuls_def)

text \<open>C11. The merge sort with \<open>cmp_idx\<close> returns on every non-empty list shorter than \<open>2 ^ 31\<close>: it relinks
  the cells in place into their stable sort by signed index and changes no index.\<close>

theorem mergesort_by_index:
  assumes "chain h p xs None" "distinct xs" "xs \<noteq> []" "length xs < 2 ^ 31"
    and "\<And>x. x \<in> set xs \<Longrightarrow> info (h ! x) < length ds"
  shows "\<exists>zs h' ds'. core_list_mergesort cmp_idx h p (ds, None) = Some (hd_ptr zs, h', (ds', None)) \<and>
     zs = sort_key (\<lambda>x. sint (idx (ds ! info (h ! x)))) xs \<and> chain h' (hd_ptr zs) zs None \<and>
     relinked (set xs) h h' \<and> (\<forall>a. idx (ds' ! a) = idx (ds ! a))"
proof -
  have "idx_ok (ds, None)" "(\<lambda>x. info (h ! x)) ` set xs \<subseteq> data_in (ds, None)"
    using assms(5) by (auto simp: idx_ok_def data_in_def)
  from by_idx.core_list_mergesort_sorts[OF this(1) assms(1-4) this(2)]
  obtain zs h' t where r: "core_list_mergesort cmp_idx h p (ds, None) = Some (hd_ptr zs, h', t)"
     "zs = sort_key (\<lambda>x. idx_key t (info (h ! x))) xs" "chain h' (hd_ptr zs) zs None" "relinked (set xs) h h'"
     "idx_ok t" "idx_ext (ds, None) t" by blast
  obtain ds' where t: "t = (ds', None)" "\<And>a. idx (ds' ! a) = idx (ds ! a)"
    using r(5,6) by (cases t) (auto simp: idx_ok_def idx_ext_def)
  have "(\<lambda>x. idx_key t (info (h ! x))) = (\<lambda>x. sint (idx (ds ! info (h ! x))))"
    by (simp add: t idx_key_def)
  with r t show ?thesis by auto
qed

lemma mergesort_by_index_witness:
  "\<exists>zs h' ds'. core_list_mergesort cmp_idx demo_heads (Some 0) (demo_datas, None) = Some (hd_ptr zs, h', (ds', None)) \<and>
     zs = sort_key (\<lambda>x. sint (idx (demo_datas ! info (demo_heads ! x)))) [0, 2, 1] \<and> chain h' (hd_ptr zs) zs None \<and>
     relinked (set [0, 2, 1]) demo_heads h' \<and> (\<forall>a. idx (ds' ! a) = idx (demo_datas ! a))"
  by (rule mergesort_by_index[OF demo_chain _ _ _ demo_infos]) simp_all

text \<open>C12. With \<open>cmp_complex\<close>, which runs the state and matrix benchmarks and caches their results in the
  list data, the merge sort returns as well: the result is the stable sort by the 7-bit values cached
  in the end, every cell carries a cached value, and the high bytes and indices are unchanged.\<close>

theorem mergesort_by_value:
  assumes "chain h p xs None" "distinct xs" "2 \<le> length xs" "length xs < 2 ^ 31"
    and "\<And>x. x \<in> set xs \<Longrightarrow> info (h ! x) < length ds" and "res_ok res"
  shows "\<exists>zs h' ds' res'. core_list_mergesort cmp_complex h p (ds, Some res) = Some (hd_ptr zs, h', (ds', Some res')) \<and>
     zs = sort_key (\<lambda>x. sint (data16 (ds' ! info (h ! x)) AND 0x7f)) xs \<and> chain h' (hd_ptr zs) zs None \<and>
     relinked (set xs) h h' \<and> res_ok res' \<and> (\<forall>x \<in> set xs. bit (data16 (ds' ! info (h ! x))) 7) \<and>
     (\<forall>a. idx (ds' ! a) = idx (ds ! a) \<and> data16 (ds' ! a) AND 0xff00 = data16 (ds ! a) AND 0xff00)"
proof -
  have "val_ok (ds, Some res)" "(\<lambda>x. info (h ! x)) ` set xs \<subseteq> data_in (ds, Some res)" "xs \<noteq> []"
    using assms(3,5,6) by (auto simp: val_ok_def data_in_def)
  from by_val.core_list_mergesort_sorts[OF this(1) assms(1,2) this(3) assms(4) this(2)]
  obtain zs h' t where r: "core_list_mergesort cmp_complex h p (ds, Some res) = Some (hd_ptr zs, h', t)"
     "zs = sort_key (\<lambda>x. val_key t (info (h ! x))) xs" "chain h' (hd_ptr zs) zs None" "relinked (set xs) h h'"
     "val_ok t" "val_ext (ds, Some res) t" "(\<lambda>x. info (h ! x)) ` set xs \<subseteq> val_known t" using assms(3) by blast
  obtain ds' res' where t: "t = (ds', Some res')" "res_ok res'" using r(5) by (cases t) (auto simp: val_ok_def)
  have "(\<lambda>x. val_key t (info (h ! x))) = (\<lambda>x. sint (data16 (ds' ! info (h ! x)) AND 0x7f))"
    by (simp add: t val_key_def)
  moreover have "\<forall>x \<in> set xs. bit (data16 (ds' ! info (h ! x))) 7" using r(7) by (auto simp: t val_known_def)
  moreover have "\<forall>a. idx (ds' ! a) = idx (ds ! a) \<and> data16 (ds' ! a) AND 0xff00 = data16 (ds ! a) AND 0xff00"
    using r(6) by (simp add: t val_ext_def)
  ultimately show ?thesis using r(1-4) t(2) unfolding t(1) by (intro exI conjI) auto
qed

lemma mergesort_by_value_witness:
  "\<exists>zs h' ds' res'. core_list_mergesort cmp_complex demo_heads (Some 0) (demo_datas, Some demo_results) =
       Some (hd_ptr zs, h', (ds', Some res')) \<and>
     zs = sort_key (\<lambda>x. sint (data16 (ds' ! info (demo_heads ! x)) AND 0x7f)) [0, 2, 1] \<and> chain h' (hd_ptr zs) zs None \<and>
     relinked (set [0, 2, 1]) demo_heads h' \<and> res_ok res' \<and>
     (\<forall>x \<in> set [0, 2, 1]. bit (data16 (ds' ! info (demo_heads ! x))) 7) \<and>
     (\<forall>a. idx (ds' ! a) = idx (demo_datas ! a) \<and> data16 (ds' ! a) AND 0xff00 = data16 (demo_datas ! a) AND 0xff00)"
  by (rule mergesort_by_value[OF demo_chain _ _ _ demo_infos demo_res_ok]) simp_all

text \<open>C13. \<open>core_bench_list\<close> restores its list: on a well-formed list (sorted strictly by index, at least
  three cells, every data word its own backup) and a result block that can run the benchmarks, it
  returns for every finder index with the heap of list heads and the list data as they were, although
  it reverses, relinks, sorts by calculated value, removes and reinserts on the way.\<close>

theorem core_bench_list_restores:
  assumes "list_ok h ds (res_list res) xs" and "res_ok res"
  shows "\<exists>ret ds' res'. core_bench_list h ds res finder_idx = Some (ret, h, ds', res') \<and>
     length ds' = length ds \<and> (\<forall>x \<in> set xs. ds' ! info (h ! x) = ds ! info (h ! x)) \<and>
     res_ok res' \<and> res_ext res res'"
  using assms by (rule bench_list_restores)

lemma core_bench_list_restores_witness:
  "\<exists>ret ds' res'. core_bench_list demo_heads demo_datas demo_results 1 = Some (ret, demo_heads, ds', res') \<and>
     length ds' = length demo_datas \<and>
     (\<forall>x \<in> set [0, 2, 1]. ds' ! info (demo_heads ! x) = demo_datas ! info (demo_heads ! x)) \<and>
     res_ok res' \<and> res_ext demo_results res'"
  by (rule core_bench_list_restores[OF demo_list_ok demo_res_ok])


lemma demo_indices: "distinct (0 # map (\<lambda>k. item_idx 31 0x3415 (of_nat k)) [1..<unat (31 :: ee_u32) - 2])"
  by code_simp


text \<open>C15. Undoing a removal gives back the heap: \<open>core_list_undo_remove\<close> after \<open>core_list_remove\<close> of a
  cell with a successor is the identity on the whole heap of list heads.\<close>

theorem remove_then_undo:
  assumes "chain h p (xs @ a # b # ys) None" and "distinct (xs @ a # b # ys)"
  shows "\<exists>h'. core_list_remove h (Some a) = Some (Some b, h') \<and> chain h' p (xs @ a # ys) None \<and>
     core_list_undo_remove h' (Some b) (Some a) = Some (Some b, h)"
proof -
  from assms have ab: "a \<noteq> b" "a < length h" "b < length h" "link (h ! a) = Some b" by auto
  with chain_removed[OF assms] remove_undo[OF ab] show ?thesis by auto
qed

lemma remove_then_undo_witness:
  "\<exists>h'. core_list_remove demo_heads (Some 2) = Some (Some 1, h') \<and> chain h' (Some 0) ([0] @ 2 # []) None \<and>
     core_list_undo_remove h' (Some 1) (Some 2) = Some (Some 1, demo_heads)"
  by (rule remove_then_undo) (simp_all add: demo_heads_def)

text \<open>C19. On the empty list the merge sort dereferences the \<open>NULL\<close> tail of its first pass, although the
  test \<open>nmerges <= 1\<close> is meant to allow for that case.\<close>

theorem mergesort_of_empty_list: "core_list_mergesort cmp h None s = None"
  by (simp add: core_list_mergesort_def mergesort_loop.simps sort_pass_def while_loop.simps)

end
