(* ===== verification/Printing.thy ===== *)
theory Printing
  imports Portme
begin

text \<open>
  Sequences of \<^verbatim>\<open>printf\<close> calls: the models of the parts of the programs that only report compute
  the calls they make, and \<^verbatim>\<open>do_calls\<close> carries them out.  The two \<^verbatim>\<open>printf\<close> replacements of the
  repository (\<^verbatim>\<open>ee_printf\<close> of CoreMark and \<^verbatim>\<open>dhr_printf\<close> of Dhrystone) share an interface, the
  locale \<^verbatim>\<open>formatter\<close>: a call sends the text of its format.  Its lemmas reduce the question whether
  a sequence of calls prints to a computation on each format.
\<close>

section \<open>Calls\<close>

text \<open>A call: the format, without its \<open>NUL\<close>, and the arguments.\<close>

type_synonym call = "string \<times> arg list"

definition nl :: string where
  "nl = [CHR 0x0A]"

definition c_string :: "string \<Rightarrow> arg" where
  "c_string s = StrArg (bytes s @ [0])"

fun do_calls :: "(ee_u8 list \<Rightarrow> arg list \<Rightarrow> uart \<Rightarrow> (nat \<times> uart) option) \<Rightarrow> call list \<Rightarrow> uart \<Rightarrow> uart option" where
  "do_calls printf [] u = Some u"
| "do_calls printf ((fmt, args) # cs) u = do {
     (n, u) \<leftarrow> printf (bytes fmt @ [0]) args u;
     do_calls printf cs u }"

text \<open>The directives of a format.\<close>

function directives :: "ee_u8 list \<Rightarrow> directive list option" where
  "directives [] = Some []"
| "directives (c # f) = (if c \<noteq> 37 then map_option (Cons (Lit c)) (directives f) else do {
     (w, f') \<leftarrow> scan_width f 0;
     (c, f') \<leftarrow> next_char f';
     (l, c, f') \<leftarrow> (if c = 108 then map_option (Pair True) (next_char f') else Some (False, c, f'));
     map_option (Cons (Conv (hd f = 48) w l c)) (directives f') })"
  by pat_completeness auto
termination
  by (relation "measure length") (auto dest!: scan_width_shorter next_char_shorter split: if_splits)

lemma scan_width_code [code]:
  "scan_width [] width = None"
  "scan_width (c # f) width =
     (if 48 \<le> c \<and> c \<le> 57 then
        let w = width * 10 + unat (c - 48) in if int w < 2147483648 then scan_width f w else None
      else Some (width, c # f))"
  by (simp_all add: Let_def)

text \<open>The text of a call and of a sequence of calls, for a set of directives and their texts.\<close>

definition text_of_call :: "(directive \<Rightarrow> bool) \<Rightarrow> (directive \<Rightarrow> arg list \<Rightarrow> (ee_u8 list \<times> arg list) option)
    \<Rightarrow> call \<Rightarrow> ee_u8 list option" where
  "text_of_call ok rd = (\<lambda>(fmt, args). do {
     ds \<leftarrow> directives (bytes fmt);
     if list_all ok ds \<and> concat (map directive_text ds) = bytes fmt then render_all rd ds args else None })"

fun text_of_calls :: "(directive \<Rightarrow> bool) \<Rightarrow> (directive \<Rightarrow> arg list \<Rightarrow> (ee_u8 list \<times> arg list) option)
    \<Rightarrow> call list \<Rightarrow> ee_u8 list option" where
  "text_of_calls ok rd [] = Some []"
| "text_of_calls ok rd (c # cs) = do { t \<leftarrow> text_of_call ok rd c; ts \<leftarrow> text_of_calls ok rd cs; Some (t @ ts) }"

definition printable :: "(directive \<Rightarrow> bool) \<Rightarrow> (directive \<Rightarrow> arg list \<Rightarrow> (ee_u8 list \<times> arg list) option)
    \<Rightarrow> call list \<Rightarrow> bool" where
  "printable ok rd cs \<longleftrightarrow> text_of_calls ok rd cs \<noteq> None"

lemma text_of_calls_append [simp]:
  "text_of_calls ok rd (cs @ ds) = do { s \<leftarrow> text_of_calls ok rd cs; t \<leftarrow> text_of_calls ok rd ds; Some (s @ t) }"
  by (induction cs) (simp_all add: bind_assoc)

lemma printable_simps [simp]:
  "printable ok rd []" "printable ok rd (c # cs) \<longleftrightarrow> text_of_call ok rd c \<noteq> None \<and> printable ok rd cs"
  "printable ok rd (cs @ ds) \<longleftrightarrow> printable ok rd cs \<and> printable ok rd ds"
  by (auto simp: printable_def split: bind_splits)

lemma printable_if: "(b \<Longrightarrow> printable ok rd xs) \<Longrightarrow> (\<not> b \<Longrightarrow> printable ok rd ys) \<Longrightarrow> printable ok rd (if b then xs else ys)"
  by simp

text \<open>Whether a call prints does not depend on the values of its arguments, only on which of them are
  strings; for a fixed format that is computed.\<close>

fun arg_kind :: "arg \<Rightarrow> bool" where
  "arg_kind (IntArg v) = False"
| "arg_kind (StrArg s) = True"

fun arg_ok :: "arg \<Rightarrow> bool" where
  "arg_ok (IntArg v) = True"
| "arg_ok (StrArg s) \<longleftrightarrow> 0 \<in> set s"

fun takes :: "directive list \<Rightarrow> bool list \<Rightarrow> bool" where
  "takes [] ks = True"
| "takes (Lit c # ds) ks = takes ds ks"
| "takes (Conv z w l c # ds) ks =
     (if c = 37 then takes ds ks else case ks of [] \<Rightarrow> False | k # ks \<Rightarrow> k = (c = 115) \<and> takes ds ks)"

definition format_ok :: "(directive \<Rightarrow> bool) \<Rightarrow> string \<Rightarrow> bool list \<Rightarrow> bool" where
  "format_ok ok fmt ks = (case directives (bytes fmt) of None \<Rightarrow> False | Some ds \<Rightarrow>
     list_all ok ds \<and> concat (map directive_text ds) = bytes fmt \<and> takes ds ks)"

lemma c_string_kind [simp]: "arg_kind (c_string s) = True" "arg_ok (c_string s) = True"
  by (simp_all add: c_string_def)

section \<open>The interface\<close>

text \<open>A \<open>printf\<close> for the directives in \<open>ok\<close>: it sends the text \<open>rd\<close> gives them, as \<open>out\<close> puts it on the
  line, and every argument of the right kind has a text.\<close>

locale formatter =
  fixes printf :: "ee_u8 list \<Rightarrow> arg list \<Rightarrow> uart \<Rightarrow> (nat \<times> uart) option"
    and ok :: "directive \<Rightarrow> bool" and rd :: "directive \<Rightarrow> arg list \<Rightarrow> (ee_u8 list \<times> arg list) option"
    and out :: "ee_u8 list \<Rightarrow> ee_u8 list"
  assumes printf_sends: "list_all ok ds \<Longrightarrow> render_all rd ds args = Some t \<Longrightarrow>
      \<exists>n u'. printf (concat (map directive_text ds) @ [0]) args u = Some (n, u') \<and> sent u' = sent u @ out t"
    and rd_takes: "ok d \<Longrightarrow> takes (d # ds) (map arg_kind args) \<Longrightarrow> list_all arg_ok args \<Longrightarrow>
      \<exists>t args'. rd d args = Some (t, args') \<and> takes ds (map arg_kind args') \<and> list_all arg_ok args'"
    and out_append: "out [] = []" "out (s @ t) = out s @ out t"
begin

lemma calls_send: "text_of_calls ok rd cs = Some t \<Longrightarrow> sends u (out t) (do_calls printf cs u)"
proof (induction cs arbitrary: t u)
  case Nil
  then show ?case by (simp add: sends_def out_append)
next
  case (Cons c cs)
  obtain fmt args where c: "c = (fmt, args)" by (cases c)
  obtain t1 t2 where t: "text_of_call ok rd c = Some t1" "text_of_calls ok rd cs = Some t2" "t = t1 @ t2"
    using Cons.prems by (auto split: bind_splits)
  obtain ds where ds: "list_all ok ds" "concat (map directive_text ds) = bytes fmt" "render_all rd ds args = Some t1"
    using t(1) c by (auto simp: text_of_call_def split: bind_splits if_splits)
  obtain n u1 where u1: "printf (bytes fmt @ [0]) args u = Some (n, u1)" "sent u1 = sent u @ out t1"
    using printf_sends[OF ds(1,3), of u] ds(2) by auto
  then show ?case using Cons.IH[OF t(2), of u1] t(3) by (auto simp: c sends_def out_append)
qed

lemma render_all_takes:
  "list_all ok ds \<Longrightarrow> takes ds (map arg_kind args) \<Longrightarrow> list_all arg_ok args \<Longrightarrow> render_all rd ds args \<noteq> None"
proof (induction ds arbitrary: args)
  case (Cons d ds)
  then show ?case using rd_takes[of d ds args] by fastforce
qed simp

lemma text_of_formatted:
  assumes "format_ok ok fmt (map arg_kind args)" "list_all arg_ok args"
  shows "text_of_call ok rd (fmt, args) \<noteq> None"
  using assms render_all_takes by (auto simp: format_ok_def text_of_call_def split: option.splits)

text \<open>The shapes of argument lists that occur.\<close>

lemma text_of_known:
  "format_ok ok fmt [] \<Longrightarrow> text_of_call ok rd (fmt, []) \<noteq> None"
  "format_ok ok fmt [False] \<Longrightarrow> text_of_call ok rd (fmt, [IntArg v]) \<noteq> None"
  "format_ok ok fmt [True] \<Longrightarrow> text_of_call ok rd (fmt, [c_string s]) \<noteq> None"
  "format_ok ok fmt [False, False] \<Longrightarrow> text_of_call ok rd (fmt, [IntArg v, IntArg w]) \<noteq> None"
  "format_ok ok fmt [False, False, False] \<Longrightarrow> text_of_call ok rd (fmt, [IntArg v, IntArg w, IntArg x]) \<noteq> None"
  "format_ok ok fmt [False, True, True] \<Longrightarrow> text_of_call ok rd (fmt, [IntArg v, c_string s, c_string t]) \<noteq> None"
  by (intro text_of_formatted; simp)+

lemma calls_print:
  assumes "printable ok rd cs"
  shows "\<exists>t u'. text_of_calls ok rd cs = Some t \<and> do_calls printf cs u = Some u' \<and> sent u' = sent u @ out t"
  using assms calls_send[of cs _ u] by (auto simp: printable_def sends_def)

end

lemmas printable_Cons = printable_simps(2)[of _ _ "(fmt, args)" for fmt args] printable_simps(1,3)
  if_distrib[of "printable ok rd" for ok rd]

section \<open>The interface on the CoreMark port\<close>

interpretation portme_calls: formatter "ee_printf busy" directive_ok render "\<lambda>t. concat (map crlf t)" for busy
proof
  fix ds args t u
  assume "list_all directive_ok ds" "render_all render ds args = Some t"
  then show "\<exists>n u'. ee_printf busy (concat (map directive_text ds) @ [0]) args u = Some (n, u') \<and>
      sent u' = sent u @ concat (map crlf t)"
    using printf_from_renders[of ds args t busy "[]" 0 u] by (auto simp: ee_printf_def list_all_iff)
next
  fix d ds args
  assume "takes (d # ds) (map arg_kind args)" "list_all arg_ok args"
  then show "\<exists>t args'. render d args = Some (t, args') \<and> takes ds (map arg_kind args') \<and> list_all arg_ok args'"
  proof (cases d)
    case (Conv z w l c)
    then show ?thesis using \<open>takes _ _\<close> \<open>list_all _ _\<close> by (cases args; cases "hd args") (auto split: if_splits)
  qed simp
qed simp_all

abbreviation "ee_calls busy \<equiv> do_calls (ee_printf busy)"
abbreviation "calls_text \<equiv> text_of_calls directive_ok render"
abbreviation "prints \<equiv> printable directive_ok render"
abbreviation "format_takes \<equiv> format_ok directive_ok"

end
