(* ===== verification/Core_Run.thy ===== *)
theory Core_Run
  imports Core_Main
begin

text \<open>
  What a run of CoreMark does: the theorems about \<^verbatim>\<open>coremark/src/core_main.c\<close> modelled in
  \<^verbatim>\<open>Core_Main\<close>.  The known configurations, the set-up of the memory, the report (every call
  prints), the main function from the seeds to the last newline, the calibration of the number of
  iterations, the validation, the score, and the parser of seeds.
\<close>

section \<open>The known runs\<close>

text \<open>The initial values of the volatile variables in \<^verbatim>\<open>core_portme.c\<close>, for \<open>ITERATIONS\<close> iterations.\<close>

datatype run = Validation_Run | Performance_Run | Profile_Run

definition initial_volatiles :: "run \<Rightarrow> ee_s32 \<Rightarrow> volatiles" where
  "initial_volatiles kind its = (case kind of
     Validation_Run \<Rightarrow> \<lparr>seed1_volatile = 0x3415, seed2_volatile = 0x3415, seed3_volatile = 0x66,
       seed4_volatile = its, seed5_volatile = 0\<rparr>
   | Performance_Run \<Rightarrow> \<lparr>seed1_volatile = 0, seed2_volatile = 0, seed3_volatile = 0x66,
       seed4_volatile = its, seed5_volatile = 0\<rparr>
   | Profile_Run \<Rightarrow> \<lparr>seed1_volatile = 8, seed2_volatile = 8, seed3_volatile = 8,
       seed4_volatile = its, seed5_volatile = 0\<rparr>)"

definition run_seed :: "run \<Rightarrow> ee_s16" where
  "run_seed kind = (case kind of Validation_Run \<Rightarrow> 0x3415 | Performance_Run \<Rightarrow> 0 | Profile_Run \<Rightarrow> 8)"

definition run_seed3 :: "run \<Rightarrow> ee_s16" where
  "run_seed3 kind = (case kind of Profile_Run \<Rightarrow> 8 | _ \<Rightarrow> 0x66)"

lemma num_algorithms_7: "num_algorithms 7 = 3"
  by code_simp

lemma share_run:
  "share (main_seeds (initial_volatiles kind its) res) = Some (res\<lparr>seed1 := run_seed kind, seed2 := run_seed kind,
     seed3 := run_seed3 kind, res_size := 666, iterations := its, execs := 7, err := 0\<rparr>)"
  by (cases kind) (simp_all add: share_def main_seeds_def initial_volatiles_def get_seed_def get_seed_32_def Let_def
      all_algorithms_mask_def total_data_size_def run_seed_def run_seed3_def num_algorithms_7)

text \<open>The seed CRCs are computed by unrolling the eight turns of \<open>crcu8\<close>.\<close>

lemma crcu8_unroll: "crcu8 d c =
  snd (crcu8_step (crcu8_step (crcu8_step (crcu8_step (crcu8_step (crcu8_step (crcu8_step (crcu8_step (d, c)))))))))"
  by (simp add: crcu8_def eval_nat_numeral)

lemmas crc_eval = crc16_def crcu16_def crcu8_unroll crcu8_step_def Let_def

lemma known_constants_2k:
  "crc16 666 (crc16 0x66 (crc16 0 (crc16 0 0))) = 0xe9f5"
  "crc16 666 (crc16 0x66 (crc16 0x3415 (crc16 0x3415 0))) = 0x18f2"
  "find_known_id (crc16 666 (crc16 8 (crc16 8 (crc16 8 0)))) = None"
  by (simp add: crc_eval, simp add: crc_eval, simp add: crc_eval find_known_id_def)

lemma known_constants_6k:
  "crc16 2000 (crc16 0x66 (crc16 0 (crc16 0 0))) = 0x8a02"
  "crc16 2000 (crc16 0x66 (crc16 0x3415 (crc16 0x3415 0))) = 0x7b05"
  "crc16 400 (crc16 8 (crc16 8 (crc16 8 0))) = 0x4eaf"
  by (simp_all add: crc_eval)

lemma run_indices_3415: "distinct (0 # map (\<lambda>k. item_idx 31 0x3415 (of_nat k)) [1..<29])"
  by code_simp

lemma run_indices_0: "distinct (0 # map (\<lambda>k. item_idx 31 0 (of_nat k)) [1..<29])"
  by code_simp

lemma run_indices_8: "distinct (0 # map (\<lambda>k. item_idx 31 8 (of_nat k)) [1..<29])"
  by code_simp

lemma run_indices: "distinct (0 # map (\<lambda>k. item_idx 31 (run_seed kind) (of_nat k)) [1..<29])"
  by (cases kind) (simp_all only: run_seed_def run.case run_indices_3415 run_indices_0 run_indices_8)

lemma matrix_dim_666: "matrix_dim 666 = Some 9"
  by (simp add: matrix_dim_def while_loop.simps)

lemma main_init_run:
  assumes "length h = 31" "length ds = 31" "length A = 81" "length B = 81" "length C = 81" "length m = 666"
    and r: "seed1 res = run_seed kind" "seed2 res = run_seed kind" "res_size res = 666" "execs res = 7"
  shows "\<exists>h' ds' xs res'. main_init h ds A B C m res = Some (h', ds', res') \<and>
     list_ok h' ds' (res_list res') xs \<and> res_ok res' \<and>
     (\<exists>l mt sb. res' = res\<lparr>res_list := l, mat := mt, state_block := sb\<rparr>)"
proof -
  have sz: "init_size 666 = 31" by (simp add: init_size_def)
  obtain h' ds' xs where l: "core_list_init h ds 666 (run_seed kind) = Some (Some 0, h', ds')" "list_ok h' ds' (Some 0) xs"
    using core_list_init_ok[of 31 666 h ds "run_seed kind"] assms(1,2) run_indices[of kind] by (auto simp: sz)
  let ?seed = "scast (run_seed kind) OR push_bit 16 (scast (run_seed kind)) :: 32 word"
  have "dim_ok 9" by (simp add: dim_ok_def)
  then obtain mt where mt: "core_init_matrix 666 A B C ?seed = Some (9, mt)" "mats_ok mt"
    using core_init_matrix_spec[OF matrix_dim_666, of A B C ?seed] assms(3-5) by (auto simp: mats_ok_def)
  obtain sb where sb: "core_init_state 666 (run_seed kind) m = Some sb" "two_nuls sb" "length sb = 666"
    using core_init_state_two_nuls[of 666 m "run_seed kind"] assms(6) by auto
  have comma: "ucast (run_seed kind) \<noteq> (c_comma :: ee_u8)" by (cases kind) (simp_all add: run_seed_def)
  let ?res = "res\<lparr>res_list := Some 0, mat := mt, state_block := sb\<rparr>"
  have "main_init h ds A B C m res = Some (h', ds', ?res)"
    by (simp add: main_init_def r l mt sb)
  moreover have "res_ok ?res" using mt(2) sb comma r by (simp add: res_ok_def)
  ultimately show ?thesis using l(2) by (intro exI[of _ h'] exI[of _ ds'] exI[of _ xs] exI[of _ ?res]) auto
qed


section \<open>The report prints\<close>

lemma formats_known_1:
  "format_takes ((run_names ! 0) @ nl) []"
  "format_takes ((run_names ! 1) @ nl) []"
  "format_takes ((run_names ! 2) @ nl) []"
  "format_takes ((run_names ! 3) @ nl) []"
  by code_simp+

lemma formats_known_2:
  "format_takes ((run_names ! 4) @ nl) []"
  "format_takes (''[%u]ERROR! '' @ ''list'' @ '' crc 0x%04x - should be 0x%04x'' @ nl) [False, False, False]"
  "format_takes (''[%u]ERROR! '' @ ''matrix'' @ '' crc 0x%04x - should be 0x%04x'' @ nl) [False, False, False]"
  "format_takes (''[%u]ERROR! '' @ ''state'' @ '' crc 0x%04x - should be 0x%04x'' @ nl) [False, False, False]"
  by code_simp+

lemmas formats_known = formats_known_1 formats_known_2

lemma formats_result_1:
  "format_takes (''CoreMark Size    : %lu'' @ nl) [False]"
  "format_takes (''Total ticks      : %lu'' @ nl) [False]"
  "format_takes (''Total time (secs): %d'' @ nl) [False]"
  "format_takes (''Iterations/Sec   : %d'' @ nl) [False]"
  "format_takes (''Iterations       : %lu'' @ nl) [False]"
  "format_takes (''Compiler version : %s'' @ nl) [True]"
  "format_takes (''Compiler flags   : %s'' @ nl) [True]"
  by code_simp+

lemma formats_result_2:
  "format_takes (''Memory location  : %s'' @ nl) [True]"
  "format_takes (''seedcrc          : 0x%04x'' @ nl) [False]"
  "format_takes (''[%d]crclist       : 0x%04x'' @ nl) [False, False]"
  "format_takes (''[%d]crcmatrix     : 0x%04x'' @ nl) [False, False]"
  "format_takes (''[%d]crcstate      : 0x%04x'' @ nl) [False, False]"
  "format_takes (''[%d]crcfinal      : 0x%04x'' @ nl) [False, False]"
  "format_takes (''Correct operation validated. See README.md for run and reporting '' @ ''rules.'' @ nl) []"
  by code_simp+

lemmas formats_result = formats_result_1 formats_result_2

lemma formats_score_1:
  "format_takes nl []"
  "format_takes (''Cycles/Iteration:        %d'' @ nl) [False]"
  "format_takes (''CoreMark/MHz:            %d.%03d'' @ nl) [False, False]"
  "format_takes (''Iterations/Sec:          %d'' @ nl) [False]"
  "format_takes (''Compiler Version:        %s'' @ nl) [True]"
  by code_simp+

lemma formats_score_2:
  "format_takes (''Compiler Flags:          %s'' @ nl) [True]"
  "format_takes ''CoreMark 1.0 : %d / %s %s'' [False, True, True]"
  "format_takes '' / %s'' [True]"
  "format_takes (''Errors detected'' @ nl) []"
  "format_takes (''Cannot validate operation for these seed values, please compare '' @
     ''with results on a known platform.'' @ nl) []"
  by code_simp+

lemmas formats_score = formats_score_1 formats_score_2

lemma formats_types:
  "format_takes (''ERROR: ee_u8 is not an 8b datatype!'' @ nl) []"
  "format_takes (''ERROR: ee_u16 is not a 16b datatype!'' @ nl) []"
  "format_takes (''ERROR: ee_s16 is not a 16b datatype!'' @ nl) []"
  "format_takes (''ERROR: ee_s32 is not a 32b datatype!'' @ nl) []"
  "format_takes (''ERROR: ee_u32 is not a 32b datatype!'' @ nl) []"
  "format_takes (''ERROR: ee_ptr_int is not a datatype that holds an int pointer!'' @ nl) []"
  "format_takes (''ERROR: Please modify the datatypes in core_portme.h!'' @ nl) []"
  "format_takes (''ERROR: ee_ptr_int size mismatch!'' @ nl) []"
  "format_takes (''ERROR: ee_u32 is not 32-bit!'' @ nl) []"
  "format_takes (''list_head structure too big for comparable data!'' @ nl) []"
  by code_simp+

lemmas formats = formats_known formats_result formats_score formats_types

text \<open>With the formats checked, whether a sequence of calls prints is a matter of the simplifier.\<close>

lemmas printing = printable_Cons portme_calls.text_of_known simp_thms if_True if_False if_cancel

lemma mismatch_prints:
  "format_takes (''[%u]ERROR! '' @ what @ '' crc 0x%04x - should be 0x%04x'' @ nl) [False, False, False] \<Longrightarrow>
   prints (mismatch ex bit_mask what c k)"
  by (simp only: mismatch_def printing)

lemma known_report_prints:
  assumes "k < 5"
  shows "prints (known_report k res)"
proof -
  have "format_takes ((run_names ! k) @ nl) []"
    using assms formats_known(1-5) by (auto simp: less_Suc_eq numeral_eq_Suc)
  then show ?thesis
    by (simp only: known_report_def printing mismatch_prints formats)
qed

lemmas report_printing = printing formats

lemma result_report_prints: "prints (result_report b total_time res)"
  by (simp only: result_report_def Let_def report_printing)

lemma score_report_prints: "score_report b total_time res = Some cs \<Longrightarrow> prints cs"
  by (auto simp only: score_report_def Let_def report_printing option.inject split: bind_splits prod.splits)

lemma verdict_prints: "prints (verdict e)"
  by (simp only: verdict_def report_printing)

lemma wrong_size_prints:
  "format_takes (msg @ nl) [] \<Longrightarrow> prints (snd r) \<Longrightarrow> prints (snd (wrong_size w msg r))"
  by (cases r) (simp add: wrong_size_def portme_calls.text_of_known)

lemma complaint_prints:
  "prints (snd r) \<Longrightarrow> prints (snd (case r of (retval, cs) \<Rightarrow> (retval, if retval > 0
     then cs @ [(''ERROR: Please modify the datatypes in core_portme.h!'' @ nl, [])] else cs)))"
  by (cases r) (simp only: prod.case snd_conv report_printing)

lemma check_data_types_prints: "prints (snd (check_data_types t))"
  unfolding check_data_types_def Let_def by (intro complaint_prints wrong_size_prints formats) simp

lemma portable_init_prints: "prints (snd (portable_init t))"
  by (simp only: portable_init_def snd_conv report_printing)

lemma main_report_prints:
  assumes "main_report sizes b total_time e res = Some cs"
  shows "prints cs"
proof -
  have known: "prints (case find_known_id c of None \<Rightarrow> [] | Some k \<Rightarrow> known_report k res)" for c
    by (auto simp: find_known_id_def intro!: known_report_prints)
  obtain score where s: "(if e = 0 \<and> find_known_id (seed_crc res) = Some 3 then score_report b total_time res
       else Some []) = Some score"
    and cs: "cs = (case find_known_id (seed_crc res) of None \<Rightarrow> [] | Some k \<Rightarrow> known_report k res) @
       snd (check_data_types sizes) @ result_report b total_time res @
       (if e = 0 then [(''Correct operation validated. See README.md for run and reporting '' @
          ''rules.'' @ nl, [])] else []) @ score @ verdict e"
    using assms by (auto simp only: main_report_def Let_def option.inject split: bind_splits)
  have "prints score" using s score_report_prints by (cases "e = 0 \<and> find_known_id (seed_crc res) = Some 3") auto
  then show ?thesis unfolding cs
    by (simp only: report_printing known check_data_types_prints result_report_prints verdict_prints)
qed

section \<open>A whole run\<close>

lemma find_known_id_less: "find_known_id c = Some k \<Longrightarrow> k < 5"
  by (auto simp: find_known_id_def split: if_splits)

text \<open>How many of the selected algorithms have a wrong CRC.\<close>

definition wrong_crcs :: "nat \<Rightarrow> core_results \<Rightarrow> nat" where
  "wrong_crcs k res =
     (if execs res AND 1 \<noteq> 0 \<and> crclist res \<noteq> list_known_crc ! k then 1 else 0) +
     (if execs res AND 2 \<noteq> 0 \<and> crcmatrix res \<noteq> matrix_known_crc ! k then 1 else 0) +
     (if execs res AND 4 \<noteq> 0 \<and> crcstate res \<noteq> state_known_crc ! k then 1 else 0)"

lemma check_results_counts:
  assumes "k < 5"
  shows "check_results k res = Some (res\<lparr>err := of_nat (wrong_crcs k res)\<rparr>)"
proof -
  have "k < length list_known_crc" "k < length matrix_known_crc" "k < length state_known_crc"
    using assms by (simp_all add: list_known_crc_def matrix_known_crc_def state_known_crc_def)
  then show ?thesis by (simp add: check_results_def wrong_crcs_def Let_def)
qed

definition total_errors :: "type_sizes \<Rightarrow> core_results \<Rightarrow> ee_s16" where
  "total_errors sizes res = (case find_known_id (seed_crc res) of None \<Rightarrow> - 1
     | Some k \<Rightarrow> of_nat (wrong_crcs k res)) + ucast (fst (check_data_types sizes))"

lemma total_errors_err [simp]: "total_errors sizes (r\<lparr>err := e\<rparr>) = total_errors sizes r"
  by (simp add: total_errors_def seed_crc_def wrong_crcs_def split: option.split)

lemma validate_eq:
  "validate sizes res = Some (total_errors sizes res,
     case find_known_id (seed_crc res) of None \<Rightarrow> res | Some k \<Rightarrow> res\<lparr>err := of_nat (wrong_crcs k res)\<rparr>)"
  by (auto simp: validate_def total_errors_def check_results_counts dest: find_known_id_less split: option.split)

lemma score_report_returns:
  assumes "total_time \<noteq> 0" "its \<noteq> 0"
  shows "\<exists>x c. cm_per_sec its total_time = Some x \<and> cycles_per_iter its total_time = Some c"
  using assms by (simp add: cm_per_sec_def cycles_per_iter_def)

lemma main_report_returns:
  assumes "total_time \<noteq> 0" "iterations res \<noteq> 0"
  shows "\<exists>cs. main_report sizes b total_time e res = Some cs"
proof -
  obtain x c where x: "cm_per_sec (iterations res) total_time = Some x"
     "cycles_per_iter (iterations res) total_time = Some c"
    using score_report_returns[OF assms] by blast
  obtain whole frac where "cm_per_mhz x = (whole, frac)" by fastforce
  with x have "\<exists>cs. score_report b total_time res = Some cs"
    by (simp only: score_report_def Let_def bind.bind_lunit prod.case) blast
  then have "\<exists>score. (if e = 0 \<and> find_known_id (seed_crc res) = Some 3 then score_report b total_time res
      else Some []) = Some score" by (simp split: if_split)
  then show ?thesis by (auto simp only: main_report_def Let_def bind.bind_lunit)
qed

lemma core_main_returns:
  assumes mem: "length h = 31" "length ds = 31" "length A = 81" "length B = 81" "length C = 81" "length m = 666"
    and env: "its \<noteq> 0" "clock 1 \<noteq> clock 0" "sizeof_list_head sizes \<le> 128"
  shows "\<exists>res' u' cs t. core_main busy clock sizes b (initial_volatiles kind its) h ds A B C m res u = Some (0, res', u') \<and>
     main_report sizes b (clock 1 - clock 0) (total_errors sizes res') res' = Some cs \<and>
     calls_text (snd (portable_init sizes) @ cs) = Some t \<and> sent u' = sent u @ concat (map crlf t) \<and>
     iterations res' = its \<and> res_size res' = 666 \<and> seed1 res' = run_seed kind \<and> seed3 res' = run_seed3 kind"
proof -
  let ?res = "res\<lparr>seed1 := run_seed kind, seed2 := run_seed kind,
     seed3 := run_seed3 kind, res_size := 666, iterations := its, execs := 7, err := 0\<rparr>"
  obtain h1 ds1 xs r1 l mt sb where i: "main_init h ds A B C m ?res = Some (h1, ds1, r1)"
     "list_ok h1 ds1 (res_list r1) xs" "res_ok r1" "r1 = ?res\<lparr>res_list := l, mat := mt, state_block := sb\<rparr>"
    using main_init_run[of h ds A B C m ?res kind] mem by auto
  obtain ds2 r2 where b: "iterate (h1, ds1, r1) = Some (h1, ds2, r2)" "res_ext (r1\<lparr>crclist := crclist r2\<rparr>) r2"
    using iterate_ok[OF i(2,3)] by (auto simp: bench_ok_def)
  have r1: "iterations r1 = its" by (simp add: i(4))
  have r2: "iterations r2 = its" "res_size r2 = 666" "seed1 r2 = run_seed kind" "seed3 r2 = run_seed3 kind"
    using b(2) by (simp_all add: res_ext_def i(4))
  let ?t = "clock 1 - clock 0"
  obtain n3 t3 where t: "timed_iterate clock 0 \<lparr>start_tick = 0, stop_tick = 0\<rparr> (h1, ds1, r1) = Some (n3, t3, h1, ds2, r2)"
     "get_time t3 = ?t"
    by (simp add: timed_iterate_def b(1) start_time_def stop_time_def get_time_def)
  obtain r3 where v: "validate sizes r2 = Some (total_errors sizes r2, r3)" "r3 = r2 \<or> (\<exists>e. r3 = r2\<lparr>err := e\<rparr>)"
    using validate_eq[of sizes r2] by (cases "find_known_id (seed_crc r2)") (simp_all, blast)
  then have r3: "iterations r3 = its" "res_size r3 = 666" "seed1 r3 = run_seed kind" "seed3 r3 = run_seed3 kind"
      "total_errors sizes r3 = total_errors sizes r2"
    using r2 by auto
  obtain cs where cs: "main_report sizes b ?t (total_errors sizes r2) r3 = Some cs"
    using main_report_returns[of ?t r3 sizes b "total_errors sizes r2"] env(1,2) r3(1) by auto
  obtain t1 u1 where p1: "calls_text (snd (portable_init sizes)) = Some t1" "sent u1 = sent u @ concat (map crlf t1)"
      "ee_calls busy (snd (portable_init sizes)) u = Some u1"
    using portme_calls.calls_print[OF portable_init_prints] by blast
  obtain t2 u2 where p2: "calls_text cs = Some t2" "sent u2 = sent u1 @ concat (map crlf t2)" "ee_calls busy cs u1 = Some u2"
    using portme_calls.calls_print[OF main_report_prints[OF cs]] by blast
  obtain pid pc where pi: "portable_init sizes = (pid, pc)" by fastforce
  have "core_main busy clock sizes b (initial_volatiles kind its) h ds A B C m res u = Some (0, r3, u2)"
    using env(3) env(1) p1(3)[unfolded pi snd_conv]
    by (simp add: core_main_def pi share_run i(1) auto_iterations_def get_iterations_def r1 t v(1) cs p2(3)
        portable_fini_def del: One_nat_def)
  then show ?thesis using cs r3 p1 p2 by auto
qed

text \<open>Iterating until the clock says that a second has passed.  The number of iterations is given only up
  to \<open>2 ^ 32\<close>.\<close>

definition round_ticks :: "(nat \<Rightarrow> ee_u32) \<Rightarrow> nat \<Rightarrow> ee_u32" where
  "round_ticks clock k = clock (2 * k + 1) - clock (2 * k)"

lemma auto_iterations_loop:
  assumes "list_ok h ds (res_list res) xs" "res_ok res" "iterations res = 0"
    and first: "ee_ticks_per_sec \<le> round_ticks clock k" "\<And>j. j < k \<Longrightarrow> round_ticks clock j < ee_ticks_per_sec"
  shows "\<exists>t ds' res'. auto_iterations clock 0 t0 (h, ds, res) = Some (2 * k + 2, t, h, ds', res') \<and>
     get_time t = round_ticks clock k \<and> list_ok h ds' (res_list res') xs \<and> res_ok res' \<and>
     iterations res' = 10 ^ Suc k * (1 + 10 div time_in_secs (round_ticks clock k))"
proof -
  let ?c = "\<lambda>(n :: nat, t :: timer, secs_passed :: ee_u32, b :: bench). Some (secs_passed < 1)"
  let ?b = "calibrate_body clock"
  have body: "\<exists>t' ds' res'. ?b (2 * j, t, secs, h, ds, res) =
       Some (2 * j + 2, t', time_in_secs (round_ticks clock j), h, ds', res') \<and>
     get_time t' = round_ticks clock j \<and> list_ok h ds' (res_list res') xs \<and> res_ok res' \<and>
     iterations res' = iterations res * 10"
    if ok: "list_ok h ds (res_list res) xs" "res_ok res" for j t secs ds res
  proof -
    let ?r = "res\<lparr>iterations := iterations res * 10\<rparr>"
    have ok': "list_ok h ds (res_list ?r) xs" "res_ok ?r" using ok by (simp_all add: res_ok_def)
    obtain ds2 r2 where r2: "iterate (h, ds, ?r) = Some (h, ds2, r2)" "list_ok h ds2 (res_list r2) xs" "res_ok r2"
       "res_ext (?r\<lparr>crclist := crclist r2\<rparr>) r2"
      using iterate_ok[OF ok'] by (auto simp: bench_ok_def)
    have "iterations r2 = iterations res * 10" using r2(4) by (simp add: res_ext_def)
    with r2 show ?thesis
      by (simp add: calibrate_body_def set_iterations_def get_iterations_def timed_iterate_def start_time_def stop_time_def get_time_def
          round_ticks_def)
  qed
  have secs: "time_in_secs x < 1 \<longleftrightarrow> x < ee_ticks_per_sec" for x
    by (simp add: time_in_secs_def ee_ticks_per_sec_def word_less_nat_alt unat_div div_eq_0_iff)
  have loop: "\<exists>t' ds' res'. while_loop ?c ?b (2 * j, t, 0, h, ds, res) =
       Some (2 * k + 2, t', time_in_secs (round_ticks clock k), h, ds', res') \<and>
     get_time t' = round_ticks clock k \<and> list_ok h ds' (res_list res') xs \<and> res_ok res' \<and>
     iterations res' = iterations res * 10 ^ Suc (k - j)"
    if "j \<le> k" "list_ok h ds (res_list res) xs" "res_ok res" for j t ds res
    using that
  proof (induction "k - j" arbitrary: j t ds res)
    case 0
    then have j: "j = k" by simp
    obtain t' ds' res' where s: "?b (2 * k, t, 0, h, ds, res) =
       Some (2 * k + 2, t', time_in_secs (round_ticks clock k), h, ds', res')"
     "get_time t' = round_ticks clock k" "list_ok h ds' (res_list res') xs" "res_ok res'" "iterations res' = iterations res * 10"
      using body[OF "0.prems"(2,3), of k t 0] by blast
    have "\<not> time_in_secs (round_ticks clock k) < 1" unfolding secs not_less by (rule first(1))
    then have "while_loop ?c ?b (2 * k, t, 0, h, ds, res) =
       Some (2 * k + 2, t', time_in_secs (round_ticks clock k), h, ds', res')"
      using while_loop_step[where c = ?c and b = ?b, OF _ s(1)] by (simp add: while_loop_stop)
    with s j show ?case by simp
  next
    case (Suc d)
    then have j: "j < k" "Suc j \<le> k" "d = k - Suc j" by auto
    obtain t' ds' res' where s: "?b (2 * j, t, 0, h, ds, res) =
       Some (2 * j + 2, t', time_in_secs (round_ticks clock j), h, ds', res')"
     "get_time t' = round_ticks clock j" "list_ok h ds' (res_list res') xs" "res_ok res'" "iterations res' = iterations res * 10"
      using body[OF Suc.prems(2,3), of j t 0] by blast
    have "time_in_secs (round_ticks clock j) = 0" using first(2)[OF j(1)]
      by (simp add: time_in_secs_def ee_ticks_per_sec_def word_less_nat_alt unat_div word_unat_eq_iff)
    then have "while_loop ?c ?b (2 * j, t, 0, h, ds, res) = while_loop ?c ?b (2 * Suc j, t', 0, h, ds', res')"
      using while_loop_step[where c = ?c and b = ?b, OF _ s(1)] by simp
    moreover have "k - j = Suc (k - Suc j)" using j(1) by simp
    ultimately show ?case using Suc.hyps(1)[OF j(3,2) s(3,4), of t'] s(5) by (auto simp: ac_simps)
  qed
  have start: "list_ok h ds (res_list (res\<lparr>iterations := 1\<rparr>)) xs" "res_ok (res\<lparr>iterations := 1\<rparr>)"
    using assms(1,2) by (simp_all add: res_ok_def)
  obtain t' ds' res' where w: "while_loop ?c ?b (2 * 0, t0, 0, h, ds, res\<lparr>iterations := 1\<rparr>) =
       Some (2 * k + 2, t', time_in_secs (round_ticks clock k), h, ds', res')"
     "get_time t' = round_ticks clock k" "list_ok h ds' (res_list res') xs" "res_ok res'" "iterations res' = 10 ^ Suc k"
    using loop[OF _ start, of 0 t0] by auto
  have "\<not> time_in_secs (round_ticks clock k) < 1" unfolding secs not_less by (rule first(1))
  then have nz: "time_in_secs (round_ticks clock k) \<noteq> 0" by auto
  let ?n = "10 ^ Suc k * (1 + 10 div time_in_secs (round_ticks clock k))"
  have "auto_iterations clock 0 t0 (h, ds, res) =
     Some (2 * k + 2, t', h, ds', res'\<lparr>iterations := ?n\<rparr>)"
    using w(1) nz assms(3) unfolding auto_iterations_def
    by (simp add: get_iterations_def set_iterations_def w(5))
  moreover have "list_ok h ds' (res_list (res'\<lparr>iterations := ?n\<rparr>)) xs" "res_ok (res'\<lparr>iterations := ?n\<rparr>)"
    using w(3,4) by (simp_all add: res_ok_def)
  ultimately show ?thesis using w(2) by (intro exI[of _ t'] exI[of _ ds'] exI[of _ "res'\<lparr>iterations := ?n\<rparr>"]) simp
qed

text \<open>The sizes that \<open>check_data_types\<close> complains about.\<close>

definition wrong_types :: "type_sizes \<Rightarrow> nat" where
  "wrong_types t = length (filter id [sizeof_u8 t \<noteq> 1, sizeof_u16 t \<noteq> 2, sizeof_s16 t \<noteq> 2, sizeof_s32 t \<noteq> 4,
     sizeof_u32 t \<noteq> 4, sizeof_ptr_int t \<noteq> sizeof_int_pointer t])"

lemma wrong_size_count: "fst (wrong_size w msg r) = fst r + (if w then 1 else 0)"
  by (cases r) (simp add: wrong_size_def)

lemma check_data_types_count: "fst (check_data_types t) = of_nat (wrong_types t)"
proof -
  have "fst (case r of (retval, cs) \<Rightarrow> (retval, f retval cs)) = fst r" for r :: "ee_u8 \<times> call list" and f :: "ee_u8 \<Rightarrow> call list \<Rightarrow> call list"
    by (cases r) simp
  then show ?thesis
    unfolding check_data_types_def Let_def by (simp only: wrong_size_count) (simp add: wrong_types_def)
qed

lemma wrong_types_le: "wrong_types t \<le> 6"
  unfolding wrong_types_def by (rule order_trans[OF length_filter_le]) simp

lemma wrong_crcs_le: "wrong_crcs k res \<le> 3"
  by (simp add: wrong_crcs_def)

lemma small_sint: "n \<le> 9 \<Longrightarrow> sint (of_nat n :: ee_s16) = int n" "n \<le> 9 \<Longrightarrow> sint (- 1 + of_nat n :: ee_s16) = int n - 1"
proof -
  assume "n \<le> 9"
  then have "n \<in> {0,1,2,3,4,5,6,7,8,9}" by auto
  then show "sint (of_nat n :: ee_s16) = int n" "sint (- 1 + of_nat n :: ee_s16) = int n - 1" by auto
qed

section \<open>Parsing a seed\<close>

lemma dec_value_digit: "d < 10 \<Longrightarrow> dec_value (dec_digit d) = Some (of_nat d)"
proof -
  assume "d < 10"
  then have "d \<in> {0, 1, 2, 3, 4, 5, 6, 7, 8, 9}" by auto
  then show ?thesis by (auto simp: dec_value_def)
qed

lemma parse_digits_app:
  assumes "\<And>d. d \<in> set ds \<Longrightarrow> val (ch d) = Some (of_nat d)" "val c = None"
  shows "parse_digits val base (map ch ds @ c # s) r = Some (foldl (\<lambda>w d. w * base + of_nat d) r ds, c # s)"
  using assms(1) by (induction ds arbitrary: r) (simp_all add: assms(2))

lemma foldl_of_nat: "foldl (\<lambda>w d. w * of_nat b + of_nat d) (of_nat r) ds = (of_nat (foldl (\<lambda>w d. w * b + d) r ds) :: 'a::len word)"
proof (induction ds arbitrary: r)
  case (Cons d ds)
  show ?case using Cons.IH[of "r * b + d"] by simp
qed simp

lemma parse_dec_text:
  assumes "dec_value c = None"
  shows "parse_digits dec_value 10 (dec_text v @ c # s) 0 = Some (of_nat v, c # s)"
proof -
  have "dec_text v = map dec_digit (if v = 0 then [0] else rev (digits 10 v))"
    by (simp add: dec_text_def numeral_text_def)
  moreover have "parse_digits dec_value 10 (map dec_digit (if v = 0 then [0] else rev (digits 10 v)) @ c # s) 0 =
     Some (foldl (\<lambda>w d. w * 10 + of_nat d) 0 (if v = 0 then [0] else rev (digits 10 v)), c # s)"
  proof (rule parse_digits_app)
    fix d assume "d \<in> set (if v = 0 then [0] else rev (digits 10 v))"
    then have "d < 10" using digits_less[of 10 d v] by (auto split: if_splits)
    then show "dec_value (dec_digit d) = Some (of_nat d)" by (rule dec_value_digit)
  qed (rule assms)
  moreover have "foldl (\<lambda>w d. w * 10 + of_nat d) 0 (rev (digits 10 v)) = (of_nat v :: 32 word)"
    using foldl_of_nat[of 10 0 "rev (digits 10 v)", where 'a = 32] by (simp add: foldl_digits)
  ultimately show ?thesis by simp
qed

section \<open>Properties\<close>

text \<open>Any number of iterations of the benchmark returns, and it leaves the list with its heads, links and
  data as they were, and a result block that can run it again.\<close>

theorem iterate_restores:
  assumes "list_ok h ds (res_list res) xs" "res_ok res"
  shows "\<exists>ds' res'. iterate (h, ds, res) = Some (h, ds', res') \<and> length ds' = length ds \<and>
     (\<forall>x \<in> set xs. ds' ! info (h ! x) = ds ! info (h ! x)) \<and> list_ok h ds' (res_list res') xs \<and> res_ok res' \<and>
     res_ext (res\<lparr>crclist := crclist res'\<rparr>) res'"
  using iterate_ok[OF assms] unfolding bench_ok_def by blast

lemma iterate_restores_witness:
  "\<exists>ds' res'. iterate (demo_heads, demo_datas, demo_results) = Some (demo_heads, ds', res') \<and> length ds' = length demo_datas \<and>
     (\<forall>x \<in> set [0, 2, 1]. ds' ! info (demo_heads ! x) = demo_datas ! info (demo_heads ! x)) \<and>
     list_ok demo_heads ds' (res_list res') [0, 2, 1] \<and> res_ok res' \<and> res_ext (demo_results\<lparr>crclist := crclist res'\<rparr>) res'"
  by (rule iterate_restores[OF demo_list_ok demo_res_ok])

text \<open>C16. \<open>main\<close> completes in each of the three configurations of \<^verbatim>\<open>core_portme.c\<close>, for every number of
  iterations but zero and every delay of the transmitter: set-up, benchmark and validation stay inside
  of their memory and return, and what is sent is the text of the report, provided the cycle counter
  moved during the run.\<close>

theorem core_main_completes:
  assumes "length h = 31" "length ds = 31" "length A = 81" "length B = 81" "length C = 81" "length m = 666"
    and "its \<noteq> 0" "clock 1 \<noteq> clock 0" "sizeof_list_head sizes \<le> 128"
  shows "\<exists>res' u' cs t. core_main busy clock sizes b (initial_volatiles kind its) h ds A B C m res u = Some (0, res', u') \<and>
     main_report sizes b (clock 1 - clock 0) (total_errors sizes res') res' = Some cs \<and>
     calls_text (snd (portable_init sizes) @ cs) = Some t \<and> sent u' = sent u @ concat (map crlf t) \<and>
     iterations res' = its \<and> res_size res' = 666 \<and> seed1 res' = run_seed kind \<and> seed3 res' = run_seed3 kind"
  using assms by (rule core_main_returns)

definition rv32_sizes :: type_sizes where
  "rv32_sizes = \<lparr>sizeof_u8 = 1, sizeof_u16 = 2, sizeof_s16 = 2, sizeof_s32 = 4, sizeof_u32 = 4, sizeof_ptr_int = 4,
     sizeof_int_pointer = 4, sizeof_u8_pointer = 4, sizeof_list_head = 8\<rparr>"

definition demo_build :: build_strings where
  "demo_build = \<lparr>compiler_version = ''GCC'', compiler_flags = ''-O2'', mem_location = ''STATIC''\<rparr>"

lemma core_main_completes_witness:
  "\<exists>res' u' cs t. core_main (\<lambda>_. 2) (\<lambda>n. of_nat n * 5000) rv32_sizes demo_build (initial_volatiles Performance_Run 100)
       (replicate 31 \<lparr>link = None, info = 0\<rparr>) (replicate 31 \<lparr>data16 = 0, idx = 0\<rparr>)
       (replicate 81 0) (replicate 81 0) (replicate 81 0) (replicate 666 0) demo_results \<lparr>wait = 0, sent = []\<rparr> = Some (0, res', u') \<and>
     main_report rv32_sizes demo_build (of_nat 1 * 5000 - of_nat 0 * 5000) (total_errors rv32_sizes res') res' = Some cs \<and>
     calls_text (snd (portable_init rv32_sizes) @ cs) = Some t \<and>
     sent u' = sent \<lparr>wait = 0, sent = []\<rparr> @ concat (map crlf t) \<and> iterations res' = 100 \<and>
     res_size res' = 666 \<and> seed1 res' = run_seed Performance_Run \<and> seed3 res' = run_seed3 Performance_Run"
  by (rule core_main_completes) (simp_all add: rv32_sizes_def)

text \<open>C17. Without a given number of iterations, \<open>main\<close> multiplies by ten until a round takes a second:
  if round \<open>k\<close> is the first to do so, the loop ends after it, the list and the result block are intact,
  and the number chosen is \<open>10 ^ (k + 1) * (1 + 10 div seconds)\<close>, in 32-bit arithmetic.\<close>

theorem auto_iterations_calibrates:
  assumes "list_ok h ds (res_list res) xs" "res_ok res" "iterations res = 0"
    and "ee_ticks_per_sec \<le> round_ticks clock k" "\<forall>j < k. round_ticks clock j < ee_ticks_per_sec"
  shows "\<exists>t ds' res'. auto_iterations clock 0 t0 (h, ds, res) = Some (2 * k + 2, t, h, ds', res') \<and>
     get_time t = round_ticks clock k \<and> list_ok h ds' (res_list res') xs \<and> res_ok res' \<and>
     iterations res' = 10 ^ Suc k * (1 + 10 div time_in_secs (round_ticks clock k))"
  using assms by (intro auto_iterations_loop) auto

lemma auto_iterations_calibrates_witness:
  "\<exists>t ds' res'. auto_iterations (\<lambda>n. of_nat (n * n * n) * 10000000) 0 \<lparr>start_tick = 0, stop_tick = 0\<rparr>
       (demo_heads, demo_datas, demo_results\<lparr>iterations := 0\<rparr>) = Some (2 * 1 + 2, t, demo_heads, ds', res') \<and>
     get_time t = round_ticks (\<lambda>n. of_nat (n * n * n) * 10000000) 1 \<and>
     list_ok demo_heads ds' (res_list res') [0, 2, 1] \<and> res_ok res' \<and>
     iterations res' = 10 ^ Suc 1 * (1 + 10 div time_in_secs (round_ticks (\<lambda>n. of_nat (n * n * n) * 10000000) 1))"
proof (rule auto_iterations_calibrates)
  show "list_ok demo_heads demo_datas (res_list (demo_results\<lparr>iterations := 0\<rparr>)) [0, 2, 1]"
    using demo_list_ok by simp
  show "res_ok (demo_results\<lparr>iterations := 0\<rparr>)" using demo_res_ok by (simp add: res_ok_def)
qed (simp_all add: round_ticks_def ee_ticks_per_sec_def)

text \<open>C24. The \<open>switch\<close> on the seed CRC recognises the performance and the validation run of this
  configuration (666 bytes per algorithm) and not the profile run, which expects 400 bytes; and it
  knows the runs named in its comments.\<close>

theorem known_runs_recognised:
  "map_option (\<lambda>r. find_known_id (seed_crc r)) (share (main_seeds (initial_volatiles kind its) res)) =
     Some (case kind of Validation_Run \<Rightarrow> Some 4 | Performance_Run \<Rightarrow> Some 3 | Profile_Run \<Rightarrow> None) \<and>
   find_known_id (seed_crc (res\<lparr>seed1 := 0, seed2 := 0, seed3 := 0x66, res_size := 2000\<rparr>)) = Some 0 \<and>
   find_known_id (seed_crc (res\<lparr>seed1 := 0x3415, seed2 := 0x3415, seed3 := 0x66, res_size := 2000\<rparr>)) = Some 1 \<and>
   find_known_id (seed_crc (res\<lparr>seed1 := 8, seed2 := 8, seed3 := 8, res_size := 400\<rparr>)) = Some 2"
proof -
  have id: "find_known_id 0xe9f5 = Some 3" "find_known_id 0x18f2 = Some 4" "find_known_id 0x8a02 = Some 0"
    "find_known_id 0x7b05 = Some 1" "find_known_id 0x4eaf = Some 2"
    by (simp_all add: find_known_id_def)
  show ?thesis
    by (cases kind) (simp_all add: share_run seed_crc_def run_seed_def run_seed3_def known_constants_2k known_constants_6k id)
qed

text \<open>C18. The error count of \<open>main\<close> is exactly the number of selected algorithms with a wrong CRC, or
  \<open>- 1\<close> for an unknown run, plus the number of types of the wrong size.  So an unknown run with one
  wrong type counts zero errors, and is reported as validated.\<close>

theorem validate_counts:
  "\<exists>e res'. validate sizes res = Some (e, res') \<and>
     sint e = (case find_known_id (seed_crc res) of None \<Rightarrow> - 1 | Some k \<Rightarrow> int (wrong_crcs k res)) + int (wrong_types sizes) \<and>
     (\<exists>n. res' = res\<lparr>err := n\<rparr>)"
proof -
  have n: "wrong_types sizes \<le> 9" and m: "wrong_crcs k res + wrong_types sizes \<le> 9" for k
    using wrong_types_le[of sizes] wrong_crcs_le[of k res] by simp_all
  have "ucast (of_nat (wrong_types sizes) :: ee_u8) = (of_nat (wrong_types sizes) :: ee_s16)"
  proof -
    have "wrong_types sizes \<in> {0,1,2,3,4,5,6}" using wrong_types_le[of sizes] by auto
    then show ?thesis by auto
  qed
  then have "sint (total_errors sizes res) = (case find_known_id (seed_crc res) of None \<Rightarrow> - 1
       | Some k \<Rightarrow> int (wrong_crcs k res)) + int (wrong_types sizes)"
    using small_sint(2)[OF n] small_sint(1)[OF m] by (simp add: total_errors_def check_data_types_count split: option.split)
  moreover have "\<exists>n. (case find_known_id (seed_crc res) of None \<Rightarrow> res | Some k \<Rightarrow> res\<lparr>err := of_nat (wrong_crcs k res)\<rparr>) =
      res\<lparr>err := n\<rparr>"
  proof (cases "find_known_id (seed_crc res)")
    case None
    then show ?thesis by (intro exI[of _ "err res"]) simp
  next
    case (Some k)
    then show ?thesis by (intro exI[of _ "of_nat (wrong_crcs k res)"]) simp
  qed
  ultimately show ?thesis using validate_eq by blast
qed

text \<open>C25. If none of the three algorithms is selected, \<open>main\<close> divides by zero; otherwise the shares of the
  memory fit it.\<close>

theorem share_defined_iff:
  "case share res of None \<Rightarrow> execs res AND 7 = 0
   | Some r \<Rightarrow> execs res AND 7 \<noteq> 0 \<and> num_algorithms (execs res) * unat (res_size r) \<le> unat (res_size res)"
proof -
  have sel: "selected ex i \<longleftrightarrow> bit ex i" if "i < 32" for ex i
  proof -
    have "push_bit i (1 :: 32 word) AND ex = (if bit ex i then push_bit i 1 else 0)"
      by (rule bit_word_eqI) (auto simp: bit_simps)
    moreover have "bit (push_bit i (1 :: 32 word)) i" using that by (simp add: bit_simps)
    then have "push_bit i (1 :: 32 word) \<noteq> 0" by (metis bit_0_eq bot_apply bot_bool_def)
    ultimately show ?thesis by (simp add: selected_def)
  qed
  have seven: "bit (7 :: 32 word) n \<longleftrightarrow> n < 3" for n
    using bit_mask_iff[of 3 n, where 'a = "32 word"] by (auto simp: mask_eq_exp_minus_1 possible_bit_def)
  have "num_algorithms ex = 0 \<longleftrightarrow> ex AND 7 = 0" for ex :: ee_u32
  proof -
    have "num_algorithms ex = 0 \<longleftrightarrow> (\<forall>i < 3. \<not> bit ex i)"
      using sel by (auto simp: num_algorithms_def filter_empty_conv)
    also have "\<dots> \<longleftrightarrow> ex AND 7 = 0"
      unfolding bit_eq_iff bit_and_iff seven by (auto, drule spec, erule impE, rule less_trans) auto
    finally show ?thesis .
  qed
  moreover have "num_algorithms (execs res) \<le> 3"
    unfolding num_algorithms_def by (rule order_trans[OF length_filter_le]) simp
  moreover have "n * unat (x div of_nat n) \<le> unat x" if "n \<le> 3" for n and x :: ee_u32
  proof -
    have "unat (of_nat n :: ee_u32) = n" using that by (simp only: unat_of_nat) simp
    then show ?thesis by (simp add: unat_div)
  qed
  ultimately show ?thesis by (auto simp: share_def)
qed

text \<open>The CoreMark/MHz figure loses nothing: integer part and thousandths are a thousandth of ten
  times the iterations per second, which are the exact quotient as long as it fits 32 bits.\<close>

theorem score_exact:
  assumes "total_time \<noteq> 0" "unat iters * 100000000 div unat total_time < 2 ^ 32"
  shows "\<exists>x. cm_per_sec iters total_time = Some x \<and> unat x = unat iters * 100000000 div unat total_time \<and>
     (case cm_per_mhz x of (whole, frac) \<Rightarrow>
        unat whole * 1000 + unat frac = 10 * unat x \<and> unat frac < 1000)"
proof -
  let ?p = "1 * ucast iters * ucast ee_ticks_per_sec :: 64 word"
  have p: "unat ?p = unat iters * 100000000"
  proof -
    have "unat iters * 100000000 < 2 ^ 32 * 100000000" using unsigned_less[of iters, where 'a = nat] by simp
    then have "unat iters * 100000000 < 2 ^ 64" by simp
    moreover have "unat (ucast iters :: 64 word) = unat iters"
      using unsigned_less[of iters, where 'a = nat] by (simp only: unsigned_ucast_eq take_bit_eq_mod) simp
    ultimately show ?thesis by (simp add: ee_ticks_per_sec_def unat_word_ariths)
  qed
  let ?x = "ucast (?p div ucast total_time) :: ee_u32"
  have q: "unat (?p div ucast total_time) = unat iters * 100000000 div unat total_time"
    using unsigned_less[of total_time, where 'a = nat] by (simp only: unat_div p unsigned_ucast_eq take_bit_eq_mod) simp
  have x: "unat ?x = unat iters * 100000000 div unat total_time"
    using assms(2) by (simp only: unsigned_ucast_eq take_bit_eq_mod q) simp
  have mhz: "ee_ticks_per_sec div 1000000 = 100" by (simp add: ee_ticks_per_sec_def)
  have frac: "unat (?x mod 100 * 1000) = unat ?x mod 100 * 1000"
  proof -
    have "unat ?x mod 100 * 1000 < 2 ^ 32" by (rule le_less_trans[of _ "99 * 1000"]) simp_all
    then show ?thesis by (simp add: unat_word_ariths unat_mod)
  qed
  have "unat (?x div 100) * 1000 + unat ((?x mod 100 * 1000) div 100) = 10 * unat ?x"
  proof -
    have "n div 100 * 1000 + (n mod 100 * 1000) div 100 = 10 * n" for n :: nat
    proof -
      have "n mod 100 * 1000 div 100 = n mod 100 * 10" by simp
      then show ?thesis using div_mult_mod_eq[of n 100] by linarith
    qed
    then have "unat ?x div 100 * 1000 + (unat ?x mod 100 * 1000) div 100 = 10 * unat ?x" by blast
    moreover have "unat (100 :: ee_u32) = 100" by simp
    ultimately show ?thesis by (simp only: unat_div frac)
  qed
  moreover have "unat ((?x mod 100 * 1000) div 100) < 1000"
    by (simp only: unat_div frac) simp
  ultimately show ?thesis using assms(1) x
    by (simp add: cm_per_sec_def cm_per_mhz_def Let_def mhz)
qed

lemma score_exact_witness:
  "\<exists>x. cm_per_sec 100 30000000 = Some x \<and> unat x = unat (100 :: ee_u32) * 100000000 div unat (30000000 :: ee_u32) \<and>
     (case cm_per_mhz x of (whole, frac) \<Rightarrow> unat whole * 1000 + unat frac = 10 * unat x \<and> unat frac < 1000)"
  by (rule score_exact) simp_all

text \<open>C19. \<open>parseval\<close> reads back what \<open>_print_int\<close> prints: the decimal text of every 32-bit signed
  number, the least included, is parsed to that number; with a \<open>K\<close> or an \<open>M\<close> behind it, to its
  multiple, in 32-bit arithmetic.\<close>

theorem parseval_reads_int_text:
  "parseval (int_text v @ [0]) = Some v \<and> parseval (int_text v @ [75, 0]) = Some (v * 1024) \<and>
   parseval (int_text v @ [77, 0]) = Some (v * 1048576)"
proof -
  have mag: "parse_magnitude (dec_text n @ c # s) =
      Some (if c = 75 then of_nat n * 1024 else if c = 77 then of_nat n * 1048576 else of_nat n)"
    if c: "dec_value c = None" "c \<noteq> 120" for c s n
  proof -
    obtain d t where t: "dec_text n = d # t" using dec_text_denotes(1)[of n] by (cases "dec_text n") auto
    have hex: "(if d = 48 then map_option (\<lambda>c. c = 120) (aread (d # t @ c # s) 1) else Some False) = Some False"
    proof (cases "d = 48")
      case True
      then have "dec_text n = [48]" using dec_text_denotes(4)[of n] t by (simp add: dec_text_def numeral_text_def)
      then show ?thesis using t c(2) by (simp add: aread_def)
    qed simp
    have "parse_digits dec_value 10 (d # t @ c # s) 0 = Some (of_nat n, c # s)"
      using parse_dec_text[OF c(1), of n s] t by (simp only: append_Cons)
    then show ?thesis unfolding t append_Cons parse_magnitude_def
      by (simp only: hex aread_in length_Cons zero_less_Suc nth_Cons_0 bind.bind_lunit if_False prod.case Let_def) simp
  qed
  have main: "parseval (int_text v @ c # s) = Some (if c = 75 then v * 1024 else if c = 77 then v * 1048576 else v)"
    if c: "dec_value c = None" "c \<noteq> 120" for c s
  proof (cases "sint v < 0")
    case True
    then have "parseval (int_text v @ c # s) = map_option uminus (parse_magnitude (dec_text (unat (- v)) @ c # s))"
      by (cases "parse_magnitude (dec_text (unat (- v)) @ c # s)") (simp_all add: int_text_def parseval_def)
    then show ?thesis by (simp add: mag[OF c])
  next
    case False
    obtain d t where t: "dec_text (unat v) = d # t" using dec_text_denotes(1)[of "unat v"] by (cases "dec_text (unat v)") auto
    then have "48 \<le> d" using dec_text_denotes(2)[where c = d and n = "unat v"] by simp
    then have "d \<noteq> 45" by auto
    then have "parseval (int_text v @ c # s) = parse_magnitude (dec_text (unat v) @ c # s)"
      using False t by (simp add: int_text_def parseval_def)
    then show ?thesis by (simp add: mag[OF c])
  qed
  show ?thesis using main[of 0 "[]"] main[of 75 "[0]"] main[of 77 "[0]"] by (simp add: dec_value_def)
qed

end
