(* ===== verification/Dhry_Port.thy ===== *)
theory Dhry_Port
  imports Printing
begin

text \<open>
  The port layer of the Dhrystone program, \<^verbatim>\<open>dhrystone/src/dhry_port.c\<close>: the console, the two integer
  printers, the \<^verbatim>\<open>printf\<close> replacement (which honours width and padding, and counts characters) and
  the string functions.  Unlike the console of the CoreMark port it does not translate newlines.
\<close>

section \<open>Console\<close>

text \<open>\<open>uart_putc\<close> and \<open>uart_puts\<close>.\<close>

definition uart_putc :: "(nat \<Rightarrow> nat) \<Rightarrow> ee_u8 \<Rightarrow> uart \<Rightarrow> uart option" where
  "uart_putc busy c u = do { u \<leftarrow> wait_free u; Some (uart_write busy c u) }"

definition uart_puts :: "(nat \<Rightarrow> nat) \<Rightarrow> ee_u8 list \<Rightarrow> uart \<Rightarrow> uart option" where
  "uart_puts busy = put_string (uart_putc busy)"

lemma uart_putc_sends: "sends u [c] (uart_putc busy c u)"
  by (simp add: uart_putc_def wait_free_eq uart_write_def sends_def)

interpretation dhry: console "uart_putc busy" "\<lambda>c. [c]" for busy
  by unfold_locales (rule uart_putc_sends)

lemma concat_single [simp]: "concat (map (\<lambda>c. [c]) t) = t"
  by (induction t) simp_all

text \<open>\<open>while (n--) uart_putc(buf[n + 1])\<close>\<close>

fun put_shifted :: "(ee_u8 \<Rightarrow> uart \<Rightarrow> uart option) \<Rightarrow> buffer \<Rightarrow> nat \<Rightarrow> uart \<Rightarrow> uart option" where
  "put_shifted putc b 0 u = Some u"
| "put_shifted putc b (Suc n) u = do { c \<leftarrow> bget b (n + 1); u \<leftarrow> putc c u; put_shifted putc b n u }"

definition print_uint :: "(nat \<Rightarrow> nat) \<Rightarrow> ee_u32 \<Rightarrow> ee_s32 \<Rightarrow> uart \<Rightarrow> uart option" where
  "print_uint busy v base u =
     (if v = 0 then uart_putc busy 48 u
      else if base = 0 then None
      else do {
        (buf, n, v) \<leftarrow> digit_loop hex_char base (replicate 12 None, 0, v);
        put_shifted (uart_putc busy) buf n u })"

definition print_uint_rev :: "(nat \<Rightarrow> nat) \<Rightarrow> ee_u32 \<Rightarrow> ee_s32 \<Rightarrow> uart \<Rightarrow> uart option" where
  "print_uint_rev busy v base u =
     (if v = 0 then uart_putc busy 48 u
      else if base = 0 then None
      else do {
        (buf, n, v) \<leftarrow> digit_loop hex_char base (replicate 12 None, 0, v);
        put_back (uart_putc busy) buf n u })"

section \<open>printf\<close>

text \<open>\<open>for (p = n; p < width; p++) { uart_putc(pad); cnt++; }\<close>\<close>

definition put_pads :: "(nat \<Rightarrow> nat) \<Rightarrow> ee_u8 \<Rightarrow> nat \<Rightarrow> nat \<Rightarrow> nat \<times> uart \<Rightarrow> (nat \<times> uart) option" where
  "put_pads busy pad n width = for_loop n width
     (\<lambda>p (cnt, u). do { u \<leftarrow> uart_putc busy pad u; Some (cnt + 1, u) })"

text \<open>The digits of a number into \<open>tmp\<close>, the padding, and the digits out again.  The count grows by one
  per character.\<close>

definition dhr_number :: "(nat \<Rightarrow> nat) \<Rightarrow> nat \<Rightarrow> (ee_u32 \<Rightarrow> ee_u8 option) \<Rightarrow> ee_u32 \<Rightarrow> ee_u8 \<Rightarrow> nat
    \<Rightarrow> ee_u32 \<Rightarrow> nat \<times> uart \<Rightarrow> (nat \<times> uart) option" where
  "dhr_number busy room digit base pad width v s = do {
     (tmp, n) \<leftarrow> (if v = 0 then do { b \<leftarrow> bput (replicate room None) 0 48; Some (b, 1) }
                 else Some (replicate room None, 0));
     (tmp, n, v) \<leftarrow> digit_loop digit base (tmp, n, v);
     (cnt, u) \<leftarrow> put_pads busy pad n width s;
     u \<leftarrow> put_back (uart_putc busy) tmp n u;
     Some (cnt + n, u) }"

text \<open>\<open>while (*s) { uart_putc(*s++); cnt++; }\<close>\<close>

fun put_counted :: "(nat \<Rightarrow> nat) \<Rightarrow> ee_u8 list \<Rightarrow> nat \<times> uart \<Rightarrow> (nat \<times> uart) option" where
  "put_counted busy [] s = None"
| "put_counted busy (c # t) (cnt, u) =
     (if c = 0 then Some (cnt, u) else do { u \<leftarrow> uart_putc busy c u; put_counted busy t (cnt + 1, u) })"

definition dhr_convert :: "(nat \<Rightarrow> nat) \<Rightarrow> ee_u8 \<Rightarrow> ee_u8 \<Rightarrow> nat \<Rightarrow> arg list \<Rightarrow> nat \<times> uart
    \<Rightarrow> (arg list \<times> nat \<times> uart) option" where
  "dhr_convert busy c pad width args = (\<lambda>(cnt, u).
     (if c = 100 then do {
        (v, args) \<leftarrow> int_arg args;
        (v, cnt, u) \<leftarrow> (if sint v < 0 then do { u \<leftarrow> uart_putc busy 45 u; Some (- v, cnt + 1, u) }
                         else Some (v, cnt, u));
        map_option (Pair args) (dhr_number busy 12 dec_char 10 pad width v (cnt, u)) }
      else if c = 117 then do {
        (v, args) \<leftarrow> int_arg args;
        map_option (Pair args) (dhr_number busy 12 dec_char 10 pad width v (cnt, u)) }
      else if c = 120 then do {
        (v, args) \<leftarrow> int_arg args;
        map_option (Pair args) (dhr_number busy 9 hex_char 16 pad width v (cnt, u)) }
      else if c = 99 then do {
        (v, args) \<leftarrow> int_arg args;
        u \<leftarrow> uart_putc busy (ucast v) u;
        Some (args, cnt + 1, u) }
      else if c = 115 then do {
        (s, args) \<leftarrow> str_arg args;
        map_option (Pair args) (put_counted busy s (cnt, u)) }
      else if c = 37 then do { u \<leftarrow> uart_putc busy 37 u; Some (args, cnt + 1, u) }
      else do {
        u \<leftarrow> uart_putc busy 37 u;
        u \<leftarrow> uart_putc busy c u;
        Some (args, cnt + 2, u) }))"

function dhr_printf_from :: "(nat \<Rightarrow> nat) \<Rightarrow> ee_u8 list \<Rightarrow> arg list \<Rightarrow> nat \<times> uart \<Rightarrow> (nat \<times> uart) option" where
  "dhr_printf_from busy fmt args s = do {
     (c, f) \<leftarrow> next_char fmt;
     if c = 0 then Some s
     else if c \<noteq> 37 then do {
       let (cnt, u) = s;
       u \<leftarrow> uart_putc busy c u;
       dhr_printf_from busy f args (cnt + 1, u) }
     else do {
       (c, f') \<leftarrow> next_char f;
       let (pad, f) = (if c = 48 then (48, f') else (32, f));
       (width, f) \<leftarrow> scan_width f 0;
       (c, f) \<leftarrow> next_char f;
       (args, s) \<leftarrow> dhr_convert busy c pad width args s;
       dhr_printf_from busy f args s } }"
  by pat_completeness auto
termination
  by (relation "measure (\<lambda>(busy, fmt, args, s). length fmt)")
    (auto dest!: scan_width_shorter next_char_shorter split: if_splits)

declare dhr_printf_from.simps [simp del]

definition dhr_printf :: "(nat \<Rightarrow> nat) \<Rightarrow> ee_u8 list \<Rightarrow> arg list \<Rightarrow> uart \<Rightarrow> (nat \<times> uart) option" where
  "dhr_printf busy fmt args u = dhr_printf_from busy fmt args (0, u)"

section \<open>Timer and strings\<close>

text \<open>\<open>read_mtime\<close>: the value of the counter at the \<open>n\<close>-th read.\<close>

definition read_mtime :: "(nat \<Rightarrow> ee_u32) \<Rightarrow> nat \<Rightarrow> ee_u32 \<times> nat" where
  "read_mtime clock n = (clock n, n + 1)"

text \<open>\<open>strcpy\<close> and \<open>strcmp\<close> between two distinct arrays; \<open>i\<close> is how far both pointers have moved.\<close>

definition strcpy :: "buffer \<Rightarrow> buffer \<Rightarrow> buffer option" where
  "strcpy dest src = do {
     (d, i, c) \<leftarrow> while_loop (\<lambda>(d, i, c). Some (c \<noteq> 0))
       (\<lambda>(d, i, c). do { c \<leftarrow> bget src i; d \<leftarrow> bput d i c; Some (d, i + 1, c) }) (dest, 0, 1);
     Some d }"

definition strcmp :: "buffer \<Rightarrow> buffer \<Rightarrow> int option" where
  "strcmp s1 s2 = do {
     i \<leftarrow> while_loop (\<lambda>i. do {
         c1 \<leftarrow> bget s1 i;
         if c1 \<noteq> 0 then do { c2 \<leftarrow> bget s2 i; Some (c1 = c2) } else Some False })
       (\<lambda>i. Some (i + 1)) 0;
     c1 \<leftarrow> bget s1 i;
     c2 \<leftarrow> bget s2 i;
     Some (uint c1 - uint c2) }"


section \<open>What is sent\<close>

lemma put_pads_spec:
  "\<exists>u'. put_pads busy pad n width (cnt, u) = Some (cnt + (width - n), u') \<and> sent u' = sent u @ replicate (width - n) pad"
proof (induction "width - n" arbitrary: n cnt u)
  case 0
  then show ?case by (simp add: put_pads_def)
next
  case (Suc d)
  then have n: "n < width" "d = width - Suc n" by auto
  obtain u1 where u1: "uart_putc busy pad u = Some u1" "sent u1 = sent u @ [pad]"
    using uart_putc_sends[of u pad busy] by (auto simp: sends_def)
  obtain u2 where u2: "put_pads busy pad (Suc n) width (cnt + 1, u1) = Some (cnt + 1 + (width - Suc n), u2)"
     "sent u2 = sent u1 @ replicate (width - Suc n) pad"
    using Suc.hyps(1)[OF n(2)] by blast
  have "put_pads busy pad n width (cnt, u) = put_pads busy pad (Suc n) width (cnt + 1, u1)"
    using n(1) u1(1) by (simp add: put_pads_def for_loop_step)
  moreover have "width - n = Suc (width - Suc n)" using n(1) by simp
  ultimately show ?case using u1(2) u2 by (simp flip: replicate_append_same)
qed

definition padded :: "ee_u8 \<Rightarrow> nat \<Rightarrow> ee_u8 list \<Rightarrow> ee_u8 list" where
  "padded pad width t = replicate (width - length t) pad @ t"

lemma length_padded: "length (padded pad width t) = max width (length t)"
  by (simp add: padded_def)

text \<open>The digits of a number, zero included, as the three number conversions put them into \<open>tmp\<close>.\<close>

lemma number_digits:
  assumes "2 \<le> unat base" "\<And>d. unat d < unat base \<Longrightarrow> digit d = Some (char (unat d))" "char 0 = 48"
    and "max 1 (length (digits (unat base) (unat v))) \<le> room"
  shows "\<exists>b. (do {
       (tmp, n) \<leftarrow> (if v = 0 then do { b \<leftarrow> bput (replicate room None) 0 48; Some (b, 1) }
                 else Some (replicate room None, 0));
       digit_loop digit base (tmp, n, v) }) = Some (b, length (numeral_text char (unat base) (unat v)), 0) \<and>
     length b = room \<and> (\<forall>k < length (numeral_text char (unat base) (unat v)).
       b ! k = Some (rev (numeral_text char (unat base) (unat v)) ! k))"
proof (cases "v = 0")
  case True
  have "digit_loop digit base ((replicate room None)[0 := Some 48], 1, 0) = Some ((replicate room None)[0 := Some 48], 1, 0)"
    by (simp add: digit_loop_def while_loop_stop)
  then show ?thesis using True assms(3,4) by (simp add: numeral_text_def bput_def)
next
  case False
  then have "unat v \<noteq> 0" by (simp add: unat_eq_zero)
  then show ?thesis
    using False digit_loop_spec[of base digit char 0 v "replicate room None"] assms(1,2,4)
    by (auto simp: numeral_text_def rev_map)
qed

lemma dhr_number_sends:
  fixes pad :: ee_u8 and width :: nat
  assumes "2 \<le> unat base" "\<And>d. unat d < unat base \<Longrightarrow> digit d = Some (char (unat d))" "char 0 = 48"
    and "max 1 (length (digits (unat base) (unat v))) \<le> room"
  defines "t \<equiv> padded pad width (numeral_text char (unat base) (unat v))"
  shows "\<exists>u'. dhr_number busy room digit base pad width v (cnt, u) = Some (cnt + length t, u') \<and> sent u' = sent u @ t"
proof -
  let ?t = "numeral_text char (unat base) (unat v)"
  obtain b where b: "(do {
       (tmp, n) \<leftarrow> (if v = 0 then do { b \<leftarrow> bput (replicate room None) 0 48; Some (b, 1) }
                 else Some (replicate room None, 0));
       digit_loop digit base (tmp, n, v) }) = Some (b, length ?t, 0)"
     "length b = room" "\<And>k. k < length ?t \<Longrightarrow> b ! k = Some (rev ?t ! k)"
    using number_digits[OF assms(1-4)] by blast
  obtain u1 where u1: "put_pads busy pad (length ?t) width (cnt, u) = Some (cnt + (width - length ?t), u1)"
     "sent u1 = sent u @ replicate (width - length ?t) pad"
    using put_pads_spec by blast
  have "length ?t \<le> room" using assms(4) by (auto simp: numeral_text_def)
  then have "sends u1 (concat (map (\<lambda>k. [rev ?t ! k]) (rev [0..<length ?t]))) (put_back (uart_putc busy) b (length ?t) u1)"
    using b(2,3) by (intro dhry.put_back_sends) simp_all
  moreover have "concat (map (\<lambda>k. [rev ?t ! k]) (rev [0..<length ?t])) = ?t"
  proof -
    have "concat (map (\<lambda>k. [rev ?t ! k]) (rev [0..<length ?t])) = rev (map (\<lambda>k. rev ?t ! k) [0..<length (rev ?t)])"
      by (simp only: concat_map_singleton rev_map length_rev)
    then show ?thesis by (simp only: map_nth rev_rev_ident)
  qed
  ultimately obtain u2 where u2: "put_back (uart_putc busy) b (length ?t) u1 = Some u2" "sent u2 = sent u1 @ ?t"
    by (auto simp: sends_def)
  obtain x where x: "(if v = 0 then do { b \<leftarrow> bput (replicate room None) 0 48; Some (b, 1) }
      else Some (replicate room None, 0 :: nat)) = Some x" "digit_loop digit base (fst x, snd x, v) = Some (b, length ?t, 0)"
    using b(1) by (auto split: bind_splits prod.splits simp del: if_split)
  have "dhr_number busy room digit base pad width v (cnt, u) = Some (cnt + (width - length ?t) + length ?t, u2)"
    unfolding dhr_number_def x(1) using x(2) u1(1) u2(1) by (cases x) simp
  then show ?thesis using u1(2) u2(2) by (simp add: t_def padded_def)
qed

lemma put_counted_sends: "0 \<notin> set t \<Longrightarrow>
   \<exists>u'. put_counted busy (t @ 0 # rest) (cnt, u) = Some (cnt + length t, u') \<and> sent u' = sent u @ t"
proof (induction t arbitrary: cnt u)
  case (Cons c t)
  obtain u1 where u1: "uart_putc busy c u = Some u1" "sent u1 = sent u @ [c]"
    using uart_putc_sends[of u c busy] by (auto simp: sends_def)
  from Cons.IH[of "cnt + 1" u1] Cons.prems u1 show ?case by auto
qed simp

section \<open>Formats\<close>

text \<open>The formats are those of the CoreMark port without \<open>l\<close>; the text of a conversion is padded.\<close>

fun dhr_directive_ok :: "directive \<Rightarrow> bool" where
  "dhr_directive_ok (Lit c) \<longleftrightarrow> c \<noteq> 0 \<and> c \<noteq> 37"
| "dhr_directive_ok (Conv z w lng c) \<longleftrightarrow> w < 2 ^ 31 \<and> \<not> lng \<and> c \<in> {37, 99, 100, 115, 117, 120}"

lemma dhr_directive_ok_code [code]:
  "dhr_directive_ok (Lit c) \<longleftrightarrow> c \<noteq> 0 \<and> c \<noteq> 37"
  "dhr_directive_ok (Conv z w lng c) \<longleftrightarrow> int w < 2147483648 \<and> \<not> lng \<and> c \<in> {37, 99, 100, 115, 117, 120}"
  by auto

fun dhr_render :: "directive \<Rightarrow> arg list \<Rightarrow> (ee_u8 list \<times> arg list) option" where
  "dhr_render (Lit c) args = Some ([c], args)"
| "dhr_render (Conv z w lng c) args = (let pad = (if z then 48 else 32) in
     if c = 37 then Some ([37], args)
     else if c = 115 then (case args of StrArg s # args \<Rightarrow>
       if 0 \<in> set s then Some (takeWhile (\<lambda>c. c \<noteq> 0) s, args) else None | _ \<Rightarrow> None)
     else (case args of IntArg v # args \<Rightarrow> Some
       (if c = 99 then [ucast v]
        else if c = 117 then padded pad w (dec_text (unat v))
        else if c = 120 then padded pad w (numeral_text hex_digit 16 (unat v))
        else if sint v < 0 then 45 # padded pad w (dec_text (unat (- v)))
        else padded pad w (dec_text (unat v)), args) | _ \<Rightarrow> None))"

lemma dhr_dec:
  "\<exists>u'. dhr_number busy 12 dec_char 10 pad width v (cnt, u) =
     Some (cnt + length (padded pad width (dec_text (unat v))), u') \<and> sent u' = sent u @ padded pad width (dec_text (unat v))"
  using dhr_number_sends[of 10 dec_char dec_digit v 12 busy pad width cnt u] decimal_length[of v]
  by (simp add: dec_char_spec dec_text_def)

lemma dhr_hex:
  "\<exists>u'. dhr_number busy 9 hex_char 16 pad width v (cnt, u) =
     Some (cnt + length (padded pad width (numeral_text hex_digit 16 (unat v))), u') \<and>
     sent u' = sent u @ padded pad width (numeral_text hex_digit 16 (unat v))"
  using dhr_number_sends[of 16 hex_char hex_digit v 9 busy pad width cnt u] hex_length[of v]
  by (simp add: hex_char_spec bytes_def)

text \<open>A string up to its first \<open>NUL\<close>.\<close>

lemma split_NUL:
  assumes "0 \<in> set s"
  obtains rest where "s = takeWhile (\<lambda>c. c \<noteq> 0) s @ 0 # rest" "0 \<notin> set (takeWhile (\<lambda>c. c \<noteq> 0) s)"
proof -
  obtain x rest where d: "dropWhile (\<lambda>c. c \<noteq> 0) s = x # rest"
    using assms by (cases "dropWhile (\<lambda>c. c \<noteq> 0) s") (auto simp: dropWhile_eq_Nil_conv)
  with hd_dropWhile[of "\<lambda>c. c \<noteq> 0" s] have "x = 0" by simp
  with d have "s = takeWhile (\<lambda>c. c \<noteq> 0) s @ 0 # rest" by (metis takeWhile_dropWhile_id)
  moreover have "0 \<notin> set (takeWhile (\<lambda>c. c \<noteq> 0) s)" using set_takeWhileD by fastforce
  ultimately show ?thesis using that by blast
qed

lemma dhr_convert_renders:
  assumes "dhr_render (Conv z w lng c) args = Some (t, args')" "dhr_directive_ok (Conv z w lng c)"
  shows "\<exists>u'. dhr_convert busy c (if z then 48 else 32) w args (cnt, u) = Some (args', cnt + length t, u') \<and>
     sent u' = sent u @ t"
proof -
  let ?pad = "if z then 48 else 32 :: ee_u8"
  have put: "\<exists>u'. uart_putc busy x u = Some u' \<and> sent u' = sent u @ [x]" for x u
    using uart_putc_sends by (simp add: sends_def)
  have "c \<in> {37, 99, 100, 115, 117, 120}" using assms(2) by auto
  then consider "c = 37" | "c = 99" | "c = 115" | "c = 117" | "c = 120" | "c = 100" by auto
  then show ?thesis
  proof cases
    case 1
    then show ?thesis using assms(1) put[of 37 u] by (auto simp: dhr_convert_def)
  next
    case 2
    then obtain v where "args = IntArg v # args'" "t = [ucast v]"
      using assms(1) by (auto simp: Let_def split: list.splits arg.splits)
    then show ?thesis using 2 put[of "ucast v" u] by (auto simp: dhr_convert_def)
  next
    case 3
    then obtain s where s: "args = StrArg s # args'" "0 \<in> set s" "t = takeWhile (\<lambda>c. c \<noteq> 0) s"
      using assms(1) by (auto split: list.splits arg.splits if_splits)
    obtain rest where r: "s = takeWhile (\<lambda>c. c \<noteq> 0) s @ 0 # rest" "0 \<notin> set (takeWhile (\<lambda>c. c \<noteq> 0) s)"
      by (rule split_NUL[OF s(2)])
    obtain u' where "put_counted busy s (cnt, u) = Some (cnt + length t, u')" "sent u' = sent u @ t"
      using put_counted_sends[OF r(2), of busy rest cnt u] r(1) s(3) by auto
    then show ?thesis using 3 s(1) by (simp add: dhr_convert_def)
  next
    case 4
    then obtain v where "args = IntArg v # args'" "t = padded ?pad w (dec_text (unat v))"
      using assms(1) by (auto simp: Let_def split: list.splits arg.splits)
    then show ?thesis using 4 dhr_dec[of busy ?pad w v cnt u] by (auto simp: dhr_convert_def simp del: if_split)
  next
    case 5
    then obtain v where "args = IntArg v # args'" "t = padded ?pad w (numeral_text hex_digit 16 (unat v))"
      using assms(1) by (auto simp: Let_def split: list.splits arg.splits)
    then show ?thesis using 5 dhr_hex[of busy ?pad w v cnt u] by (auto simp: dhr_convert_def simp del: if_split)
  next
    case 6
    then obtain v where v: "args = IntArg v # args'"
       "t = (if sint v < 0 then 45 # padded ?pad w (dec_text (unat (- v))) else padded ?pad w (dec_text (unat v)))"
      using assms(1) by (auto simp: Let_def split: list.splits arg.splits)
    show ?thesis
    proof (cases "sint v < 0")
      case True
      obtain u1 where "uart_putc busy 45 u = Some u1" "sent u1 = sent u @ [45]" using put by blast
      then show ?thesis using 6 v True dhr_dec[of busy ?pad w "- v" "cnt + 1" u1]
        by (auto simp: dhr_convert_def simp del: if_split)
    next
      case False
      then show ?thesis using 6 v dhr_dec[of busy ?pad w v cnt u] by (auto simp: dhr_convert_def simp del: if_split)
    qed
  qed
qed

text \<open>Scanning the pad character and the width of a directive.\<close>

lemma width_text_split: "width_text z w = (if z then [48] else []) @ width_text False w"
  by (simp add: width_text_def)

lemma width_text_first:
  assumes "\<not> (48 \<le> c \<and> c \<le> (57 :: ee_u8))"
  shows "\<exists>x xs. width_text False w @ c # f = x # xs \<and> x \<noteq> 48"
proof (cases "w = 0")
  case True
  then show ?thesis using assms by (auto simp: width_text_def)
next
  case False
  then have "width_text False w = dec_text w" by (simp add: width_text_def dec_text_def numeral_text_def)
  then show ?thesis using dec_text_denotes(1,4)[of w] False by (cases "dec_text w") auto
qed

lemma dhr_printf_from_renders:
  assumes "\<forall>d \<in> set ds. dhr_directive_ok d" "render_all dhr_render ds args = Some t"
  shows "\<exists>u'. dhr_printf_from busy (concat (map directive_text ds) @ 0 # rest) args (cnt, u) = Some (cnt + length t, u') \<and>
     sent u' = sent u @ t"
  using assms
proof (induction ds arbitrary: args t cnt u)
  case Nil
  then show ?case by (subst dhr_printf_from.simps) simp
next
  case (Cons d ds)
  let ?f = "concat (map directive_text ds) @ 0 # rest"
  obtain t1 args1 t2 where t: "dhr_render d args = Some (t1, args1)" "render_all dhr_render ds args1 = Some t2" "t = t1 @ t2"
    using Cons.prems(2) by (auto split: bind_splits)
  have "\<exists>u1. dhr_printf_from busy (directive_text d @ ?f) args (cnt, u) =
      dhr_printf_from busy ?f args1 (cnt + length t1, u1) \<and> sent u1 = sent u @ t1"
  proof (cases d)
    case (Lit c)
    then obtain u1 where "uart_putc busy c u = Some u1" "sent u1 = sent u @ [c]"
      using uart_putc_sends[of u c busy] by (auto simp: sends_def)
    moreover have "c \<noteq> 0" "c \<noteq> 37" "args1 = args" "t1 = [c]" using Cons.prems(1) t(1) Lit by auto
    ultimately show ?thesis using Lit by (subst dhr_printf_from.simps) auto
  next
    case (Conv z w lng c)
    then have ok: "dhr_directive_ok (Conv z w lng c)" using Cons.prems(1) by simp
    obtain u1 where u1: "dhr_convert busy c (if z then 48 else 32) w args (cnt, u) = Some (args1, cnt + length t1, u1)"
       "sent u1 = sent u @ t1"
      using dhr_convert_renders[of z w lng c args t1 args1 busy cnt u] t(1) ok Conv by auto
    have c: "\<not> (48 \<le> c \<and> c \<le> 57)" "\<not> lng" and w: "w < 2 ^ 31" using ok by auto
    obtain x xs where x: "width_text False w @ c # ?f = x # xs" "x \<noteq> 48" using width_text_first[OF c(1)] by blast
    have sc: "scan_width (x # xs) 0 = Some (w, c # ?f)" using scan_width_text[OF w c(1), of False ?f] by (simp only: x(1))
    have "directive_text d @ ?f = 37 # (if z then [48] else []) @ x # xs"
      using Conv c(2) by (simp add: width_text_split[of z] x(1))
    then show ?thesis using u1 sc x(2) by (subst dhr_printf_from.simps) (cases z; auto simp del: scan_width.simps)
  qed
  then obtain u1 where u1: "dhr_printf_from busy (directive_text d @ ?f) args (cnt, u) =
      dhr_printf_from busy ?f args1 (cnt + length t1, u1)" "sent u1 = sent u @ t1" by blast
  with Cons.IH[of args1 t2 "cnt + length t1" u1] Cons.prems(1) t(2,3) show ?case by auto
qed

text \<open>\<open>dhr_printf\<close> offers the interface of sequences of calls.\<close>

interpretation dhry_calls: formatter "dhr_printf busy" dhr_directive_ok dhr_render "\<lambda>t. t" for busy
proof
  fix ds args t u
  assume "list_all dhr_directive_ok ds" "render_all dhr_render ds args = Some t"
  then show "\<exists>n u'. dhr_printf busy (concat (map directive_text ds) @ [0]) args u = Some (n, u') \<and> sent u' = sent u @ t"
    using dhr_printf_from_renders[of ds args t busy "[]" 0 u] by (auto simp: dhr_printf_def list_all_iff)
next
  fix d ds args
  assume "takes (d # ds) (map arg_kind args)" "list_all arg_ok args"
  then show "\<exists>t args'. dhr_render d args = Some (t, args') \<and> takes ds (map arg_kind args') \<and> list_all arg_ok args'"
  proof (cases d)
    case (Conv z w l c)
    then show ?thesis using \<open>takes _ _\<close> \<open>list_all _ _\<close>
      by (cases args; cases "hd args") (auto simp: Let_def split: if_splits)
  qed simp
qed simp_all

abbreviation "dhr_calls busy \<equiv> do_calls (dhr_printf busy)"
abbreviation "dhr_text \<equiv> text_of_calls dhr_directive_ok dhr_render"
abbreviation "dhr_prints \<equiv> printable dhr_directive_ok dhr_render"
abbreviation "dhr_takes \<equiv> format_ok dhr_directive_ok"

section \<open>String functions\<close>

text \<open>The array \<open>b\<close> holds the string \<open>s\<close>.\<close>

definition holds :: "buffer \<Rightarrow> ee_u8 list \<Rightarrow> bool" where
  "holds b s \<longleftrightarrow> 0 \<notin> set s \<and> length s < length b \<and> take (Suc (length s)) b = map Some (s @ [0])"

lemma holds_get:
  assumes "holds b s" "i \<le> length s"
  shows "bget b i = Some ((s @ [0]) ! i)"
proof -
  have "take (Suc (length s)) b ! i = map Some (s @ [0]) ! i" using assms(1) by (simp only: holds_def)
  also have "\<dots> = Some ((s @ [0]) ! i)" using assms(2) by (intro nth_map) simp
  finally have "take (Suc (length s)) b ! i = Some ((s @ [0]) ! i)" .
  then show ?thesis using assms by (simp add: holds_def bget_def)
qed

lemma strcpy_copies:
  assumes "holds src s" "length s < length dest"
  shows "strcpy dest src = Some (map Some (s @ [0]) @ drop (Suc (length s)) dest)"
proof -
  let ?c = "\<lambda>(d :: buffer, i :: nat, c). Some (c \<noteq> (0 :: ee_u8))"
  let ?b = "\<lambda>(d, i, c :: ee_u8). do { c \<leftarrow> bget src i; d \<leftarrow> bput d i c; Some (d, i + 1, c) }"
  have loop: "while_loop ?c ?b (map Some (take i s) @ drop i dest, i, c) =
     Some (map Some (s @ [0]) @ drop (Suc (length s)) dest, Suc (length s), 0)" if "i \<le> length s" "c \<noteq> 0" for i c
    using that
  proof (induction "length s - i" arbitrary: i c)
    case 0
    then have i: "i = length s" by simp
    have "bget src i = Some 0" using holds_get[OF assms(1), of i] i by simp
    then have "?b (map Some (take i s) @ drop i dest, i, c) = Some (map Some (s @ [0]) @ drop (Suc (length s)) dest, Suc (length s), 0)"
      using i assms(2) by (simp add: bput_def list_update_append flip: Cons_nth_drop_Suc)
    then show ?case using 0 while_loop_step[where c = ?c and b = ?b, OF _ \<open>?b _ = Some _\<close>] by (simp add: while_loop_stop)
  next
    case (Suc n)
    then have i: "i < length s" "n = length s - Suc i" by auto
    have g: "bget src i = Some (s ! i)" using holds_get[OF assms(1), of i] i by (simp add: nth_append)
    have "?b (map Some (take i s) @ drop i dest, i, c) = Some (map Some (take (Suc i) s) @ drop (Suc i) dest, Suc i, s ! i)"
      using i assms(2) g by (simp add: bput_def list_update_append take_Suc_conv_app_nth flip: Cons_nth_drop_Suc)
    moreover have "s ! i \<noteq> 0" using assms(1) nth_mem[OF i(1)] by (metis holds_def)
    ultimately show ?case using Suc.hyps(1)[OF i(2)] Suc.prems i(1) while_loop_step[where c = ?c and b = ?b, OF _ \<open>?b _ = Some _\<close>] by simp
  qed
  show ?thesis unfolding strcpy_def using loop[of 0 1] by simp
qed

text \<open>The order of C strings: lexicographic on unsigned bytes.\<close>

fun string_diff :: "ee_u8 list \<Rightarrow> ee_u8 list \<Rightarrow> int" where
  "string_diff [] [] = 0"
| "string_diff [] (y # ys) = - uint y"
| "string_diff (x # xs) [] = uint x"
| "string_diff (x # xs) (y # ys) = (if x = y then string_diff xs ys else uint x - uint y)"

lemma string_diff_order:
  "0 \<notin> set s \<Longrightarrow> 0 \<notin> set t \<Longrightarrow> (string_diff s t = 0) = (s = t) \<and> (string_diff s t < 0) = ord_class.lexordp s t"
proof (induction s t rule: string_diff.induct)
  case (2 y ys)
  then show ?case using uint_ge_0[of y] by (auto simp: unsigned_eq_0_iff less_le)
next
  case (3 x xs)
  then show ?case using uint_ge_0[of x] by (auto simp: unsigned_eq_0_iff less_le)
next
  case (4 x xs y ys)
  have "x \<noteq> y \<Longrightarrow> uint x \<noteq> uint y" by (simp add: word_uint_eq_iff)
  moreover have "x < y \<longleftrightarrow> uint x < uint y" by (rule word_less_def)
  ultimately show ?case using 4 by auto
qed simp

lemma strcmp_diff:
  assumes "holds a s" "holds b t"
  shows "strcmp a b = Some (string_diff s t)"
proof -
  let ?c = "\<lambda>i. do { c1 \<leftarrow> bget a i; if c1 \<noteq> 0 then do { c2 \<leftarrow> bget b i; Some (c1 = c2) } else Some False }"
  let ?b = "\<lambda>i :: nat. Some (i + 1)"
  have loop: "(do { i \<leftarrow> while_loop ?c ?b i; c1 \<leftarrow> bget a i; c2 \<leftarrow> bget b i; Some (uint c1 - uint c2) }) =
     Some (string_diff (drop i s) (drop i t))" if "i \<le> length s" "i \<le> length t" for i
    using that
  proof (induction "length s - i" arbitrary: i)
    case 0
    then have i: "i = length s" by simp
    have g: "bget a i = Some 0" "bget b i = Some ((t @ [0]) ! i)"
      using holds_get[OF assms(1), of i] holds_get[OF assms(2), of i] 0 i by simp_all
    then have "while_loop ?c ?b i = Some i" by (intro while_loop_stop) simp
    moreover have "string_diff [] (drop i t) = - uint ((t @ [0]) ! i)"
      using 0(3) by (cases "drop i t") (auto simp: nth_append drop_eq_Nil2 simp flip: Cons_nth_drop_Suc split: if_splits)
    ultimately show ?case using g i by simp
  next
    case (Suc n)
    then have i: "i < length s" "n = length s - Suc i" by auto
    have g: "bget a i = Some (s ! i)" "bget b i = Some ((t @ [0]) ! i)"
      using holds_get[OF assms(1), of i] holds_get[OF assms(2), of i] Suc.prems i by (simp_all add: nth_append)
    have nz: "s ! i \<noteq> 0" using assms(1) nth_mem[OF i(1)] by (metis holds_def)
    show ?case
    proof (cases "i < length t \<and> s ! i = t ! i")
      case True
      then have "while_loop ?c ?b i = while_loop ?c ?b (Suc i)"
        using g nz by (subst while_loop_step[where c = ?c and b = ?b and s = i and s' = "Suc i"]) (simp_all add: nth_append)
      moreover have "string_diff (drop i s) (drop i t) = string_diff (drop (Suc i) s) (drop (Suc i) t)"
        using True i by (simp flip: Cons_nth_drop_Suc)
      ultimately show ?thesis using Suc.hyps(1)[OF i(2)] True i by simp
    next
      case False
      then have ne: "(t @ [0]) ! i \<noteq> s ! i" using nz Suc.prems(2) by (auto simp: nth_append)
      then have "while_loop ?c ?b i = Some i" using g nz by (intro while_loop_stop) simp
      moreover have "string_diff (drop i s) (drop i t) = uint (s ! i) - uint ((t @ [0]) ! i)"
        using i(1) False Suc.prems(2)
        by (cases "i < length t") (auto simp: nth_append simp flip: Cons_nth_drop_Suc)
      ultimately show ?thesis using g by simp
    qed
  qed
  show ?thesis unfolding strcmp_def using loop[of 0] by simp
qed

section \<open>Properties\<close>

text \<open>C23. \<open>dhr_printf\<close> interprets every format made of literal characters and the conversions
  \<open>%% %c %d %s %u %x\<close> with an optional zero and a width: it returns the number of characters and sends
  exactly them, numbers padded to the width with blanks or zeros.\<close>

theorem dhr_printf_renders:
  assumes "\<forall>d \<in> set ds. dhr_directive_ok d" and "render_all dhr_render ds args = Some t"
  shows "\<exists>u'. dhr_printf busy (concat (map directive_text ds) @ [0]) args u = Some (length t, u') \<and> sent u' = sent u @ t"
  using dhr_printf_from_renders[OF assms, of busy "[]" 0 u] by (simp add: dhr_printf_def)

lemma dhr_printf_renders_witness:
  "\<exists>u'. dhr_printf (\<lambda>_. 1) (bytes ''%d.%03d'' @ [0]) [IntArg 3, IntArg 5] \<lparr>wait = 0, sent = []\<rparr> =
     Some (length (bytes ''3.005''), u') \<and> sent u' = sent \<lparr>wait = 0, sent = []\<rparr> @ bytes ''3.005''"
proof -
  let ?ds = "[Conv False 0 False 100, Lit 46, Conv True 3 False 100]"
  have dig: "digits 10 3 = [3]" "digits 10 5 = [5]" by (simp_all add: digits.simps)
  have f: "concat (map directive_text ?ds) = bytes ''%d.%03d''"
    by (simp add: width_text_def dig bytes_def)
  have "padded 48 3 [53] = [48, 48, 53]" "padded 32 0 [51] = [51]" by code_simp+
  then have "render_all dhr_render ?ds [IntArg 3, IntArg 5] = Some (bytes ''3.005'')"
    by (simp add: dec_text_def numeral_text_def dig bytes_def)
  then show ?thesis
    using dhr_printf_renders[of ?ds "[IntArg 3, IntArg 5]" "bytes ''3.005''" "\<lambda>_. 1" "\<lparr>wait = 0, sent = []\<rparr>"]
    unfolding f by simp
qed

text \<open>C36. The unused \<open>print_uint\<close> is wrong for every number but zero: it starts one place beyond the
  digits, at a byte of its buffer that was never written; its twin \<open>print_uint_rev\<close> prints the numeral.\<close>

theorem print_uint_reads_past_digits:
  assumes "v \<noteq> 0" "base = 10 \<or> base = 16"
  shows "print_uint busy v base u = None \<and>
    (\<exists>u'. print_uint_rev busy v base u = Some u' \<and> sent u' = sent u @ numeral_text hex_digit (unat base) (unat v))"
proof -
  have base: "2 \<le> unat base" "unat base \<le> 16" "base \<noteq> 0" using assms(2) by auto
  have nz: "unat v \<noteq> 0" using assms(1) by (simp add: unat_eq_zero)
  have dig: "hex_char d = Some (hex_digit (unat d))" if "unat d < unat base" for d
    using that base(2) hex_char_spec[of d] by simp
  have len: "length (digits (unat base) (unat v)) \<le> 10"
    using assms(2) decimal_length[of v] hex_length[of v] by auto
  let ?n = "length (digits (unat base) (unat v))"
  obtain b where b: "digit_loop hex_char base (replicate 12 None, 0, v) = Some (b, ?n, 0)" "length b = 12"
     "\<forall>k \<ge> ?n. b ! k = replicate 12 None ! k"
    using digit_loop_spec[of base hex_char hex_digit 0 v "replicate 12 None", OF base(1) dig] len by auto
  obtain m where m: "?n = Suc m" using digits_step[OF base(1) nz] by simp
  have "sends u (concat (map (\<lambda>c. [c]) (numeral_text hex_digit (unat base) (unat v)))) (print_uint_rev busy v base u)"
    using dhry.number_sends[where digit = hex_char and char = hex_digit and n = 12 and busy = busy and u = u,
      OF base(1) dig _ assms(1)] len assms(1) base(3)
    by (simp add: print_uint_rev_def case_prod_unfold)
  moreover have "bget b (m + 1) = None"
    using b(2,3) len m by (simp add: bget_def)
  ultimately show ?thesis using b m assms(1) base(3) by (auto simp: print_uint_def sends_def)
qed

lemma print_uint_reads_past_digits_witness:
  "print_uint (\<lambda>_. 2) 255 16 \<lparr>wait = 0, sent = []\<rparr> = None \<and>
    (\<exists>u'. print_uint_rev (\<lambda>_. 2) 255 16 \<lparr>wait = 0, sent = []\<rparr> = Some u' \<and>
       sent u' = sent \<lparr>wait = 0, sent = []\<rparr> @ numeral_text hex_digit (unat (16 :: ee_s32)) (unat (255 :: ee_u32)))"
  by (rule print_uint_reads_past_digits) simp_all

end
