(* ===== verification/Dhrystone.thy ===== *)
theory Dhrystone
  imports Dhry_Port
begin

text \<open>
  The Dhrystone program: \<^verbatim>\<open>dhrystone/src/dhry_1.c\<close> (the main loop and \<open>Proc_1\<close> to \<open>Proc_5\<close>) and
  \<^verbatim>\<open>dhrystone/src/dhry_2.c\<close> (\<open>Proc_6\<close> to \<open>Proc_8\<close>, \<open>Func_1\<close> to \<open>Func_3\<close>).

  The two records are cells of a store, a pointer is an index into it or \<open>NULL\<close>, so the aliasing between
  \<open>Ptr_glob\<close>, \<open>Next\<close> and the \<open>Ptr_Comp\<close> fields is that of the code.  Only the variant \<open>var_1\<close> of the union
  is ever used.  A pointer to a local variable or to a field that a procedure only writes through is
  the value the procedure stores.  Variables without an initial value are \<open>None\<close>, and reading one is
  undefined.
\<close>

section \<open>Data\<close>

datatype Enumeration = Ident_1 | Ident_2 | Ident_3 | Ident_4 | Ident_5

fun enum_int :: "Enumeration \<Rightarrow> ee_s32" where
  "enum_int Ident_1 = 0"
| "enum_int Ident_2 = 1"
| "enum_int Ident_3 = 2"
| "enum_int Ident_4 = 3"
| "enum_int Ident_5 = 4"

record Rec_Type =
  Ptr_Comp :: "nat option"
  Discr :: Enumeration
  Enum_Comp :: Enumeration
  Int_Comp :: ee_s32
  Str_Comp :: buffer

record globals =
  recs :: "Rec_Type list"
  Ptr_glob :: "nat option"
  Bool_glob :: ee_s32
  Ch_1_glob :: ee_u8
  Ch_2_glob :: ee_u8
  Int_glob :: ee_s32
  Arr_1_glob :: "ee_s32 list"
  Arr_2_glob :: "ee_s32 list list"

text \<open>What the start-up code leaves in BSS.\<close>

definition zero_rec :: Rec_Type where
  "zero_rec = \<lparr>Ptr_Comp = None, Discr = Ident_1, Enum_Comp = Ident_1, Int_Comp = 0, Str_Comp = replicate 31 (Some 0)\<rparr>"

definition bss :: globals where
  "bss = \<lparr>recs = [zero_rec, zero_rec], Ptr_glob = None, Bool_glob = 0, Ch_1_glob = 0, Ch_2_glob = 0, Int_glob = 0,
     Arr_1_glob = replicate 50 0, Arr_2_glob = replicate 50 (replicate 50 0)\<rparr>"

section \<open>Accesses\<close>

definition rec_at :: "globals \<Rightarrow> nat option \<Rightarrow> Rec_Type option" where
  "rec_at g p = do { a \<leftarrow> p; aread (recs g) a }"

definition put_rec :: "globals \<Rightarrow> nat option \<Rightarrow> Rec_Type \<Rightarrow> globals option" where
  "put_rec g p r = do { a \<leftarrow> p; rs \<leftarrow> awrite (recs g) a r; Some (g\<lparr>recs := rs\<rparr>) }"

definition upd_rec :: "globals \<Rightarrow> nat option \<Rightarrow> (Rec_Type \<Rightarrow> Rec_Type) \<Rightarrow> globals option" where
  "upd_rec g p f = do { r \<leftarrow> rec_at g p; put_rec g p (f r) }"

text \<open>Array subscripts are signed.\<close>

definition subscript :: "ee_s32 \<Rightarrow> nat option" where
  "subscript i = (if sint i < 0 then None else Some (nat (sint i)))"

definition get_1 :: "globals \<Rightarrow> ee_s32 \<Rightarrow> ee_s32 option" where
  "get_1 g i = do { i \<leftarrow> subscript i; aread (Arr_1_glob g) i }"

definition put_1 :: "globals \<Rightarrow> ee_s32 \<Rightarrow> ee_s32 \<Rightarrow> globals option" where
  "put_1 g i v = do { i \<leftarrow> subscript i; a \<leftarrow> awrite (Arr_1_glob g) i v; Some (g\<lparr>Arr_1_glob := a\<rparr>) }"

definition get_2 :: "globals \<Rightarrow> ee_s32 \<Rightarrow> ee_s32 \<Rightarrow> ee_s32 option" where
  "get_2 g i j = do { i \<leftarrow> subscript i; j \<leftarrow> subscript j; row \<leftarrow> aread (Arr_2_glob g) i; aread row j }"

definition put_2 :: "globals \<Rightarrow> ee_s32 \<Rightarrow> ee_s32 \<Rightarrow> ee_s32 \<Rightarrow> globals option" where
  "put_2 g i j v = do { i \<leftarrow> subscript i; j \<leftarrow> subscript j; row \<leftarrow> aread (Arr_2_glob g) i; row \<leftarrow> awrite row j v;
     a \<leftarrow> awrite (Arr_2_glob g) i row; Some (g\<lparr>Arr_2_glob := a\<rparr>) }"

section \<open>dhry_2.c\<close>

definition Func_3 :: "Enumeration \<Rightarrow> bool" where
  "Func_3 Enum_Par_Val \<longleftrightarrow> Enum_Par_Val = Ident_3"

text \<open>The value \<open>Proc_6\<close> leaves in \<open>*Enum_Ref_Par\<close>.\<close>

definition Proc_6 :: "globals \<Rightarrow> Enumeration \<Rightarrow> Enumeration" where
  "Proc_6 g Enum_Val_Par = (let
     r = Enum_Val_Par;
     r = (if \<not> Func_3 Enum_Val_Par then Ident_4 else r)
     in case Enum_Val_Par of
       Ident_1 \<Rightarrow> Ident_1
     | Ident_2 \<Rightarrow> if sint (Int_glob g) > 100 then Ident_1 else Ident_4
     | Ident_3 \<Rightarrow> Ident_2
     | Ident_4 \<Rightarrow> r
     | Ident_5 \<Rightarrow> Ident_3)"

definition Proc_7 :: "ee_s32 \<Rightarrow> ee_s32 \<Rightarrow> ee_s32" where
  "Proc_7 Int_1_Par_Val Int_2_Par_Val = (let Int_Loc = Int_1_Par_Val + 2 in Int_2_Par_Val + Int_Loc)"

text \<open>\<open>for (Int_Index = Int_Loc; Int_Index <= Int_Loc + 1; ++Int_Index)\<close>.\<close>

definition fill_row :: "ee_s32 \<Rightarrow> ee_s32 \<times> globals \<Rightarrow> (ee_s32 \<times> globals) option" where
  "fill_row Int_Loc = while_loop (\<lambda>(Int_Index, g). Some (sint Int_Index \<le> sint (Int_Loc + 1)))
     (\<lambda>(Int_Index, g). do { g \<leftarrow> put_2 g Int_Loc Int_Index Int_Loc; Some (Int_Index + 1, g) })"

definition Proc_8 :: "globals \<Rightarrow> ee_s32 \<Rightarrow> ee_s32 \<Rightarrow> globals option" where
  "Proc_8 g Int_1_Par_Val Int_2_Par_Val = do {
     let Int_Loc = Int_1_Par_Val + 5;
     g \<leftarrow> put_1 g Int_Loc Int_2_Par_Val;
     x \<leftarrow> get_1 g Int_Loc;
     g \<leftarrow> put_1 g (Int_Loc + 1) x;
     g \<leftarrow> put_1 g (Int_Loc + 30) Int_Loc;
     (Int_Index, g) \<leftarrow> fill_row Int_Loc (Int_Loc, g);
     x \<leftarrow> get_2 g Int_Loc (Int_Loc - 1);
     g \<leftarrow> put_2 g Int_Loc (Int_Loc - 1) (x + 1);
     x \<leftarrow> get_1 g Int_Loc;
     g \<leftarrow> put_2 g (Int_Loc + 20) Int_Loc x;
     Some (g\<lparr>Int_glob := 5\<rparr>) }"

definition Func_1 :: "globals \<Rightarrow> ee_u8 \<Rightarrow> ee_u8 \<Rightarrow> Enumeration \<times> globals" where
  "Func_1 g Ch_1_Par_Val Ch_2_Par_Val = (let
     Ch_1_Loc = Ch_1_Par_Val;
     Ch_2_Loc = Ch_1_Loc
     in if Ch_2_Loc \<noteq> Ch_2_Par_Val then (Ident_1, g) else (Ident_2, g\<lparr>Ch_1_glob := Ch_1_Loc\<rparr>))"

definition Func_2 :: "globals \<Rightarrow> buffer \<Rightarrow> buffer \<Rightarrow> (bool \<times> globals) option" where
  "Func_2 g s1 s2 = do {
     (Int_Loc, Ch_Loc, g) \<leftarrow> while_loop (\<lambda>(Int_Loc, Ch_Loc, g). Some (sint Int_Loc \<le> 2))
       (\<lambda>(Int_Loc, Ch_Loc, g). do {
          i \<leftarrow> subscript Int_Loc;
          j \<leftarrow> subscript (Int_Loc + 1);
          c1 \<leftarrow> bget s1 i;
          c2 \<leftarrow> bget s2 j;
          let (e, g) = Func_1 g c1 c2;
          Some (if e = Ident_1 then (Int_Loc + 1, Some 65, g) else (Int_Loc, Ch_Loc, g)) }) (2 :: ee_s32, None, g);
     Ch_Loc \<leftarrow> Ch_Loc;
     let Int_Loc = (if 87 \<le> Ch_Loc \<and> Ch_Loc < (90 :: ee_u8) then 7 else Int_Loc);
     if Ch_Loc = 82 then Some (True, g)
     else do {
       d \<leftarrow> strcmp s1 s2;
       let Int_Loc = Int_Loc + 7;
       Some (if d > 0 then (True, g\<lparr>Int_glob := Int_Loc\<rparr>) else (False, g)) } }"

section \<open>dhry_1.c\<close>

definition Proc_5 :: "globals \<Rightarrow> globals" where
  "Proc_5 g = g\<lparr>Bool_glob := 0, Ch_1_glob := 65\<rparr>"

definition Proc_4 :: "globals \<Rightarrow> globals" where
  "Proc_4 g = (let Bool_Loc = (if Ch_1_glob g = 65 then 1 else 0)
     in g\<lparr>Bool_glob := Bool_Loc OR Bool_glob g, Ch_2_glob := 66\<rparr>)"

text \<open>\<open>Ptr_Ref_Par\<close> is the address of the \<open>Ptr_Comp\<close> field of the record \<open>n\<close> points to.\<close>

definition Proc_3 :: "globals \<Rightarrow> nat option \<Rightarrow> globals option" where
  "Proc_3 g n = do {
     g \<leftarrow> (if Ptr_glob g \<noteq> None then do {
            r \<leftarrow> rec_at g (Ptr_glob g);
            upd_rec g n (\<lambda>x. x\<lparr>Ptr_Comp := Ptr_Comp r\<rparr>) }
          else Some g);
     upd_rec g (Ptr_glob g) (\<lambda>x. x\<lparr>Int_Comp := Proc_7 10 (Int_glob g)\<rparr>) }"

text \<open>The loop of \<open>Proc_2\<close> ends when \<open>Enum_Loc\<close>, which has no initial value, is \<open>Ident_1\<close>: the value
  left in \<open>*Int_Par_Ref\<close>.\<close>

definition Proc_2 :: "globals \<Rightarrow> ee_s32 \<Rightarrow> ee_s32 option" where
  "Proc_2 g r = do {
     (Int_Loc, Enum_Loc, r, stop) \<leftarrow> while_loop (\<lambda>(Int_Loc, Enum_Loc, r, stop). Some (\<not> stop))
       (\<lambda>(Int_Loc, Enum_Loc, r, stop). do {
          let (Int_Loc, r, Enum_Loc) = (if Ch_1_glob g = 65
            then (Int_Loc - 1, (Int_Loc - 1) - Int_glob g, Some Ident_1) else (Int_Loc, r, Enum_Loc));
          e \<leftarrow> Enum_Loc;
          Some (Int_Loc, Enum_Loc, r, e = Ident_1) }) (r + 10, None, r, False);
     Some r }"

definition Proc_1 :: "globals \<Rightarrow> nat option \<Rightarrow> globals option" where
  "Proc_1 g p = do {
     r \<leftarrow> rec_at g p;
     let next_rec = Ptr_Comp r;
     r \<leftarrow> rec_at g (Ptr_glob g);
     g \<leftarrow> put_rec g next_rec r;
     g \<leftarrow> upd_rec g p (\<lambda>x. x\<lparr>Int_Comp := 5\<rparr>);
     r \<leftarrow> rec_at g p;
     g \<leftarrow> upd_rec g next_rec (\<lambda>x. x\<lparr>Int_Comp := Int_Comp r\<rparr>);
     r \<leftarrow> rec_at g p;
     g \<leftarrow> upd_rec g next_rec (\<lambda>x. x\<lparr>Ptr_Comp := Ptr_Comp r\<rparr>);
     g \<leftarrow> Proc_3 g next_rec;
     n \<leftarrow> rec_at g next_rec;
     if Discr n = Ident_1 then do {
       g \<leftarrow> upd_rec g next_rec (\<lambda>x. x\<lparr>Int_Comp := 6\<rparr>);
       r \<leftarrow> rec_at g p;
       g \<leftarrow> upd_rec g next_rec (\<lambda>x. x\<lparr>Enum_Comp := Proc_6 g (Enum_Comp r)\<rparr>);
       r \<leftarrow> rec_at g (Ptr_glob g);
       g \<leftarrow> upd_rec g next_rec (\<lambda>x. x\<lparr>Ptr_Comp := Ptr_Comp r\<rparr>);
       n \<leftarrow> rec_at g next_rec;
       upd_rec g next_rec (\<lambda>x. x\<lparr>Int_Comp := Proc_7 (Int_Comp n) 10\<rparr>) }
     else do {
       r \<leftarrow> rec_at g p;
       n \<leftarrow> rec_at g (Ptr_Comp r);
       put_rec g p n } }"

section \<open>The main loop\<close>

record locals =
  Int_1_Loc :: "ee_s32 option"
  Int_2_Loc :: "ee_s32 option"
  Int_3_Loc :: "ee_s32 option"
  Enum_Loc :: "Enumeration option"
  Str_1_Loc :: buffer
  Str_2_Loc :: buffer

definition literal :: "string \<Rightarrow> buffer" where
  "literal s = map Some (bytes s @ [0])"

text \<open>\<open>while (Int_1_Loc < Int_2_Loc)\<close>: the state is \<open>(Int_1_Loc, Int_3_Loc)\<close>.\<close>

definition inner_loop :: "ee_s32 \<Rightarrow> ee_s32 \<times> ee_s32 option \<Rightarrow> (ee_s32 \<times> ee_s32 option) option" where
  "inner_loop Int_2 = while_loop (\<lambda>(Int_1, Int_3). Some (sint Int_1 < sint Int_2))
     (\<lambda>(Int_1, Int_3). let
        Int_3 = 5 * Int_1 - Int_2;
        Int_3 = Proc_7 Int_1 Int_2
        in Some (Int_1 + 1, Some Int_3))"

text \<open>\<open>for (Ch_Index = 'A'; Ch_Index <= Ch_2_glob; ++Ch_Index)\<close>.\<close>

definition char_loop :: "ee_u8 \<times> Enumeration \<times> globals \<Rightarrow> (ee_u8 \<times> Enumeration \<times> globals) option" where
  "char_loop = while_loop (\<lambda>(Ch_Index, Enum_Loc, g). Some (Ch_Index \<le> Ch_2_glob g))
     (\<lambda>(Ch_Index, Enum_Loc, g). let
        (e, g) = Func_1 g Ch_Index 67
        in Some (Ch_Index + 1, if Enum_Loc = e then Proc_6 g Ident_1 else Enum_Loc, g))"

definition int_div :: "ee_s32 \<Rightarrow> ee_s32 \<Rightarrow> ee_s32 option" where
  "int_div a b = (if b = 0 then None else Some (word_of_int (c_div (sint a) (sint b))))"

definition dhry_run :: "globals \<times> locals \<Rightarrow> (globals \<times> locals) option" where
  "dhry_run = (\<lambda>(g, l). do {
     let g = Proc_4 (Proc_5 g);
     let Int_1 = 2;
     let Int_2 = 3;
     Str_2 \<leftarrow> strcpy (Str_2_Loc l) (literal ''DHRYSTONE PROGRAM, 2'ND STRING'');
     let Enum = Ident_2;
     (b, g) \<leftarrow> Func_2 g (Str_1_Loc l) Str_2;
     let g = g\<lparr>Bool_glob := (if b then 0 else 1)\<rparr>;
     (Int_1, Int_3) \<leftarrow> inner_loop Int_2 (Int_1, Int_3_Loc l);
     Int_3 \<leftarrow> Int_3;
     g \<leftarrow> Proc_8 g Int_1 Int_3;
     g \<leftarrow> Proc_1 g (Ptr_glob g);
     (Ch_Index, Enum, g) \<leftarrow> char_loop (65, Enum, g);
     let Int_3 = Int_2 * Int_1;
     Int_2 \<leftarrow> int_div Int_3 Int_1;
     let Int_2 = 7 * (Int_3 - Int_2) - Int_1;
     Int_1 \<leftarrow> Proc_2 g Int_1;
     Some (g, l\<lparr>Int_1_Loc := Some Int_1, Int_2_Loc := Some Int_2, Int_3_Loc := Some Int_3, Enum_Loc := Some Enum,
       Str_2_Loc := Str_2\<rparr>) })"

text \<open>The set-up: \<open>Ptr_glob\<close> points to the first record, \<open>Next_Ptr_Glob\<close> to the second.\<close>

definition dhry_setup :: "globals \<times> locals \<Rightarrow> (globals \<times> locals) option" where
  "dhry_setup = (\<lambda>(g, l). do {
     let g = g\<lparr>Ptr_glob := Some 0\<rparr>;
     g \<leftarrow> upd_rec g (Ptr_glob g) (\<lambda>x. x\<lparr>Ptr_Comp := Some 1\<rparr>);
     g \<leftarrow> upd_rec g (Ptr_glob g) (\<lambda>x. x\<lparr>Discr := Ident_1\<rparr>);
     g \<leftarrow> upd_rec g (Ptr_glob g) (\<lambda>x. x\<lparr>Enum_Comp := Ident_3\<rparr>);
     g \<leftarrow> upd_rec g (Ptr_glob g) (\<lambda>x. x\<lparr>Int_Comp := 40\<rparr>);
     r \<leftarrow> rec_at g (Ptr_glob g);
     s \<leftarrow> strcpy (Str_Comp r) (literal ''DHRYSTONE PROGRAM, SOME STRING'');
     g \<leftarrow> upd_rec g (Ptr_glob g) (\<lambda>x. x\<lparr>Str_Comp := s\<rparr>);
     s \<leftarrow> strcpy (Str_1_Loc l) (literal ''DHRYSTONE PROGRAM, 1'ST STRING'');
     g \<leftarrow> put_2 g 8 7 10;
     Some (g, l\<lparr>Str_1_Loc := s\<rparr>) })"

definition dhry_runs :: "ee_s32 \<Rightarrow> globals \<times> locals \<Rightarrow> (globals \<times> locals) option" where
  "dhry_runs n = for_loop 1 (Suc (nat (sint n))) (\<lambda>Run_Index. dhry_run)"

section \<open>The report\<close>

definition clk_freq_hz :: ee_u32 where
  "clk_freq_hz = 100000000"

definition dhrystones_per_sec :: "ee_u32 \<Rightarrow> ee_s32 \<Rightarrow> ee_u32" where
  "dhrystones_per_sec Elapsed n =
     (if Elapsed > 0 then ucast ((scast n * ucast clk_freq_hz :: 64 word) div ucast Elapsed) else 0)"

definition us_per_run :: "ee_u32 \<Rightarrow> ee_s32 \<Rightarrow> ee_u32 option" where
  "us_per_run Elapsed n =
     (if Elapsed > 0 then
        let d = scast n * ucast clk_freq_hz :: 64 word in
        if d = 0 then None else Some (ucast ((ucast Elapsed * 1000000) div d))
      else Some 0)"

definition dhry_cycles :: "ee_u32 \<Rightarrow> ee_s32 \<Rightarrow> ee_u32 option" where
  "dhry_cycles Elapsed n = (if Elapsed > 0 then if n = 0 then None else Some (Elapsed div n) else Some 0)"

text \<open>Division by the 1757 Dhrystones per second of the reference machine: whole part and thousandths.\<close>

definition vax_mips :: "ee_u32 \<Rightarrow> ee_u32 \<times> ee_u32" where
  "vax_mips x = (x div 1757, (x mod 1757) * 1000 div 1757)"

text \<open>A local character array as the argument of \<open>%s\<close>: its bytes up to the first one never written.\<close>

definition buf_arg :: "buffer \<Rightarrow> arg" where
  "buf_arg b = StrArg (map the (takeWhile (\<lambda>c. c \<noteq> None) b))"

definition banner :: "ee_s32 \<Rightarrow> call list" where
  "banner n =
     [(''Dhrystone Benchmark, Version 2.1 (Language: C)'' @ nl, []),
      (''Program compiled without 'register' attribute'' @ nl, []),
      (''Execution starts, %d runs through Dhrystone'' @ nl, [IntArg n])]"

definition final_values :: "globals \<times> locals \<Rightarrow> call list option" where
  "final_values = (\<lambda>(g, l). do {
     a1 \<leftarrow> get_1 g 8;
     a2 \<leftarrow> get_2 g 8 7;
     r \<leftarrow> rec_at g (Ptr_glob g);
     n \<leftarrow> rec_at g (Some 1);
     i1 \<leftarrow> Int_1_Loc l;
     i2 \<leftarrow> Int_2_Loc l;
     i3 \<leftarrow> Int_3_Loc l;
     e \<leftarrow> Enum_Loc l;
     Some
       [(''Execution ends'' @ nl @ nl, []),
        (''Final values of the variables used in the benchmark:'' @ nl @ nl, []),
        (''Int_Glob:            %d'' @ nl, [IntArg (Int_glob g)]),
        (''Bool_Glob:           %d'' @ nl, [IntArg (Bool_glob g)]),
        (''Ch_1_Glob:           %c'' @ nl, [IntArg (ucast (Ch_1_glob g))]),
        (''Ch_2_Glob:           %c'' @ nl, [IntArg (ucast (Ch_2_glob g))]),
        (''Arr_1_Glob[8]:       %d'' @ nl, [IntArg a1]),
        (''Arr_2_Glob[8][7]:    %d'' @ nl, [IntArg a2]),
        (''Ptr_Glob->Discr:     %d'' @ nl, [IntArg (enum_int (Discr r))]),
        (''        ->Int_Comp:  %d'' @ nl, [IntArg (Int_Comp r)]),
        (''Next_Ptr_Glob->Discr: %d'' @ nl, [IntArg (enum_int (Discr n))]),
        (''        ->Int_Comp:  %d'' @ nl, [IntArg (Int_Comp n)]),
        (''Int_1_Loc:           %d'' @ nl, [IntArg i1]),
        (''Int_2_Loc:           %d'' @ nl, [IntArg i2]),
        (''Int_3_Loc:           %d'' @ nl, [IntArg i3]),
        (''Enum_Loc:            %d'' @ nl, [IntArg (enum_int e)]),
        (''Str_1_Loc:           %s'' @ nl, [buf_arg (Str_1_Loc l)]),
        (''Str_2_Loc:           %s'' @ nl, [buf_arg (Str_2_Loc l)])] })"

definition dhry_score :: "string \<Rightarrow> string \<Rightarrow> ee_u32 \<Rightarrow> ee_s32 \<Rightarrow> call list option" where
  "dhry_score version flags Elapsed n = do {
     let dps = dhrystones_per_sec Elapsed n;
     us \<leftarrow> us_per_run Elapsed n;
     let mhz = clk_freq_hz div 1000000;
     let (dmips, dmips_frac) = vax_mips dps;
     let dps_per_mhz = (if mhz > 0 then dps div mhz else 0);
     let (dmips_mhz, dmips_mhz_frac) = vax_mips dps_per_mhz;
     cycles \<leftarrow> dhry_cycles Elapsed n;
     Some
       [(nl, []),
        (''Cycles/Iteration:                            %d'' @ nl, [IntArg cycles]),
        (''Microseconds for one run through Dhrystone:  %d'' @ nl, [IntArg us]),
        (''Dhrystones per Second:                       %d'' @ nl, [IntArg dps]),
        (''DMIPS:                                       %d.%03d'' @ nl, [IntArg dmips, IntArg dmips_frac]),
        (''DMIPS/MHz:                                   %d.%03d'' @ nl, [IntArg dmips_mhz, IntArg dmips_mhz_frac]),
        (''Compiler Version:                            %s'' @ nl, [c_string version]),
        (''Compiler Flags:                              %s'' @ nl, [c_string flags]),
        (nl, [])] }"

text \<open>\<open>main\<close>, up to the endless loop at its end: the state, the console and the value written to
  \<open>tohost\<close>.  The memory before it is \<open>g\<close> and \<open>l\<close>.\<close>

definition dhry_main :: "(nat \<Rightarrow> nat) \<Rightarrow> (nat \<Rightarrow> ee_u32) \<Rightarrow> string \<Rightarrow> string \<Rightarrow> ee_s32 \<Rightarrow> globals \<times> locals \<Rightarrow> uart
    \<Rightarrow> ((globals \<times> locals) \<times> uart \<times> ee_u32) option" where
  "dhry_main busy clock version flags n s u = do {
     s \<leftarrow> dhry_setup s;
     u \<leftarrow> dhr_calls busy (banner n) u;
     let (Begin_Time, k) = read_mtime clock 0;
     s \<leftarrow> dhry_runs n s;
     let (End_Time, k) = read_mtime clock k;
     let Elapsed = End_Time - Begin_Time;
     values \<leftarrow> final_values s;
     u \<leftarrow> dhr_calls busy values u;
     score \<leftarrow> dhry_score version flags Elapsed n;
     u \<leftarrow> dhr_calls busy score u;
     Some (s, u, 1) }"

section \<open>One run\<close>

abbreviation "str_1 \<equiv> ''DHRYSTONE PROGRAM, 1'ST STRING''"
abbreviation "str_2 \<equiv> ''DHRYSTONE PROGRAM, 2'ND STRING''"
abbreviation "str_some \<equiv> ''DHRYSTONE PROGRAM, SOME STRING''"

lemma strings_ok:
  "0 \<notin> set (bytes str_1)" "0 \<notin> set (bytes str_2)" "0 \<notin> set (bytes str_some)"
  "length str_1 = 30" "length str_2 = 30" "length str_some = 30"
  "string_diff (bytes str_1) (bytes str_2) = - 1"
  "bget (literal str_1) 2 = Some 82" "bget (literal str_2) 3 = Some 89"
  by code_simp+

lemma holds_literal: "0 \<notin> set (bytes s) \<Longrightarrow> holds (literal s) (bytes s)"
  by (simp add: holds_def literal_def)

lemma strcpy_literal:
  "0 \<notin> set (bytes s) \<Longrightarrow> length d = Suc (length s) \<Longrightarrow> strcpy d (literal s) = Some (literal s)"
  using strcpy_copies[OF holds_literal, of s d] by (simp add: literal_def)

lemma subscript_numeral [simp]:
  "subscript 7 = Some 7" "subscript 8 = Some 8" "subscript 9 = Some 9" "subscript 28 = Some 28" "subscript 38 = Some 38"
  "subscript 2 = Some 2" "subscript 3 = Some 3"
  by (simp_all add: subscript_def)

lemma Func_2_strings: "Func_2 g (literal str_1) (literal str_2) = Some (False, g)"
proof -
  let ?c = "\<lambda>(Int_Loc :: ee_s32, Ch_Loc :: ee_u8 option, g :: globals). Some (sint Int_Loc \<le> 2)"
  let ?b = "\<lambda>(Int_Loc, Ch_Loc, g). do {
          i \<leftarrow> subscript Int_Loc;
          j \<leftarrow> subscript (Int_Loc + 1);
          c1 \<leftarrow> bget (literal str_1) i;
          c2 \<leftarrow> bget (literal str_2) j;
          let (e, g) = Func_1 g c1 c2;
          Some (if e = Ident_1 then (Int_Loc + 1, Some 65, g) else (Int_Loc, Ch_Loc, g)) }"
  have "?b (2, None, g) = Some (3, Some 65, g)"
    by (simp add: strings_ok(8,9) Func_1_def)
  then have loop: "while_loop ?c ?b (2, None, g) = Some (3, Some 65, g)"
    using while_loop_step[where c = ?c and b = ?b and s = "(2, None, g)" and s' = "(3, Some 65, g)"]
    by (simp add: while_loop_stop)
  have "strcmp (literal str_1) (literal str_2) = Some (- 1)"
    using strcmp_diff[OF holds_literal holds_literal, OF strings_ok(1,2)] by (simp only: strings_ok(7))
  then show ?thesis unfolding Func_2_def loop by simp
qed

lemma inner_loop_run: "inner_loop 3 (2, i3) = Some (3, Some 7)"
  by (simp add: inner_loop_def while_loop.simps Proc_7_def)

lemma char_loop_run:
  assumes "Ch_2_glob g = 66"
  shows "char_loop (65, Ident_2, g) = Some (67, Ident_2, g)"
  using assms by (simp add: char_loop_def while_loop.simps Func_1_def)

lemma Proc_2_run:
  assumes "Ch_1_glob g = 65" "Int_glob g = 5"
  shows "Proc_2 g 3 = Some 7"
  using assms by (simp add: Proc_2_def while_loop.simps)

lemma int_div_run: "int_div 9 3 = Some 3"
  by (simp add: int_div_def c_div_def)

text \<open>\<open>Proc_8\<close> on the arrays.\<close>

definition proc_8_row :: "ee_s32 list \<Rightarrow> ee_s32 list" where
  "proc_8_row r = r[8 := 8, 9 := 8, 7 := r ! 7 + 1]"

lemma Proc_8_run:
  assumes "length (Arr_1_glob g) = 50" "length (Arr_2_glob g) = 50" "length (Arr_2_glob g ! 8) = 50" "length (Arr_2_glob g ! 28) = 50"
  shows "Proc_8 g 3 7 = Some (g\<lparr>Arr_1_glob := (Arr_1_glob g)[8 := 7, 9 := 7, 38 := 8],
     Arr_2_glob := (Arr_2_glob g)[8 := proc_8_row (Arr_2_glob g ! 8), 28 := (Arr_2_glob g ! 28)[8 := 7]], Int_glob := 5\<rparr>)"
proof -
  have loop: "fill_row 8 (8, h) = Some (10, h\<lparr>Arr_2_glob := (Arr_2_glob h)[8 := (Arr_2_glob h ! 8)[8 := 8, 9 := 8]]\<rparr>)"
    if "Arr_2_glob h = Arr_2_glob g" for h
    using that assms by (simp add: fill_row_def while_loop.simps put_2_def)
  show ?thesis using assms
    by (simp add: Proc_8_def put_1_def get_1_def loop put_2_def get_2_def proc_8_row_def)
qed

text \<open>\<open>Proc_1\<close> on the two records, the second pointed to by both.\<close>

lemma Proc_1_run:
  assumes "Ptr_glob g = Some 0" "recs g = [r1, r2]" "Ptr_Comp r1 = Some 1" "Discr r1 = Ident_1" "Enum_Comp r1 = Ident_3"
    and "Int_glob g = 5"
  shows "Proc_1 g (Some 0) = Some (g\<lparr>recs := [r1\<lparr>Int_Comp := 17\<rparr>, r1\<lparr>Int_Comp := 18, Enum_Comp := Ident_2\<rparr>]\<rparr>)"
  using assms
  by (simp add: Proc_1_def rec_at_def put_rec_def upd_rec_def Proc_3_def Proc_7_def Proc_6_def Func_3_def)

text \<open>What holds before a run that comes after \<open>k\<close> others, and what a run establishes.\<close>

definition dhry_ready :: "nat \<Rightarrow> globals \<times> locals \<Rightarrow> bool" where
  "dhry_ready k = (\<lambda>(g, l). Ptr_glob g = Some 0 \<and>
     (\<exists>r1 r2. recs g = [r1, r2] \<and> Ptr_Comp r1 = Some 1 \<and> Discr r1 = Ident_1 \<and> Enum_Comp r1 = Ident_3 \<and>
        Str_Comp r1 = literal str_some) \<and>
     length (Arr_1_glob g) = 50 \<and> length (Arr_2_glob g) = 50 \<and> length (Arr_2_glob g ! 8) = 50 \<and>
     length (Arr_2_glob g ! 28) = 50 \<and> Arr_2_glob g ! 8 ! 7 = 10 + of_nat k \<and>
     Str_1_Loc l = literal str_1 \<and> length (Str_2_Loc l) = 31)"

definition dhry_done :: "globals \<times> locals \<Rightarrow> bool" where
  "dhry_done = (\<lambda>(g, l). Int_glob g = 5 \<and> Bool_glob g = 1 \<and> Ch_1_glob g = 65 \<and> Ch_2_glob g = 66 \<and>
     Arr_1_glob g ! 8 = 7 \<and> Ptr_glob g = Some 0 \<and>
     recs g = [\<lparr>Ptr_Comp = Some 1, Discr = Ident_1, Enum_Comp = Ident_3, Int_Comp = 17, Str_Comp = literal str_some\<rparr>,
               \<lparr>Ptr_Comp = Some 1, Discr = Ident_1, Enum_Comp = Ident_2, Int_Comp = 18, Str_Comp = literal str_some\<rparr>] \<and>
     l = \<lparr>Int_1_Loc = Some 7, Int_2_Loc = Some 39, Int_3_Loc = Some 9, Enum_Loc = Some Ident_2,
          Str_1_Loc = literal str_1, Str_2_Loc = literal str_2\<rparr>)"

lemma length_literal [simp]: "length (literal s) = Suc (length s)"
  by (simp add: literal_def)

lemma dhry_run_ok:
  assumes "dhry_ready k s"
  shows "\<exists>s'. dhry_run s = Some s' \<and> dhry_ready (Suc k) s' \<and> dhry_done s'"
proof -
  obtain g l where s: "s = (g, l)" by (cases s)
  obtain r1 r2 where g: "Ptr_glob g = Some 0" "recs g = [r1, r2]" "Ptr_Comp r1 = Some 1" "Discr r1 = Ident_1"
     "Enum_Comp r1 = Ident_3" "Str_Comp r1 = literal str_some" "length (Arr_1_glob g) = 50" "length (Arr_2_glob g) = 50"
     "length (Arr_2_glob g ! 8) = 50" "length (Arr_2_glob g ! 28) = 50" "Arr_2_glob g ! 8 ! 7 = 10 + of_nat k"
     and l: "Str_1_Loc l = literal str_1" "length (Str_2_Loc l) = 31"
    using assms by (auto simp: dhry_ready_def s)
  have str2: "strcpy (Str_2_Loc l) (literal str_2) = Some (literal str_2)"
    using strcpy_literal[OF strings_ok(2)] l(2) strings_ok(5) by simp
  let ?g1 = "g\<lparr>Ch_1_glob := 65, Ch_2_glob := 66, Bool_glob := 1\<rparr>"
  let ?g2 = "?g1\<lparr>Arr_1_glob := (Arr_1_glob g)[8 := 7, 9 := 7, 38 := 8],
     Arr_2_glob := (Arr_2_glob g)[8 := proc_8_row (Arr_2_glob g ! 8), 28 := (Arr_2_glob g ! 28)[8 := 7]], Int_glob := 5\<rparr>"
  let ?g3 = "?g2\<lparr>recs := [r1\<lparr>Int_Comp := 17\<rparr>, r1\<lparr>Int_Comp := 18, Enum_Comp := Ident_2\<rparr>]\<rparr>"
  let ?l = "l\<lparr>Int_1_Loc := Some 7, Int_2_Loc := Some 39, Int_3_Loc := Some 9, Enum_Loc := Some Ident_2, Str_2_Loc := literal str_2\<rparr>"
  have p8: "Proc_8 ?g1 3 7 = Some ?g2" using Proc_8_run[of ?g1] g(7-10) by simp
  have p1: "Proc_1 ?g2 (Ptr_glob ?g2) = Some ?g3" using Proc_1_run[of ?g2 r1 r2] g(1-5) by simp
  have start: "Proc_4 (Proc_5 g) = ?g1" by (simp add: Proc_4_def Proc_5_def)
  have "dhry_run s = Some (?g3, ?l)"
    unfolding s dhry_run_def prod.case start Let_def str2 l(1) bind.bind_lunit Func_2_strings if_False
      inner_loop_run
    using p8 p1 char_loop_run[of ?g3] Proc_2_run[of ?g3] int_div_run by simp
  moreover have "dhry_ready (Suc k) (?g3, ?l)" using g l strings_ok(5) by (simp add: dhry_ready_def proc_8_row_def)
  moreover have "dhry_done (?g3, ?l)"
  proof -
    obtain x where x: "r1 = \<lparr>Ptr_Comp = Some 1, Discr = Ident_1, Enum_Comp = Ident_3, Int_Comp = x, Str_Comp = literal str_some\<rparr>"
      using g(3-6) by (cases r1) simp
    have "?l = \<lparr>Int_1_Loc = Some 7, Int_2_Loc = Some 39, Int_3_Loc = Some 9, Enum_Loc = Some Ident_2,
        Str_1_Loc = literal str_1, Str_2_Loc = literal str_2\<rparr>"
      using l(1) by (cases l) simp
    then show ?thesis unfolding dhry_done_def prod.case x using g(1,7) by simp
  qed
  ultimately show ?thesis by blast
qed

lemma dhry_setup_ok:
  assumes "length (Str_1_Loc l) = 31" "length (Str_2_Loc l) = 31"
  shows "\<exists>s. dhry_setup (bss, l) = Some s \<and> dhry_ready 0 s"
proof -
  have "strcpy (Str_1_Loc l) (literal str_1) = Some (literal str_1)"
    "strcpy (replicate 31 (Some 0)) (literal str_some) = Some (literal str_some)"
    using strcpy_literal[OF strings_ok(1)] strcpy_literal[OF strings_ok(3)] assms strings_ok(4,6) by simp_all
  then show ?thesis using assms(2)
    by (simp add: dhry_setup_def bss_def zero_rec_def upd_rec_def rec_at_def put_rec_def put_2_def dhry_ready_def)
qed

lemma dhry_runs_ok:
  assumes "dhry_ready 0 s" "0 < sint n"
  shows "\<exists>s'. dhry_runs n s = Some s' \<and> dhry_ready (nat (sint n)) s' \<and> dhry_done s'"
proof -
  let ?P = "\<lambda>j s. dhry_ready (j - 1) s \<and> (1 < j \<longrightarrow> dhry_done s)"
  have "\<exists>s'. for_loop 1 (Suc (nat (sint n))) (\<lambda>Run_Index. dhry_run) s = Some s' \<and> ?P (Suc (nat (sint n))) s'"
  proof (rule for_loop_rule)
    fix j t assume j: "1 \<le> j" "?P j t"
    obtain t' where "dhry_run t = Some t'" "dhry_ready (Suc (j - 1)) t'" "dhry_done t'"
      using dhry_run_ok[of "j - 1" t] j(2) by blast
    then show "\<exists>t'. dhry_run t = Some t' \<and> ?P (Suc j) t'" using j(1) by auto
  qed (use assms in auto)
  then show ?thesis using assms(2) by (auto simp: dhry_runs_def)
qed

section \<open>The report prints\<close>

lemma dhry_formats_values_1:
  "dhr_takes (''Dhrystone Benchmark, Version 2.1 (Language: C)'' @ nl) []"
  "dhr_takes (''Program compiled without 'register' attribute'' @ nl) []"
  "dhr_takes (''Execution starts, %d runs through Dhrystone'' @ nl) [False]"
  "dhr_takes (''Execution ends'' @ nl @ nl) []"
  "dhr_takes (''Final values of the variables used in the benchmark:'' @ nl @ nl) []"
  "dhr_takes (''Int_Glob:            %d'' @ nl) [False]"
  by code_simp+

lemma dhry_formats_values_2:
  "dhr_takes (''Bool_Glob:           %d'' @ nl) [False]"
  "dhr_takes (''Ch_1_Glob:           %c'' @ nl) [False]"
  "dhr_takes (''Ch_2_Glob:           %c'' @ nl) [False]"
  "dhr_takes (''Arr_1_Glob[8]:       %d'' @ nl) [False]"
  "dhr_takes (''Arr_2_Glob[8][7]:    %d'' @ nl) [False]"
  "dhr_takes (''Ptr_Glob->Discr:     %d'' @ nl) [False]"
  by code_simp+

lemmas dhry_formats_values = dhry_formats_values_1 dhry_formats_values_2

lemma dhry_formats_locals_1:
  "dhr_takes (''        ->Int_Comp:  %d'' @ nl) [False]"
  "dhr_takes (''Next_Ptr_Glob->Discr: %d'' @ nl) [False]"
  "dhr_takes (''Int_1_Loc:           %d'' @ nl) [False]"
  "dhr_takes (''Int_2_Loc:           %d'' @ nl) [False]"
  by code_simp+

lemma dhry_formats_locals_2:
  "dhr_takes (''Int_3_Loc:           %d'' @ nl) [False]"
  "dhr_takes (''Enum_Loc:            %d'' @ nl) [False]"
  "dhr_takes (''Str_1_Loc:           %s'' @ nl) [True]"
  "dhr_takes (''Str_2_Loc:           %s'' @ nl) [True]"
  by code_simp+

lemmas dhry_formats_locals = dhry_formats_locals_1 dhry_formats_locals_2

lemma dhry_formats_score_1:
  "dhr_takes nl []"
  "dhr_takes (''Cycles/Iteration:                            %d'' @ nl) [False]"
  "dhr_takes (''Microseconds for one run through Dhrystone:  %d'' @ nl) [False]"
  "dhr_takes (''Dhrystones per Second:                       %d'' @ nl) [False]"
  by code_simp+

lemma dhry_formats_score_2:
  "dhr_takes (''DMIPS:                                       %d.%03d'' @ nl) [False, False]"
  "dhr_takes (''DMIPS/MHz:                                   %d.%03d'' @ nl) [False, False]"
  "dhr_takes (''Compiler Version:                            %s'' @ nl) [True]"
  "dhr_takes (''Compiler Flags:                              %s'' @ nl) [True]"
  by code_simp+

lemmas dhry_formats_score = dhry_formats_score_1 dhry_formats_score_2

lemmas dhry_printing = printable_Cons dhry_calls.text_of_known dhry_formats_values dhry_formats_locals dhry_formats_score
  simp_thms if_True if_False

lemma banner_prints: "dhr_prints (banner n)"
  by (simp only: banner_def dhry_printing)

lemma buf_arg_literal: "buf_arg (literal s) = c_string s"
proof -
  have "takeWhile (\<lambda>c. c \<noteq> None) (map Some xs) = map Some xs" for xs :: "ee_u8 list" by (induction xs) simp_all
  then show ?thesis unfolding buf_arg_def literal_def c_string_def by (simp only:) (simp add: comp_def)
qed

lemma final_values_print:
  assumes "dhry_ready k (g, l)" "dhry_done (g, l)"
  shows "\<exists>cs. final_values (g, l) = Some cs \<and> dhr_prints cs"
proof -
  obtain r n where rn: "rec_at g (Ptr_glob g) = Some r" "rec_at g (Some 1) = Some n"
    using assms(2) by (simp add: dhry_done_def rec_at_def)
  obtain a1 a2 where a: "get_1 g 8 = Some a1" "get_2 g 8 7 = Some a2"
    using assms(1) by (simp add: dhry_ready_def get_1_def get_2_def)
  have l: "Int_1_Loc l = Some 7" "Int_2_Loc l = Some 39" "Int_3_Loc l = Some 9" "Enum_Loc l = Some Ident_2"
     "buf_arg (Str_1_Loc l) = c_string str_1" "buf_arg (Str_2_Loc l) = c_string str_2"
    using assms(2) by (simp_all add: dhry_done_def buf_arg_literal)
  show ?thesis
    by (simp only: final_values_def prod.case rn a l bind.bind_lunit option.inject ex_simps simp_thms dhry_printing)
qed

lemma runs_ticks:
  fixes n :: ee_s32
  assumes "0 \<le> sint n"
  shows "uint (scast n * ucast clk_freq_hz :: 64 word) = sint n * 100000000"
proof -
  have "(scast n * ucast clk_freq_hz :: 64 word) = word_of_int (sint n) * word_of_int 100000000"
    by (simp add: clk_freq_hz_def)
  also have "\<dots> = word_of_int (sint n * 100000000)" by (simp only: wi_hom_mult)
  finally have w: "(scast n * ucast clk_freq_hz :: 64 word) = word_of_int (sint n * 100000000)" .
  have "sint n * 100000000 < 2 ^ 64" using sint_lt[of n] by simp
  moreover have "0 \<le> sint n * 100000000" using assms by simp
  ultimately show ?thesis unfolding w by (simp only: uint_word_of_int len_of_numeral_defs) simp
qed

lemma dhry_score_prints:
  assumes "0 < sint n"
  shows "\<exists>cs. dhry_score version flags Elapsed n = Some cs \<and> dhr_prints cs"
proof -
  have nz: "n \<noteq> 0" using assms by auto
  have "uint (scast n * ucast clk_freq_hz :: 64 word) = sint n * 100000000"
    using runs_ticks[of n] assms by simp
  then have "(scast n * ucast clk_freq_hz :: 64 word) \<noteq> 0" using assms by auto
  then have "us_per_run Elapsed n \<noteq> None" by (simp add: us_per_run_def Let_def)
  then obtain us where us: "us_per_run Elapsed n = Some us" by blast
  have "dhry_cycles Elapsed n \<noteq> None" using nz by (simp add: dhry_cycles_def)
  then obtain c where c: "dhry_cycles Elapsed n = Some c" by blast
  obtain d f where d: "vax_mips (dhrystones_per_sec Elapsed n) = (d, f)" by fastforce
  let ?x = "if clk_freq_hz div 1000000 > 0 then dhrystones_per_sec Elapsed n div (clk_freq_hz div 1000000) else 0"
  obtain d' f' where d': "vax_mips ?x = (d', f')" by fastforce
  show ?thesis
    by (simp only: dhry_score_def Let_def us c d d' prod.case bind.bind_lunit option.inject ex_simps simp_thms
        printable_Cons dhry_calls.text_of_known dhry_formats_score)
qed

section \<open>Properties\<close>



text \<open>C22. Whatever ran before, a run of the loop that starts with the records and strings in place ends in
  the same final values and counts itself in \<open>Arr_2_glob[8][7]\<close>; the values are not those of
  Dhrystone 2.1, whose locals end as 5, 13 and 7.\<close>

theorem dhry_run_final_values:
  assumes "dhry_ready k s"
  shows "\<exists>s'. dhry_run s = Some s' \<and> dhry_ready (Suc k) s' \<and> dhry_done s'"
  using assms by (rule dhry_run_ok)

lemma dhry_run_final_values_witness:
  "\<exists>s s'. dhry_setup (bss, \<lparr>Int_1_Loc = None, Int_2_Loc = None, Int_3_Loc = None, Enum_Loc = None, Str_1_Loc = replicate 31 None,
         Str_2_Loc = replicate 31 None\<rparr>) = Some s \<and> dhry_run s = Some s' \<and> dhry_ready (Suc 0) s' \<and> dhry_done s'"
proof -
  obtain s where "dhry_setup (bss, \<lparr>Int_1_Loc = None, Int_2_Loc = None, Int_3_Loc = None, Enum_Loc = None,
      Str_1_Loc = replicate 31 None, Str_2_Loc = replicate 31 None\<rparr>) = Some s" "dhry_ready 0 s"
    using dhry_setup_ok[of "\<lparr>Int_1_Loc = None, Int_2_Loc = None, Int_3_Loc = None, Enum_Loc = None,
      Str_1_Loc = replicate 31 None, Str_2_Loc = replicate 31 None\<rparr>"] by auto
  then show ?thesis using dhry_run_final_values[of 0 s] by blast
qed

text \<open>C35. \<open>Proc_2\<close> reads its local \<open>Enum_Loc\<close> before anything is stored in it unless \<open>Ch_1_glob\<close> is
  \<open>'A'\<close>; then its loop ends in the first turn.\<close>

theorem Proc_2_defined_iff:
  "Proc_2 g r = (if Ch_1_glob g = 65 then Some (r + 9 - Int_glob g) else None)"
  by (simp add: Proc_2_def while_loop.simps)

text \<open>The DMIPS figures are exact in thousandths, rounded down.\<close>

theorem vax_mips_exact:
  "case vax_mips x of (whole, frac) \<Rightarrow> unat whole * 1000 + unat frac = unat x * 1000 div 1757 \<and> unat frac < 1000"
proof -
  have "unat x mod 1757 * 1000 < 2 ^ 32" by (rule le_less_trans[of _ "1756 * 1000"]) simp_all
  then have f: "unat (x mod 1757 * 1000) = unat x mod 1757 * 1000" by (simp add: unat_word_ariths unat_mod)
  have "n div 1757 * 1000 + (n mod 1757 * 1000) div 1757 = n * 1000 div 1757" for n :: nat
  proof -
    have "n * 1000 = n mod 1757 * 1000 + (n div 1757 * 1000) * 1757"
      using div_mult_mod_eq[of n 1757] by linarith
    then show ?thesis by (simp only: div_mult_self3[of 1757])
  qed
  from this[of "unat x"] have "unat (x div 1757) * 1000 + unat (x mod 1757 * 1000 div 1757) = unat x * 1000 div 1757"
    by (simp only: unat_div f unsigned_numeral) simp
  moreover have "unat (x mod 1757 * 1000 div 1757) < 1000"
    by (simp only: unat_div f) simp
  ultimately show ?thesis by (simp add: vax_mips_def)
qed

end
