(* ===== verification/Libc.thy ===== *)
theory Libc
  imports Prelude
begin

text \<open>
  The freestanding memory and string functions, \<^verbatim>\<open>rtos/bsp/libc_stubs.c\<close> (and the two copies in
  \<^verbatim>\<open>coremark/src/core_portme.c\<close>), on a flat memory of bytes in which a pointer is an index.  An
  access outside of the memory is undefined.  The functions return their first argument and the
  memory.
\<close>

type_synonym memory = "ee_u8 list"

section \<open>The code\<close>

text \<open>\<open>while (n--) *dd++ = *ss++;\<close> and \<open>while (n--) *--dd = *--ss;\<close> (for \<open>dd = d + n\<close>, \<open>ss = s + n\<close>).\<close>

fun copy_up :: "nat \<Rightarrow> nat \<Rightarrow> nat \<Rightarrow> memory \<Rightarrow> memory option" where
  "copy_up dd ss 0 m = Some m"
| "copy_up dd ss (Suc n) m = do { c \<leftarrow> aread m ss; m \<leftarrow> awrite m dd c; copy_up (dd + 1) (ss + 1) n m }"

fun copy_down :: "nat \<Rightarrow> nat \<Rightarrow> nat \<Rightarrow> memory \<Rightarrow> memory option" where
  "copy_down dd ss 0 m = Some m"
| "copy_down dd ss (Suc n) m = do {
     c \<leftarrow> aread m (ss - 1); m \<leftarrow> awrite m (dd - 1) c; copy_down (dd - 1) (ss - 1) n m }"

text \<open>\<open>while (n--) *dd++ = c;\<close>\<close>

fun fill :: "nat \<Rightarrow> ee_u8 \<Rightarrow> nat \<Rightarrow> memory \<Rightarrow> memory option" where
  "fill dd c 0 m = Some m"
| "fill dd c (Suc n) m = do { m \<leftarrow> awrite m dd c; fill (dd + 1) c n m }"

definition memcpy :: "nat \<Rightarrow> nat \<Rightarrow> nat \<Rightarrow> memory \<Rightarrow> (nat \<times> memory) option" where
  "memcpy d s n m = do { m \<leftarrow> copy_up d s n m; Some (d, m) }"

definition memset :: "nat \<Rightarrow> ee_s32 \<Rightarrow> nat \<Rightarrow> memory \<Rightarrow> (nat \<times> memory) option" where
  "memset d c n m = do { m \<leftarrow> fill d (ucast c) n m; Some (d, m) }"

definition memmove :: "nat \<Rightarrow> nat \<Rightarrow> nat \<Rightarrow> memory \<Rightarrow> (nat \<times> memory) option" where
  "memmove d s n m = do {
     m \<leftarrow> (if d < s then copy_up d s n m else copy_down (d + n) (s + n) n m);
     Some (d, m) }"

fun memcmp :: "nat \<Rightarrow> nat \<Rightarrow> nat \<Rightarrow> memory \<Rightarrow> int option" where
  "memcmp p1 p2 0 m = Some 0"
| "memcmp p1 p2 (Suc n) m = do {
     c1 \<leftarrow> aread m p1;
     c2 \<leftarrow> aread m p2;
     if c1 \<noteq> c2 then Some (uint c1 - uint c2) else memcmp (p1 + 1) (p2 + 1) n m }"

text \<open>\<open>while (n && *s) { *d++ = *s++; n--; }\<close>: where \<open>d\<close> and \<open>n\<close> end.\<close>

fun copy_string :: "nat \<Rightarrow> nat \<Rightarrow> nat \<Rightarrow> memory \<Rightarrow> (nat \<times> nat \<times> memory) option" where
  "copy_string d s 0 m = Some (d, 0, m)"
| "copy_string d s (Suc n) m = do {
     c \<leftarrow> aread m s;
     if c \<noteq> 0 then do { m \<leftarrow> awrite m d c; copy_string (d + 1) (s + 1) n m } else Some (d, Suc n, m) }"

definition strncpy :: "nat \<Rightarrow> nat \<Rightarrow> nat \<Rightarrow> memory \<Rightarrow> (nat \<times> memory) option" where
  "strncpy d s n m = do {
     (d', n, m) \<leftarrow> copy_string d s n m;
     m \<leftarrow> fill d' 0 n m;
     Some (d, m) }"

definition strlen :: "nat \<Rightarrow> memory \<Rightarrow> nat option" where
  "strlen s m = while_loop (\<lambda>len. do { c \<leftarrow> aread m (s + len); Some (c \<noteq> 0) }) (\<lambda>len. Some (len + 1)) 0"

text \<open>\<open>memset\<close> and \<open>memcpy\<close> of the CoreMark port are the same loops.\<close>

definition portme_memset :: "nat \<Rightarrow> ee_s32 \<Rightarrow> nat \<Rightarrow> memory \<Rightarrow> (nat \<times> memory) option" where
  "portme_memset dst c n m = do { m \<leftarrow> fill dst (ucast c) n m; Some (dst, m) }"

definition portme_memcpy :: "nat \<Rightarrow> nat \<Rightarrow> nat \<Rightarrow> memory \<Rightarrow> (nat \<times> memory) option" where
  "portme_memcpy dst src n m = do { m \<leftarrow> copy_up dst src n m; Some (dst, m) }"

section \<open>Block operations\<close>

text \<open>The abstract memory is a partial function from addresses to bytes.  \<open>blit\<close> copies a block as if
  through a snapshot.\<close>

definition store :: "memory \<Rightarrow> nat \<Rightarrow> ee_u8 option" where
  "store m a = aread m a"

definition blit :: "nat \<Rightarrow> nat \<Rightarrow> nat \<Rightarrow> (nat \<Rightarrow> ee_u8 option) \<Rightarrow> nat \<Rightarrow> ee_u8 option" where
  "blit d s n f = (\<lambda>a. if d \<le> a \<and> a < d + n then f (s + (a - d)) else f a)"

lemma store_nth [simp]: "a < length m \<Longrightarrow> store m a = Some (m ! a)"
  by (simp add: store_def)

lemma store_None_iff: "store m a = None \<longleftrightarrow> length m \<le> a"
  by (auto simp: store_def aread_def)

lemma store_update: "i < length m \<Longrightarrow> store (m[i := c]) = (store m)(i \<mapsto> c)"
  by (rule ext) (auto simp: store_def aread_def)

lemma store_eqD: "store m = store m' \<Longrightarrow> m = m'"
proof (rule nth_equalityI)
  assume eq: "store m = store m'"
  show len: "length m = length m'"
    using store_None_iff[of m] store_None_iff[of m'] unfolding eq
    by (meson le_antisym order_refl)
  show "m ! i = m' ! i" if "i < length m" for i
    using fun_cong[OF eq, of i] that len by simp
qed

text \<open>The memory with the \<open>n\<close> bytes from \<open>d\<close> replaced by \<open>f 0\<close>, \<open>f 1\<close>, \dots\<close>

definition overlay :: "nat \<Rightarrow> nat \<Rightarrow> (nat \<Rightarrow> ee_u8) \<Rightarrow> memory \<Rightarrow> memory" where
  "overlay d n f m = map (\<lambda>a. if d \<le> a \<and> a < d + n then f (a - d) else m ! a) [0..<length m]"

lemma length_overlay [simp]: "length (overlay d n f m) = length m"
  by (simp add: overlay_def)

lemma overlay_nth [simp]: "a < length m \<Longrightarrow> overlay d n f m ! a = (if d \<le> a \<and> a < d + n then f (a - d) else m ! a)"
  by (simp add: overlay_def)

lemma overlay_0 [simp]: "overlay d 0 f m = m"
  by (rule nth_equalityI) auto

lemma overlay_snoc: "d + n < length m \<Longrightarrow> (overlay d n f m)[d + n := f n] = overlay d (Suc n) f m"
  by (rule nth_equalityI) (auto simp: nth_list_update less_Suc_eq)

lemma overlay_cong: "d = d' \<Longrightarrow> n = n' \<Longrightarrow> m = m' \<Longrightarrow> (\<And>k. k < n \<Longrightarrow> f k = g k) \<Longrightarrow> overlay d n f m = overlay d' n' g m'"
  by (rule nth_equalityI) auto

lemma overlay_Cons: "d < length m \<Longrightarrow> overlay (Suc d) n f (m[d := c]) = overlay d (Suc n) (case_nat c f) m"
  by (rule nth_equalityI) (auto simp: nth_list_update split: nat.split intro!: arg_cong[of _ _ f])

lemma store_overlay: "n = 0 \<or> d + n \<le> length m \<Longrightarrow>
    store (overlay d n f m) = (\<lambda>a. if d \<le> a \<and> a < d + n then Some (f (a - d)) else store m a)"
  by (rule ext) (auto simp: store_def aread_def)

text \<open>A block of \<open>n\<close> bytes lies in the memory.\<close>

definition block :: "memory \<Rightarrow> nat \<Rightarrow> nat \<Rightarrow> bool" where
  "block m a n \<longleftrightarrow> n = 0 \<or> a + n \<le> length m"

lemma block_0 [simp]: "block m a 0"
  by (simp add: block_def)

lemma block_Suc: "block m a (Suc n) \<longleftrightarrow> a + n < length m"
  by (auto simp: block_def)

text \<open>An upward copy, for every overlap: byte \<open>k\<close> comes from \<open>s + k\<close>, but if the destination starts
  inside of the source, the \<open>d - s\<close> bytes before it are repeated.\<close>

definition up_from :: "nat \<Rightarrow> nat \<Rightarrow> nat \<Rightarrow> nat" where
  "up_from d s k = s + (if s < d then k mod (d - s) else k)"

lemma copy_up_snoc: "copy_up d s (Suc n) m = do {
    m \<leftarrow> copy_up d s n m; c \<leftarrow> aread m (s + n); awrite m (d + n) c }"
proof (induction n arbitrary: d s m)
  case 0
  show ?case by (simp split: bind_splits)
next
  case (Suc n)
  have "copy_up d s (Suc (Suc n)) m = do {
      c \<leftarrow> aread m s; m \<leftarrow> awrite m d c; copy_up (d + 1) (s + 1) (Suc n) m }"
    by (rule copy_up.simps(2))
  also have "\<dots> = do { c \<leftarrow> aread m s; m \<leftarrow> awrite m d c; m \<leftarrow> copy_up (d + 1) (s + 1) n m;
      c \<leftarrow> aread m (s + 1 + n); awrite m (d + 1 + n) c }" by (simp only: Suc.IH)
  also have "\<dots> = do { m \<leftarrow> copy_up d s (Suc n) m; c \<leftarrow> aread m (s + Suc n); awrite m (d + Suc n) c }"
    by (simp add: bind_assoc)
  finally show ?case .
qed

lemma copy_up_spec:
  "copy_up d s n m = (if block m s n \<and> block m d n then Some (overlay d n (\<lambda>k. m ! up_from d s k) m) else None)"
proof (induction n)
  case 0
  then show ?case by simp
next
  case (Suc n)
  let ?m = "overlay d n (\<lambda>k. m ! up_from d s k) m"
  show ?case
  proof (cases "block m s (Suc n) \<and> block m d (Suc n)")
    case True
    then have c: "copy_up d s n m = Some ?m" "s + n < length m" "d + n < length m"
      using Suc.IH by (auto simp: block_def)
    have "?m ! (s + n) = m ! up_from d s n"
    proof (cases "s < d \<and> d \<le> s + n")
      case True
      then have "n mod (d - s) = (s + n - d) mod (d - s)"
        using le_mod_geq[of "d - s" n] by (simp add: add.commute le_diff_conv)
      then show ?thesis using True c(2) by (simp add: up_from_def)
    qed (use c(2) in \<open>auto simp: up_from_def\<close>)
    then show ?thesis using True c overlay_snoc[of d n m "\<lambda>k. m ! up_from d s k"]
      by (simp add: copy_up_snoc del: copy_up.simps)
  next
    case False
    then show ?thesis using Suc.IH
      by (auto simp: copy_up_snoc aread_def awrite_def block_def split: if_splits simp del: copy_up.simps)
  qed
qed

lemma copy_down_spec:
  "s \<le> d \<Longrightarrow> copy_down (d + n) (s + n) n m =
     (if block m s n \<and> block m d n then Some (overlay d n (\<lambda>k. m ! (s + k)) m) else None)"
proof (induction n arbitrary: m)
  case 0
  then show ?case by simp
next
  case (Suc n)
  show ?case
  proof (cases "block m s (Suc n) \<and> block m d (Suc n)")
    case True
    then have in_m: "s + n < length m" "d + n < length m" by (simp_all add: block_Suc)
    let ?m = "m[d + n := m ! (s + n)]"
    have "copy_down (d + Suc n) (s + Suc n) (Suc n) m = copy_down (d + n) (s + n) n ?m"
      using in_m by simp
    also have "\<dots> = Some (overlay d n (\<lambda>k. ?m ! (s + k)) ?m)"
      using Suc.IH[OF Suc.prems, of ?m] in_m by (simp add: block_def)
    also have "overlay d n (\<lambda>k. ?m ! (s + k)) ?m = overlay d (Suc n) (\<lambda>k. m ! (s + k)) m"
      using Suc.prems in_m by (intro nth_equalityI) (auto simp: nth_list_update)
    finally show ?thesis using True by simp
  next
    case False
    then show ?thesis by (auto simp: aread_def awrite_def block_Suc)
  qed
qed

lemma fill_spec: "fill d c n m = (if block m d n then Some (overlay d n (\<lambda>_. c) m) else None)"
proof (induction n arbitrary: d m)
  case 0
  then show ?case by simp
next
  case (Suc n)
  have const: "case_nat c (\<lambda>_. c) = (\<lambda>_. c)" by (auto split: nat.split)
  show ?case
  proof (cases "d < length m")
    case True
    then show ?thesis using Suc.IH[of "d + 1" "m[d := c]"]
      by (auto simp: overlay_Cons const block_def)
  qed (auto simp: awrite_def block_def)
qed


text \<open>C41. \<open>memcpy\<close> for every overlap: if the destination starts inside of the source, the bytes before it
  are repeated periodically; otherwise it is the block copy.\<close>

theorem memcpy_of_overlap:
  "memcpy d s n m = (if block m s n \<and> block m d n
     then Some (d, overlay d n (\<lambda>k. m ! (s + (if s < d then k mod (d - s) else k))) m) else None)"
  by (simp add: memcpy_def copy_up_spec up_from_def)

lemma memset_spec:
  "memset d c n m = (if block m d n then Some (d, overlay d n (\<lambda>_. ucast c) m) else None)"
  by (simp add: memset_def fill_spec)

section \<open>Comparison\<close>

text \<open>The bytes of a block.\<close>

definition bytes_at :: "memory \<Rightarrow> nat \<Rightarrow> nat \<Rightarrow> ee_u8 list" where
  "bytes_at m a n = take n (drop a m)"

fun first_diff :: "ee_u8 list \<Rightarrow> ee_u8 list \<Rightarrow> int" where
  "first_diff (x # xs) (y # ys) = (if x = y then first_diff xs ys else uint x - uint y)"
| "first_diff _ _ = 0"

lemma bytes_at_Suc: "a < length m \<Longrightarrow> bytes_at m a (Suc n) = m ! a # bytes_at m (Suc a) n"
  by (simp add: bytes_at_def Cons_nth_drop_Suc[symmetric])

lemma length_bytes_at [simp]: "block m a n \<Longrightarrow> length (bytes_at m a n) = n"
  by (auto simp: bytes_at_def block_def)

lemma memcmp_spec:
  "block m p1 n \<Longrightarrow> block m p2 n \<Longrightarrow> memcmp p1 p2 n m = Some (first_diff (bytes_at m p1 n) (bytes_at m p2 n))"
proof (induction n arbitrary: p1 p2)
  case (Suc n)
  then have "p1 < length m" "p2 < length m" "block m (Suc p1) n" "block m (Suc p2) n" by (auto simp: block_def)
  then show ?case using Suc.IH by (simp add: bytes_at_Suc)
qed (simp add: bytes_at_def)

lemma first_diff_order:
  assumes "length xs = length ys"
  shows "first_diff xs ys = 0 \<longleftrightarrow> xs = ys" "first_diff xs ys < 0 \<longleftrightarrow> (xs, ys) \<in> lexord {(a, b). a < b}"
  using assms
proof (induction xs ys rule: first_diff.induct)
  case (1 x xs y ys)
  { case 1 then show ?case using "1.IH" by (auto simp: word_uint_eq_iff) }
  { case 2 then show ?case using "1.IH" by (auto simp: word_less_def) }
qed auto

text \<open>C26. \<open>memcmp\<close> of two blocks in the memory is negative, zero or positive as the first block is
  lexicographically before, equal to or after the second, bytes compared as unsigned.\<close>

theorem memcmp_is_lexicographic:
  assumes "block m p1 n" "block m p2 n"
  shows "\<exists>c. memcmp p1 p2 n m = Some c \<and>
     (c = 0) = (bytes_at m p1 n = bytes_at m p2 n) \<and>
     (c < 0) = ((bytes_at m p1 n, bytes_at m p2 n) \<in> lexord {(a, b). a < b}) \<and>
     memcmp p2 p1 n m = Some (- c)"
proof -
  have len: "length (bytes_at m p1 n) = length (bytes_at m p2 n)" using assms by simp
  have swap: "length xs = length ys \<Longrightarrow> first_diff ys xs = - first_diff xs ys" for xs ys
    by (induction xs ys rule: first_diff.induct) auto
  show ?thesis
    using memcmp_spec[OF assms] memcmp_spec[OF assms(2,1)] first_diff_order[OF len] swap[OF len] by auto
qed

lemma memcmp_is_lexicographic_witness:
  "\<exists>c. memcmp 0 2 2 [1, 200, 1, 100] = Some c \<and>
     (c = 0) = (bytes_at [1, 200, 1, 100] 0 2 = bytes_at [1, 200, 1, 100] 2 2) \<and>
     (c < 0) = ((bytes_at [1, 200, 1, 100] 0 2, bytes_at [1, 200, 1, 100] 2 2) \<in> lexord {(a, b). a < b}) \<and>
     memcmp 2 0 2 [1, 200, 1, 100] = Some (- c)"
  by (rule memcmp_is_lexicographic) (simp_all add: block_def)

section \<open>Strings\<close>

text \<open>The string at an address: its bytes before the first \<open>NUL\<close>, if the memory has one.\<close>

definition string_at :: "memory \<Rightarrow> nat \<Rightarrow> ee_u8 list option" where
  "string_at m a = (if 0 \<in> set (drop a m) then Some (takeWhile (\<lambda>c. c \<noteq> 0) (drop a m)) else None)"

lemma string_at_out: "length m \<le> a \<Longrightarrow> string_at m a = None"
  by (simp add: string_at_def)

lemma string_at_step: "a < length m \<Longrightarrow> string_at m a =
    (if m ! a = 0 then Some [] else map_option (Cons (m ! a)) (string_at m (Suc a)))"
  by (auto simp: string_at_def Cons_nth_drop_Suc[symmetric])

lemma strlen_from:
  "while_loop (\<lambda>len. do { c \<leftarrow> aread m (s + len); Some (c \<noteq> 0) }) (\<lambda>len. Some (len + 1)) k =
     map_option (\<lambda>t. k + length t) (string_at m (s + k))"
proof (induction "length m - (s + k)" arbitrary: k)
  case 0
  then show ?case by (simp add: while_loop.simps string_at_out aread_def)
next
  case (Suc n)
  then have k: "s + k < length m" by simp
  show ?case
  proof (cases "m ! (s + k) = 0")
    case True
    then show ?thesis using k by (simp add: while_loop_stop string_at_step)
  next
    case False
    have "while_loop (\<lambda>len. do { c \<leftarrow> aread m (s + len); Some (c \<noteq> 0) }) (\<lambda>len. Some (len + 1)) k =
       while_loop (\<lambda>len. do { c \<leftarrow> aread m (s + len); Some (c \<noteq> 0) }) (\<lambda>len. Some (len + 1)) (k + 1)"
      using k False by (intro while_loop_step) simp_all
    then show ?thesis using Suc.hyps(1)[of "k + 1"] Suc.hyps(2) k False
      by (simp add: string_at_step option.map_comp comp_def)
  qed
qed

lemma strlen_spec: "strlen s m = map_option length (string_at m s)"
  using strlen_from[of m s 0] by (simp add: strlen_def)

lemma string_at_in: "string_at m a = Some t \<Longrightarrow> a < length m"
  using string_at_out[of m a] by (cases "a < length m") auto

lemma string_at_behind: "string_at m a = Some t \<Longrightarrow> a + length t < d \<Longrightarrow> string_at (m[d := c]) a = Some t"
proof (induction t arbitrary: a)
  case Nil
  then show ?case
    using string_at_in[OF Nil(1)] string_at_step[of a m] string_at_step[of a "m[d := c]"] by (auto split: if_splits)
next
  case (Cons x t)
  then show ?case
    using string_at_in[OF Cons(2)] string_at_step[of a m] string_at_step[of a "m[d := c]"] by (auto split: if_splits)
qed

text \<open>Copying the first \<open>n\<close> bytes of a string to a place that does not meet it.\<close>

lemma copy_string_spec:
  assumes "string_at m s = Some t" "block m d n" "d + n \<le> s \<or> s + length t < d"
  shows "copy_string d s n m = Some (d + min n (length t), n - length t,
    overlay d (min n (length t)) (\<lambda>k. t ! k) m)"
  using assms
proof (induction n arbitrary: d s m t)
  case 0
  then show ?case by simp
next
  case (Suc n)
  have s: "s < length m" using string_at_in[OF Suc.prems(1)] .
  have d: "d < length m" using Suc.prems(2) by (simp add: block_Suc)
  show ?case
  proof (cases "m ! s = 0")
    case True
    then have "t = []" using Suc.prems(1) s by (simp add: string_at_step)
    then show ?thesis using s True by simp
  next
    case False
    then obtain t' where t: "t = m ! s # t'" "string_at m (Suc s) = Some t'"
      using Suc.prems(1) s by (auto simp: string_at_step)
    let ?m = "m[d := m ! s]"
    have "string_at ?m (Suc s) = Some t'"
    proof (cases "d < Suc s")
      case True
      then show ?thesis using t(2) by (auto simp: string_at_def split: if_splits)
    next
      case False
      then show ?thesis using t Suc.prems(3) by (auto intro!: string_at_behind)
    qed
    moreover have "block ?m (d + 1) n" "d + 1 + n \<le> Suc s \<or> Suc s + length t' < d + 1"
      using Suc.prems(2,3) t(1) by (auto simp: block_def)
    ultimately have "copy_string (d + 1) (s + 1) n ?m = Some (d + 1 + min n (length t'), n - length t',
        overlay (d + 1) (min n (length t')) (\<lambda>k. t' ! k) ?m)"
      using Suc.IH[of ?m "Suc s" t' "d + 1"] by simp
    moreover have "overlay (d + 1) j (\<lambda>k. t' ! k) ?m = overlay d (Suc j) (\<lambda>k. t ! k) m" for j
    proof -
      have "overlay (d + 1) j (\<lambda>k. t' ! k) ?m = overlay d (Suc j) (case_nat (m ! s) (\<lambda>k. t' ! k)) m"
        using overlay_Cons[OF d] by simp
      also have "\<dots> = overlay d (Suc j) (\<lambda>k. t ! k) m"
        by (rule overlay_cong) (simp_all add: t(1) split: nat.split)
      finally show ?thesis .
    qed
    ultimately have "copy_string (d + 1) (s + 1) n ?m = Some (d + 1 + min n (length t'), n - length t',
        overlay d (Suc (min n (length t'))) (\<lambda>k. t ! k) m)"
      by simp
    then show ?thesis using s d False by (simp add: t(1))
  qed
qed

lemma overlay_twice:
  assumes "d + (i + j) \<le> length m"
  shows "overlay (d + i) j g (overlay d i f m) = overlay d (i + j) (\<lambda>k. if k < i then f k else g (k - i)) m"
  using assms by (intro nth_equalityI) auto

text \<open>C43. \<open>strncpy\<close> fills exactly the \<open>n\<close> bytes of the destination, with the string and then zeros; with a
  string of \<open>n\<close> bytes or more it leaves no terminating \<open>NUL\<close>.\<close>

theorem strncpy_fills_block:
  assumes "string_at m s = Some t" "block m d n" "d + n \<le> s \<or> s + length t < d"
  shows "\<exists>m'. strncpy d s n m = Some (d, m') \<and>
     m' = overlay d n (\<lambda>k. if k < length t then t ! k else 0) m \<and>
     bytes_at m' d n = take n (t @ replicate n 0) \<and>
     (0 \<in> set (bytes_at m' d n)) = (length t < n)"
proof -
  let ?m' = "overlay d n (\<lambda>k. if k < length t then t ! k else 0) m"
  let ?m1 = "overlay d (min n (length t)) (\<lambda>k. t ! k) m"
  have "fill (d + min n (length t)) 0 (n - length t) ?m1 =
      Some (overlay (d + min n (length t)) (n - length t) (\<lambda>_. 0) ?m1)"
    using assms(2) by (auto simp: fill_spec block_def)
  moreover have "overlay (d + min n (length t)) (n - length t) (\<lambda>_. 0) ?m1 = ?m'"
    using assms(2) by (cases "n = 0") (auto simp: overlay_twice block_def intro!: overlay_cong)
  ultimately have "strncpy d s n m = Some (d, ?m')"
    using copy_string_spec[OF assms] by (simp add: strncpy_def)
  moreover have "bytes_at ?m' d n = take n (t @ replicate n 0)"
    using assms(2) by (intro nth_equalityI) (auto simp: bytes_at_def block_def nth_append)
  moreover have "0 \<notin> set t"
    using assms(1) by (auto simp: string_at_def dest: set_takeWhileD split: if_splits)
  then have "(0 \<in> set (take n (t @ replicate n 0))) = (length t < n)"
    using in_set_takeD[of 0 n t] by auto
  ultimately show ?thesis by auto
qed

lemma strncpy_fills_block_witness:
  "\<exists>m'. strncpy 0 5 4 [9, 9, 9, 9, 9, 65, 66, 0] = Some (0, m') \<and>
     m' = overlay 0 4 (\<lambda>k. if k < length [65 :: ee_u8, 66] then [65, 66] ! k else 0) [9, 9, 9, 9, 9, 65, 66, 0] \<and>
     bytes_at m' 0 4 = take 4 ([65, 66] @ replicate 4 0) \<and>
     (0 \<in> set (bytes_at m' 0 4)) = (length [65 :: ee_u8, 66] < 4)"
  by (rule strncpy_fills_block) (simp_all add: block_def string_at_def)

end
