(* ===== verification/Bsp.thy ===== *)
theory Bsp
  imports Dhry_Port
begin

text \<open>
  The board support package of the FreeRTOS programs, \<^verbatim>\<open>rtos/bsp/bsp.c\<close>: the console driver, the two
  ways to end a simulation, and the hooks the kernel calls.  A function that ends in \<open>for(;;){}\<close> does
  not return: it spins, in the state it left.
\<close>

section \<open>Console\<close>

definition bsp_putc :: "(nat \<Rightarrow> nat) \<Rightarrow> ee_u8 \<Rightarrow> uart \<Rightarrow> uart option" where
  "bsp_putc busy c u = do { u \<leftarrow> wait_free u; Some (uart_write busy c u) }"

definition bsp_puts :: "(nat \<Rightarrow> nat) \<Rightarrow> ee_u8 list \<Rightarrow> uart \<Rightarrow> uart option" where
  "bsp_puts busy = put_string (bsp_putc busy)"

definition uart_putdec :: "(nat \<Rightarrow> nat) \<Rightarrow> ee_s32 \<Rightarrow> uart \<Rightarrow> uart option" where
  "uart_putdec busy v u = do {
     (w, u) \<leftarrow> (if sint v < 0 then do { u \<leftarrow> bsp_putc busy 45 u; Some (- v, u) } else Some (v, u));
     if w = 0 then bsp_putc busy 48 u
     else do {
       (buf, i, w) \<leftarrow> digit_loop dec_char 10 (replicate 12 None, 0, w);
       put_back (bsp_putc busy) buf i u } }"

text \<open>\<open>for (i = 28; i >= 0; i -= 4) uart_putc(h[(v >> i) & 0xF]);\<close>\<close>

definition nibble_loop :: "(nat \<Rightarrow> nat) \<Rightarrow> ee_u32 \<Rightarrow> int \<times> uart \<Rightarrow> (int \<times> uart) option" where
  "nibble_loop busy v = while_loop (\<lambda>(i, u). Some (0 \<le> i))
     (\<lambda>(i, u). do {
        c \<leftarrow> hex_char (drop_bit (nat i) v AND 0xF);
        u \<leftarrow> bsp_putc busy c u;
        Some (i - 4, u) })"

definition uart_puthex :: "(nat \<Rightarrow> nat) \<Rightarrow> ee_u32 \<Rightarrow> uart \<Rightarrow> uart option" where
  "uart_puthex busy v u = do {
     u \<leftarrow> bsp_puts busy (bytes ''0x'' @ [0]) u;
     (i, u) \<leftarrow> nibble_loop busy v (28, u);
     Some u }"

lemma bsp_putc_sends: "sends u [c] (bsp_putc busy c u)"
  by (simp add: bsp_putc_def wait_free_eq uart_write_def sends_def)

interpretation bsp: console "bsp_putc busy" "\<lambda>c. [c]" for busy
  by unfold_locales (rule bsp_putc_sends)

lemma bsp_puts_sends: "0 \<notin> set t \<Longrightarrow> sends u t (bsp_puts busy (t @ 0 # rest) u)"
  using bsp.put_string_sends[of t u busy rest] by (simp add: bsp_puts_def)

text \<open>\<open>uart_putdec\<close> sends the decimal notation of every signed number, the least one included.\<close>

lemma uart_putdec_sends: "sends u (int_text v) (uart_putdec busy v u)"
proof -
  have unsigned: "sends u (dec_text (unat w)) (if w = 0 then bsp_putc busy 48 u
     else do {
       (buf, i, w) \<leftarrow> digit_loop dec_char 10 (replicate 12 None, 0, w);
       put_back (bsp_putc busy) buf i u })" for w u
  proof (cases "w = 0")
    case True
    then show ?thesis using bsp_putc_sends[of u 48 busy] by (simp add: dec_text_def numeral_text_def)
  next
    case False
    have "length (digits (unat (10 :: ee_u32)) (unat w)) \<le> 12" using decimal_length[of w] by simp
    with bsp.number_sends[where digit = dec_char and char = dec_digit and base = 10 and n = 12 and v = w
        and busy = busy and u = u] False show ?thesis
      by (simp add: dec_text_def dec_char_spec)
  qed
  show ?thesis
  proof (cases "sint v < 0")
    case True
    have "sends u ([45] @ dec_text (unat (- v))) (Option.bind (bsp_putc busy 45 u) (\<lambda>u. if - v = 0 then bsp_putc busy 48 u
      else do { (buf, i, w) \<leftarrow> digit_loop dec_char 10 (replicate 12 None, 0, - v); put_back (bsp_putc busy) buf i u }))"
      by (intro sends_bind bsp_putc_sends unsigned)
    then show ?thesis using True by (simp add: uart_putdec_def int_text_def bind_assoc)
  next
    case False
    then show ?thesis using unsigned[of u v] by (simp add: uart_putdec_def int_text_def)
  qed
qed

text \<open>The eight hexadecimal digits of a number.\<close>

definition nibble :: "nat \<Rightarrow> ee_u32 \<Rightarrow> nat" where
  "nibble k v = unat v div 16 ^ k mod 16"

definition hex8_text :: "ee_u32 \<Rightarrow> ee_u8 list" where
  "hex8_text v = map (\<lambda>k. hex_digit (nibble k v)) (rev [0..<8])"

lemma nibble_char: "hex_char (drop_bit (4 * k) v AND 0xF) = Some (hex_digit (nibble k v))"
proof -
  have "drop_bit (4 * k) v AND 0xF = take_bit 4 (drop_bit (4 * k) v)"
    by (simp add: take_bit_eq_mask mask_eq_exp_minus_1)
  then have "unat (drop_bit (4 * k) v AND 0xF) = take_bit 4 (drop_bit (4 * k) (unat v))"
    by (simp only: unsigned_take_bit_eq unsigned_drop_bit_eq) (simp add: take_bit_nat_eq_self unsigned_less[of v, where 'a = nat, simplified])
  then have "unat (drop_bit (4 * k) v AND 0xF) = nibble k v"
    by (simp only: take_bit_eq_mod drop_bit_eq_div nibble_def power_mult) simp
  moreover have "nibble k v < 16" by (simp add: nibble_def)
  ultimately show ?thesis using hex_char_spec[of "drop_bit (4 * k) v AND 0xF"] by simp
qed

lemma nibble_loop_sends:
  "\<exists>i u'. nibble_loop busy v (4 * int n - 4, u) = Some (i, u') \<and> sent u' = sent u @ map (\<lambda>k. hex_digit (nibble k v)) (rev [0..<n])"
proof (induction n arbitrary: u)
  case 0
  then show ?case by (simp add: nibble_loop_def while_loop_stop)
next
  case (Suc n)
  obtain u1 where u1: "bsp_putc busy (hex_digit (nibble n v)) u = Some u1" "sent u1 = sent u @ [hex_digit (nibble n v)]"
    using bsp_putc_sends unfolding sends_def by blast
  have n: "nat (4 * int (Suc n) - 4) = 4 * n" by simp
  have "nibble_loop busy v (4 * int (Suc n) - 4, u) = nibble_loop busy v (4 * int n - 4, u1)"
    unfolding nibble_loop_def using u1(1) n nibble_char[of n v] by (intro while_loop_step) simp_all
  with Suc.IH[of u1] u1(2) show ?case by auto
qed

text \<open>The digits denote the number.\<close>

lemma hex8_denotes: "(\<Sum>k<8. nibble k v * 16 ^ k) = unat v"
proof -
  have step: "n mod 16 ^ Suc k = n mod 16 ^ k + (n div 16 ^ k mod 16) * 16 ^ k" for n k :: nat
    using mod_mult2_eq[of n "16 ^ k" 16] by (simp add: mult.commute)
  have "(\<Sum>j<k. nibble j v * 16 ^ j) = unat v mod 16 ^ k" for k
  proof (induction k)
    case (Suc k)
    then show ?case using step[of "unat v" k] by (simp add: nibble_def)
  qed simp
  from this[of 8] show ?thesis using unsigned_less[of v, where 'a = nat] by simp
qed

text \<open>\<open>uart_puthex\<close> sends \<open>0x\<close> and the eight hexadecimal digits of its argument.\<close>

lemma uart_puthex_sends: "sends u (bytes ''0x'' @ hex8_text v) (uart_puthex busy v u)"
proof -
  have "0 \<notin> set (bytes ''0x'')" by code_simp
  then have "sends u (bytes ''0x'' @ hex8_text v) (Option.bind (bsp_puts busy (bytes ''0x'' @ [0]) u)
     (\<lambda>u. do { (i, u) \<leftarrow> nibble_loop busy v (28, u); Some u }))"
  proof (intro sends_bind bsp_puts_sends)
    fix u'
    show "sends u' (hex8_text v) (do { (i, u) \<leftarrow> nibble_loop busy v (28, u'); Some u })"
      using nibble_loop_sends[of busy v 8 u'] by (auto simp: sends_def hex8_text_def simp del: upt_rec_numeral)
  qed
  then show ?thesis by (simp add: uart_puthex_def)
qed

text \<open>The magnitude that \<open>uart_putdec\<close> prints.\<close>

lemma abs_sint: "int (if sint v < 0 then unat (- v) else unat v) = \<bar>sint (v :: ee_s32)\<bar>"
proof (cases "sint v < 0")
  case True
  have "- v = word_of_int (- sint v)" by simp
  then have eq: "uint (- v) = (- sint v) mod 2 ^ 32"
    by (simp only: uint_word_of_int) simp
  moreover have "- (2 ^ 31) \<le> sint v" using sint_ge[of v] by simp
  ultimately show ?thesis using True by simp
next
  case False
  have "uint v = uint (word_of_int (sint v) :: ee_s32)" by simp
  also have "\<dots> = sint v mod 2 ^ 32" by (simp only: uint_word_of_int) simp
  finally have "uint v = sint v mod 2 ^ 32" .
  moreover have "sint v < 2 ^ 31" using sint_lt[of v] by simp
  ultimately show ?thesis using False by simp
qed

text \<open>C25. The number printers: \<open>uart_putdec\<close> sends an optional minus sign and the decimal digits of the
  magnitude, for the least number too, whose negation overflows; \<open>uart_puthex\<close> sends \<open>0x\<close> and eight
  digits that denote the number.\<close>

theorem number_output_denotes:
  "\<exists>t. sends u ((if sint v < 0 then [45] else []) @ t) (uart_putdec busy v u) \<and> list_all (\<lambda>c. 48 \<le> c \<and> c \<le> 57) t \<and>
     int (foldl (\<lambda>w c. w * 10 + unat (c - 48)) 0 t) = \<bar>sint v\<bar> \<and>
     sends u (bytes ''0x'' @ map (\<lambda>k. hex_digit (nibble k w)) (rev [0..<8])) (uart_puthex busy w u) \<and>
     (\<Sum>k<8. nibble k w * 16 ^ k) = unat w"
proof -
  let ?m = "if sint v < 0 then unat (- v) else unat v"
  have abs: "int ?m = \<bar>sint v\<bar>" by (rule abs_sint)
  have "sends u ((if sint v < 0 then [45] else []) @ dec_text ?m) (uart_putdec busy v u)"
    using uart_putdec_sends[of u v busy] by (simp add: int_text_def split: if_splits)
  moreover have "list_all (\<lambda>c. 48 \<le> c \<and> c \<le> 57) (dec_text ?m)"
    using dec_text_denotes(2)[of _ ?m] by (simp add: list_all_iff)
  moreover have "foldl (\<lambda>w c. w * 10 + unat (c - 48)) 0 (dec_text ?m) = ?m" by (rule dec_text_denotes)
  ultimately show ?thesis
    using abs uart_puthex_sends[of u w busy] hex8_denotes[of w] unfolding hex8_text_def by auto
qed

section \<open>Sequences of output\<close>

text \<open>A run of console calls, as the programs make them between other actions.\<close>

datatype piece = Puts string | Putc ee_u8 | Putdec ee_s32 | Puthex ee_u32 | PutsPtr "ee_u8 list"

fun do_piece :: "(nat \<Rightarrow> nat) \<Rightarrow> piece \<Rightarrow> uart \<Rightarrow> uart option" where
  "do_piece busy (Puts s) u = bsp_puts busy (bytes s @ [0]) u"
| "do_piece busy (Putc c) u = bsp_putc busy c u"
| "do_piece busy (Putdec v) u = uart_putdec busy v u"
| "do_piece busy (Puthex v) u = uart_puthex busy v u"
| "do_piece busy (PutsPtr s) u = bsp_puts busy s u"

fun do_pieces :: "(nat \<Rightarrow> nat) \<Rightarrow> piece list \<Rightarrow> uart \<Rightarrow> uart option" where
  "do_pieces busy [] u = Some u"
| "do_pieces busy (p # ps) u = do { u \<leftarrow> do_piece busy p u; do_pieces busy ps u }"

fun piece_text :: "piece \<Rightarrow> ee_u8 list" where
  "piece_text (Puts s) = bytes s"
| "piece_text (Putc c) = [c]"
| "piece_text (Putdec v) = int_text v"
| "piece_text (Puthex v) = bytes ''0x'' @ hex8_text v"
| "piece_text (PutsPtr s) = takeWhile (\<lambda>c. c \<noteq> 0) s"

abbreviation "pieces_text ps \<equiv> concat (map piece_text ps)"

text \<open>A string literal has no \<open>NUL\<close> in it; a pointer leads to a \<open>NUL\<close>.\<close>

fun piece_ok :: "piece \<Rightarrow> bool" where
  "piece_ok (Puts s) \<longleftrightarrow> 0 \<notin> set (bytes s)"
| "piece_ok (PutsPtr s) \<longleftrightarrow> 0 \<in> set s"
| "piece_ok _ \<longleftrightarrow> True"

lemma do_piece_sends: "piece_ok p \<Longrightarrow> sends u (piece_text p) (do_piece busy p u)"
proof (cases p)
  case (PutsPtr s)
  assume "piece_ok p"
  then have "0 \<in> set s" using PutsPtr by simp
  then have "s = takeWhile (\<lambda>c. c \<noteq> 0) s @ 0 # tl (dropWhile (\<lambda>c. c \<noteq> 0) s)"
    by (induction s) auto
  moreover have "0 \<notin> set (takeWhile (\<lambda>c. c \<noteq> 0) s)" by (auto dest: set_takeWhileD)
  ultimately show ?thesis using bsp_puts_sends[of "takeWhile (\<lambda>c. c \<noteq> 0) s" u busy] PutsPtr by (metis do_piece.simps(5) piece_text.simps(5))
qed (auto simp: bsp_puts_sends bsp_putc_sends uart_putdec_sends uart_puthex_sends)

lemma do_pieces_sends: "list_all piece_ok ps \<Longrightarrow> sends u (pieces_text ps) (do_pieces busy ps u)"
proof (induction ps arbitrary: u)
  case (Cons p ps)
  then show ?case by (auto intro!: sends_bind do_piece_sends)
qed auto

section \<open>The board\<close>

text \<open>The registers and variables that the support package writes: the console, the baud rate divisor, the
  word \<open>tohost\<close> that ends a simulation, the interrupt enable and the count of failed allocations.\<close>

record board =
  console :: uart
  bauddiv :: ee_u8
  tohost :: "ee_u32 option"
  interrupts :: bool
  g_malloc_failed_count :: ee_u32

text \<open>A function returns, or it spins forever.\<close>

datatype fate = Returns board | Spins board

definition say :: "(nat \<Rightarrow> nat) \<Rightarrow> piece list \<Rightarrow> board \<Rightarrow> board option" where
  "say busy ps b = map_option (\<lambda>u. b\<lparr>console := u\<rparr>) (do_pieces busy ps (console b))"

definition uart_init :: "board \<Rightarrow> board" where
  "uart_init b = b\<lparr>bauddiv := 2\<rparr>"

definition sim_pass :: "board \<Rightarrow> fate" where
  "sim_pass b = Spins (b\<lparr>tohost := Some 1\<rparr>)"

definition sim_fail :: "board \<Rightarrow> fate" where
  "sim_fail b = Spins (b\<lparr>tohost := Some 2\<rparr>)"

text \<open>\<open>taskDISABLE_INTERRUPTS()\<close> is a macro of the kernel: it clears the interrupt enable bit.\<close>

definition disable_interrupts :: "board \<Rightarrow> board" where
  "disable_interrupts b = b\<lparr>interrupts := False\<rparr>"

definition vAssertCalled :: "(nat \<Rightarrow> nat) \<Rightarrow> ee_u8 list \<Rightarrow> ee_u32 \<Rightarrow> board \<Rightarrow> fate option" where
  "vAssertCalled busy pcFile ulLine b = do {
     b \<leftarrow> say busy [Puts (nl @ ''[ASSERT] ''), PutsPtr pcFile, Putc 58, Putdec ulLine, Putc 10] (disable_interrupts b);
     Some (sim_fail b) }"

definition application_exception_handler :: "(nat \<Rightarrow> nat) \<Rightarrow> board \<Rightarrow> fate option" where
  "application_exception_handler busy b = do {
     b \<leftarrow> say busy [Puts (nl @ ''[TRAP] unexpected exception'' @ nl)] b;
     Some (sim_fail b) }"

definition application_interrupt_handler :: "(nat \<Rightarrow> nat) \<Rightarrow> board \<Rightarrow> fate option" where
  "application_interrupt_handler busy b = do {
     b \<leftarrow> say busy [Puts (nl @ ''[TRAP] unexpected interrupt'' @ nl)] b;
     Some (sim_fail b) }"

definition vApplicationMallocFailedHook :: "(nat \<Rightarrow> nat) \<Rightarrow> board \<Rightarrow> fate option" where
  "vApplicationMallocFailedHook busy b = do {
     b \<leftarrow> say busy [Puts (''[HOOK] malloc failed'' @ nl)] (b\<lparr>g_malloc_failed_count := g_malloc_failed_count b + 1\<rparr>);
     Some (Returns b) }"

definition vApplicationStackOverflowHook :: "(nat \<Rightarrow> nat) \<Rightarrow> ee_u8 list option \<Rightarrow> board \<Rightarrow> fate option" where
  "vApplicationStackOverflowHook busy pcTaskName b = do {
     b \<leftarrow> say busy [Puts (nl @ ''[STACK OVERFLOW] task: '')] (disable_interrupts b);
     b \<leftarrow> (case pcTaskName of None \<Rightarrow> Some b | Some s \<Rightarrow> say busy [PutsPtr s] b);
     b \<leftarrow> say busy [Putc 10] b;
     Some (sim_fail b) }"

text \<open>What is on the line.\<close>

abbreviation transcript :: "board \<Rightarrow> ee_u8 list" where
  "transcript b \<equiv> sent (console b)"

text \<open>The state after saying something: only the console differs.\<close>

definition said :: "board \<Rightarrow> piece list \<Rightarrow> board \<Rightarrow> bool" where
  "said b ps b' \<longleftrightarrow> (\<exists>u. b' = b\<lparr>console := u\<rparr> \<and> sent u = sent (console b) @ pieces_text ps)"

lemma say_said: "list_all piece_ok ps \<Longrightarrow> \<exists>b'. say busy ps b = Some b' \<and> said b ps b'"
  using do_pieces_sends[of ps "console b" busy] by (auto simp: sends_def say_def said_def)

lemma said_frame [frame_simps]:
  "said b ps b' \<Longrightarrow> transcript b' = transcript b @ pieces_text ps" "said b ps b' \<Longrightarrow> tohost b' = tohost b"
  "said b ps b' \<Longrightarrow> interrupts b' = interrupts b" "said b ps b' \<Longrightarrow> bauddiv b' = bauddiv b"
  "said b ps b' \<Longrightarrow> g_malloc_failed_count b' = g_malloc_failed_count b"
  by (auto simp: said_def)

lemma say_then_fail:
  assumes "list_all piece_ok ps"
  shows "\<exists>b'. Option.bind (say busy ps b) (\<lambda>b. Some (sim_fail b)) = Some (Spins b') \<and> tohost b' = Some 2 \<and>
    transcript b' = transcript b @ pieces_text ps \<and> interrupts b' = interrupts b"
  using say_said[OF assms, of busy b] by (auto simp: sim_fail_def frame_simps)

lemma hook_texts:
  "0 \<notin> set (bytes (nl @ ''[ASSERT] ''))" "0 \<notin> set (bytes (nl @ ''[TRAP] unexpected exception'' @ nl))"
  "0 \<notin> set (bytes (nl @ ''[TRAP] unexpected interrupt'' @ nl))" "0 \<notin> set (bytes (nl @ ''[STACK OVERFLOW] task: ''))"
  by code_simp+

text \<open>The hooks for fatal errors: each prints its message, stores the value of failure and spins; the hooks for a
  failed assertion and an overflowed stack have disabled the interrupts before.\<close>

theorem fatal_hooks_fail:
  assumes "0 \<in> set pcFile" "0 \<in> set name"
  shows "list_all (\<lambda>(r, text, keeps). \<exists>b'. r = Some (Spins b') \<and> tohost b' = Some 2 \<and> transcript b' = transcript b @ text \<and>
      interrupts b' = (keeps \<and> interrupts b))
    [(vAssertCalled busy pcFile ulLine b,
        pieces_text [Puts (nl @ ''[ASSERT] ''), PutsPtr pcFile, Putc 58, Putdec ulLine, Putc 10], False),
     (application_exception_handler busy b, bytes (nl @ ''[TRAP] unexpected exception'' @ nl), True),
     (application_interrupt_handler busy b, bytes (nl @ ''[TRAP] unexpected interrupt'' @ nl), True),
     (vApplicationStackOverflowHook busy (Some name) b,
        pieces_text [Puts (nl @ ''[STACK OVERFLOW] task: ''), PutsPtr name, Putc 10], False),
     (vApplicationStackOverflowHook busy None b, pieces_text [Puts (nl @ ''[STACK OVERFLOW] task: ''), Putc 10], False)]"
proof -
  have ok: "list_all piece_ok [Puts (nl @ ''[ASSERT] ''), PutsPtr pcFile, Putc 58, Putdec ulLine, Putc 10]"
    "list_all piece_ok [Puts (nl @ ''[TRAP] unexpected exception'' @ nl)]" "list_all piece_ok [Puts (nl @ ''[TRAP] unexpected interrupt'' @ nl)]"
    "list_all piece_ok [Puts (nl @ ''[STACK OVERFLOW] task: '')]" "list_all piece_ok [PutsPtr name]" "list_all piece_ok [Putc 10]"
    using assms hook_texts by (simp_all only: list.pred_inject piece_ok.simps simp_thms)
  obtain b1 b2 b3 where s: "say busy [Puts (nl @ ''[STACK OVERFLOW] task: '')] (disable_interrupts b) = Some b1"
      "said (disable_interrupts b) [Puts (nl @ ''[STACK OVERFLOW] task: '')] b1"
      "say busy [PutsPtr name] b1 = Some b2" "said b1 [PutsPtr name] b2" "say busy [Putc 10] b1 = Some b3" "said b1 [Putc 10] b3"
    using say_said[OF ok(4)] say_said[OF ok(5)] say_said[OF ok(6)] by metis
  obtain b4 where s4: "say busy [Putc 10] b2 = Some b4" "said b2 [Putc 10] b4" using say_said[OF ok(6)] by metis
  have off: "interrupts (disable_interrupts b) = False" "transcript (disable_interrupts b) = transcript b" by (simp_all add: disable_interrupts_def)
  have overflow: "\<exists>b'. vApplicationStackOverflowHook busy (Some name) b = Some (Spins b') \<and> tohost b' = Some 2 \<and>
      transcript b' = transcript b @ pieces_text [Puts (nl @ ''[STACK OVERFLOW] task: ''), PutsPtr name, Putc 10] \<and> \<not> interrupts b'"
    "\<exists>b'. vApplicationStackOverflowHook busy None b = Some (Spins b') \<and> tohost b' = Some 2 \<and>
      transcript b' = transcript b @ pieces_text [Puts (nl @ ''[STACK OVERFLOW] task: ''), Putc 10] \<and> \<not> interrupts b'"
    unfolding vApplicationStackOverflowHook_def using s s4 off by (simp_all add: sim_fail_def frame_simps)
  show ?thesis
    unfolding list.pred_inject
    using say_then_fail[OF ok(1), of busy "disable_interrupts b"] say_then_fail[OF ok(2), of busy b]
      say_then_fail[OF ok(3), of busy b] overflow off
    by (simp add: vAssertCalled_def application_exception_handler_def application_interrupt_handler_def)
qed

text \<open>A board after reset, for the examples.\<close>

definition reset_board :: board where
  "reset_board = \<lparr>console = \<lparr>wait = 0, sent = []\<rparr>, bauddiv = 0, tohost = None, interrupts = True, g_malloc_failed_count = 0\<rparr>"

lemma fatal_hooks_fail_witness:
  "\<exists>b'. vAssertCalled (\<lambda>_. 3) [109, 0] 12 reset_board = Some (Spins b') \<and> tohost b' = Some 2 \<and> \<not> interrupts b'"
  using fatal_hooks_fail[of "[109, 0]" "[0]" reset_board "\<lambda>_. 3" 12] by auto

end
