(* ===== verification/Rtos_Kernel.thy ===== *)
theory Rtos_Kernel
  imports Bsp
begin

text \<open>
  What the FreeRTOS programs of \<^verbatim>\<open>rtos/app\<close> use of the kernel.  The kernel is not part of the
  repository: its calls are parameters of the programs, and the predicates here say what the
  kernel's documentation promises of them.
\<close>

section \<open>Queues, semaphores and delays\<close>

type_synonym ticks = ee_u32

text \<open>\<open>None\<close> means that the call blocks (send, receive, take), fails (create) or has no effect (give).
  \<open>delay_ends since d now\<close> says that the tick to \<open>now\<close> ends a delay of \<open>d\<close> ticks called at \<open>since\<close>.\<close>

record ('q, 's) kernel =
  xQueueCreate :: "nat \<Rightarrow> 'q option"
  xQueueSend :: "'q \<Rightarrow> ee_s32 \<Rightarrow> 'q option"
  xQueueReceive :: "'q \<Rightarrow> (ee_s32 \<times> 'q) option"
  xSemaphoreCreateCounting :: "nat \<Rightarrow> nat \<Rightarrow> 's option"
  xSemaphoreCreateBinary :: "'s option"
  xSemaphoreGive :: "'s \<Rightarrow> 's option"
  xSemaphoreTake :: "'s \<Rightarrow> 's option"
  delay_ends :: "ticks \<Rightarrow> ticks \<Rightarrow> ticks \<Rightarrow> bool"

text \<open>The documented behaviour: a queue is first-in first-out and holds as many items as it was created
  with, a counting semaphore counts up to its bound, and a delay ends with the tick at which it is
  due.  \<open>items\<close>, \<open>room\<close>, \<open>tokens\<close> and \<open>most\<close> read the kernel's objects.\<close>

definition queue_ok :: "('q, 's) kernel \<Rightarrow> ('q \<Rightarrow> ee_s32 list) \<Rightarrow> ('q \<Rightarrow> nat) \<Rightarrow> bool" where
  "queue_ok K items room \<longleftrightarrow>
     (\<forall>n q. xQueueCreate K n = Some q \<longrightarrow> items q = [] \<and> room q = n) \<and>
     (\<forall>q x. case xQueueSend K q x of None \<Rightarrow> room q \<le> length (items q)
        | Some q' \<Rightarrow> length (items q) < room q \<and> items q' = items q @ [x] \<and> room q' = room q) \<and>
     (\<forall>q. case xQueueReceive K q of None \<Rightarrow> items q = []
        | Some (x, q') \<Rightarrow> items q = x # items q' \<and> room q' = room q)"

definition sem_ok :: "('q, 's) kernel \<Rightarrow> ('s \<Rightarrow> nat) \<Rightarrow> ('s \<Rightarrow> nat) \<Rightarrow> bool" where
  "sem_ok K tokens most \<longleftrightarrow>
     (\<forall>m n s. xSemaphoreCreateCounting K m n = Some s \<longrightarrow> tokens s = n \<and> most s = m) \<and>
     (\<forall>s. xSemaphoreCreateBinary K = Some s \<longrightarrow> tokens s = 0 \<and> most s = 1) \<and>
     (\<forall>s. case xSemaphoreGive K s of None \<Rightarrow> most s \<le> tokens s
        | Some s' \<Rightarrow> tokens s < most s \<and> tokens s' = tokens s + 1 \<and> most s' = most s) \<and>
     (\<forall>s. case xSemaphoreTake K s of None \<Rightarrow> tokens s = 0
        | Some s' \<Rightarrow> tokens s = tokens s' + 1 \<and> most s' = most s)"

definition kernel_ok where
  "kernel_ok K items room tokens most \<longleftrightarrow> queue_ok K items room \<and> sem_ok K tokens most \<and>
     (\<forall>since d now. delay_ends K since d now = (now = since + d))"

lemma take_cases:
  assumes "sem_ok K tokens most"
  shows "(xSemaphoreTake K x = None) = (tokens x = 0)"
    "xSemaphoreTake K x = Some y \<Longrightarrow> tokens x = Suc (tokens y) \<and> most y = most x"
    "xSemaphoreGive K x = None \<Longrightarrow> most x \<le> tokens x"
    "xSemaphoreGive K x = Some y \<Longrightarrow> tokens y = Suc (tokens x) \<and> most y = most x"
proof -
  have "case xSemaphoreTake K x of None \<Rightarrow> tokens x = 0 | Some y \<Rightarrow> tokens x = tokens y + 1 \<and> most y = most x"
    using assms unfolding sem_ok_def by blast
  then show "(xSemaphoreTake K x = None) = (tokens x = 0)"
    "xSemaphoreTake K x = Some y \<Longrightarrow> tokens x = Suc (tokens y) \<and> most y = most x"
    by (auto split: option.splits)
  have "case xSemaphoreGive K x of None \<Rightarrow> most x \<le> tokens x
      | Some y \<Rightarrow> tokens x < most x \<and> tokens y = tokens x + 1 \<and> most y = most x"
    using assms unfolding sem_ok_def by blast
  then show "xSemaphoreGive K x = None \<Longrightarrow> most x \<le> tokens x"
    "xSemaphoreGive K x = Some y \<Longrightarrow> tokens y = Suc (tokens x) \<and> most y = most x"
    by (auto split: option.splits)
qed

lemma queue_cases:
  assumes "queue_ok K items room"
  shows "(xQueueReceive K q = None) = (items q = [])"
    "xQueueReceive K q = Some (x, r) \<Longrightarrow> items q = x # items r \<and> room r = room q"
    "(xQueueSend K q x = None) = (room q \<le> length (items q))"
    "xQueueSend K q x = Some r \<Longrightarrow> items r = items q @ [x] \<and> room r = room q"
proof -
  have "case xQueueSend K q x of None \<Rightarrow> room q \<le> length (items q)
      | Some q' \<Rightarrow> length (items q) < room q \<and> items q' = items q @ [x] \<and> room q' = room q"
    using assms unfolding queue_ok_def by blast
  then show "(xQueueSend K q x = None) = (room q \<le> length (items q))"
    "xQueueSend K q x = Some r \<Longrightarrow> items r = items q @ [x] \<and> room r = room q"
    by (auto split: option.splits)
  have "case xQueueReceive K q of None \<Rightarrow> items q = [] | Some (x, q') \<Rightarrow> items q = x # items q' \<and> room q' = room q"
    using assms unfolding queue_ok_def by blast
  then show "(xQueueReceive K q = None) = (items q = [])"
    "xQueueReceive K q = Some (x, r) \<Longrightarrow> items q = x # items r \<and> room r = room q"
    by (auto split: option.splits)
qed

section \<open>Ticks\<close>

text \<open>\<open>pdMS_TO_TICKS\<close> at the 1000 ticks per second of the configuration.\<close>

definition pd_ms_to_ticks :: "nat \<Rightarrow> ticks" where
  "pd_ms_to_ticks ms = of_nat (ms * 1000 div 1000)"

lemma pd_ms_to_ticks_eq [code]: "pd_ms_to_ticks ms = of_nat ms"
  by (simp add: pd_ms_to_ticks_def)

text \<open>A delay of \<open>d\<close> ticks from the true tick \<open>j\<close> that ends when the counter shows the sum is over by then, and the
  comparison of the counters shows it, as long as the counter has not wrapped.\<close>

lemma delay_due:
  assumes "of_nat (Suc m) = (of_nat j :: ticks) + of_nat d" "j \<le> m" "Suc m < 2 ^ 32" "d < 2 ^ 32"
  shows "j + d \<le> Suc m"
proof -
  have "Suc m = (j + d) mod 2 ^ 32"
    using arg_cong[OF assms(1), of unat] assms(3) by (simp add: unat_word_ariths unsigned_of_nat take_bit_eq_mod mod_simps)
  moreover have "(j + d) mod 2 ^ 32 = j + d - 2 ^ 32" if "2 ^ 32 \<le> j + d"
  proof -
    have "j + d - 2 ^ 32 < 2 ^ 32" using assms by linarith
    then show ?thesis using le_mod_geq[OF that] by (metis mod_less)
  qed
  ultimately show ?thesis using assms by (cases "2 ^ 32 \<le> j + d") auto
qed

lemma delay_passed:
  assumes "n + d \<le> m" "m < 2 ^ 32"
  shows "(of_nat n :: ticks) + of_nat d \<le> of_nat m"
proof -
  have "(of_nat (n + d) :: ticks) \<le> of_nat m"
    using assms by (simp only: word_le_nat_alt unsigned_of_nat take_bit_eq_mod) simp
  then show ?thesis by simp
qed

section \<open>Task notifications\<close>

text \<open>The notification value of a task: \<open>notify_give\<close> increments it, and \<open>notify_take\<close> (with \<open>pdTRUE\<close>)
  blocks on zero and otherwise returns and clears it.\<close>

record 'n notifier =
  notify_give :: "'n \<Rightarrow> 'n"
  notify_take :: "'n \<Rightarrow> (ee_u32 \<times> 'n) option"

definition notify_ok :: "'n notifier \<Rightarrow> ('n \<Rightarrow> ee_u32) \<Rightarrow> bool" where
  "notify_ok N noted \<longleftrightarrow> (\<forall>x. noted (notify_give N x) = noted x + 1) \<and>
     (\<forall>x. case notify_take N x of None \<Rightarrow> noted x = 0 | Some (v, y) \<Rightarrow> v = noted x \<and> v \<noteq> 0 \<and> noted y = 0)"

lemma notify_cases:
  assumes "notify_ok N noted"
  shows "noted (notify_give N x) = noted x + 1" "(notify_take N x = None) = (noted x = 0)"
    "notify_take N x = Some (v, y) \<Longrightarrow> v = noted x \<and> v \<noteq> 0 \<and> noted y = 0"
proof -
  show "noted (notify_give N x) = noted x + 1" using assms by (simp add: notify_ok_def)
  have "case notify_take N x of None \<Rightarrow> noted x = 0 | Some (v, y) \<Rightarrow> v = noted x \<and> v \<noteq> 0 \<and> noted y = 0"
    using assms unfolding notify_ok_def by blast
  then show "(notify_take N x = None) = (noted x = 0)"
    "notify_take N x = Some (v, y) \<Longrightarrow> v = noted x \<and> v \<noteq> 0 \<and> noted y = 0"
    by (auto split: option.splits)
qed

section \<open>Mutexes and periodic delays\<close>

text \<open>A mutex is taken and given by a task.  \<open>until_blocks last period now\<close> says whether
  \<open>vTaskDelayUntil\<close> blocks: it returns at once if the next time to wake has passed.
  \<open>until_ends since d now\<close> says that the tick to \<open>now\<close> ends a wait of \<open>d\<close> ticks from \<open>since\<close>.\<close>

record ('t, 'm) mutexes =
  xSemaphoreCreateMutex :: "'m option"
  mutex_take :: "'t \<Rightarrow> 'm \<Rightarrow> 'm option"
  mutex_give :: "'t \<Rightarrow> 'm \<Rightarrow> 'm"
  until_blocks :: "ticks \<Rightarrow> ticks \<Rightarrow> ticks \<Rightarrow> bool"
  until_ends :: "ticks \<Rightarrow> ticks \<Rightarrow> ticks \<Rightarrow> bool"

definition mutex_ok :: "('t, 'm) mutexes \<Rightarrow> ('m \<Rightarrow> 't option) \<Rightarrow> bool" where
  "mutex_ok K holder \<longleftrightarrow> (\<forall>m. xSemaphoreCreateMutex K = Some m \<longrightarrow> holder m = None) \<and>
     (\<forall>t m. case mutex_take K t m of None \<Rightarrow> holder m \<noteq> None | Some n \<Rightarrow> holder m = None \<and> holder n = Some t) \<and>
     (\<forall>t m. holder m = Some t \<longrightarrow> holder (mutex_give K t m) = None) \<and>
     (\<forall>last period now. until_blocks K last period now = (now - last < period)) \<and>
     (\<forall>last period now. until_ends K last period now = (now = last + period))"

lemma mutex_cases:
  assumes "mutex_ok K holder"
  shows "(mutex_take K t m = None) = (holder m \<noteq> None)"
    "mutex_take K t m = Some n \<Longrightarrow> holder m = None \<and> holder n = Some t"
    "holder m = Some t \<Longrightarrow> holder (mutex_give K t m) = None"
proof -
  have "case mutex_take K t m of None \<Rightarrow> holder m \<noteq> None | Some n \<Rightarrow> holder m = None \<and> holder n = Some t"
    using assms unfolding mutex_ok_def by blast
  then show "(mutex_take K t m = None) = (holder m \<noteq> None)"
    "mutex_take K t m = Some n \<Longrightarrow> holder m = None \<and> holder n = Some t"
    by (auto split: option.splits)
  show "holder m = Some t \<Longrightarrow> holder (mutex_give K t m) = None" using assms unfolding mutex_ok_def by blast
qed

section \<open>Threads\<close>

text \<open>What a task of the test programs does: it is not created yet, it is at a label, it sleeps since some tick
  for a number of ticks and goes on at a label, or it is deleted.\<close>

datatype 'l thread = Absent | Run 'l | Sleep ticks ticks 'l | Gone

text \<open>The tick to \<open>now\<close> wakes the sleepers whose delay ends with it.\<close>

fun wake :: "(ticks \<Rightarrow> ticks \<Rightarrow> ticks \<Rightarrow> bool) \<Rightarrow> ticks \<Rightarrow> 'l thread \<Rightarrow> 'l thread" where
  "wake ends now (Sleep since d l) = (if ends since d now then Run l else Sleep since d l)"
| "wake ends now t = t"

section \<open>Example kernels\<close>

text \<open>A kernel of lists and numbers that keeps the promises, for the examples.\<close>

definition list_kernel :: "(ee_s32 list \<times> nat, nat \<times> nat) kernel" where
  "list_kernel = \<lparr>xQueueCreate = (\<lambda>n. Some ([], n)),
     xQueueSend = (\<lambda>(q, n) x. if length q < n then Some (q @ [x], n) else None),
     xQueueReceive = (\<lambda>(q, n). case q of [] \<Rightarrow> None | x # q \<Rightarrow> Some (x, (q, n))),
     xSemaphoreCreateCounting = (\<lambda>m n. Some (n, m)), xSemaphoreCreateBinary = Some (0, 1),
     xSemaphoreGive = (\<lambda>(n, m). if n < m then Some (n + 1, m) else None),
     xSemaphoreTake = (\<lambda>(n, m). if n = 0 then None else Some (n - 1, m)),
     delay_ends = (\<lambda>since d now. now = since + d)\<rparr>"

lemma list_kernel_ok: "kernel_ok list_kernel fst snd fst snd"
  by (auto simp: kernel_ok_def queue_ok_def sem_ok_def list_kernel_def split: list.split)

definition counter_notifier :: "ee_u32 notifier" where
  "counter_notifier = \<lparr>notify_give = (\<lambda>n. n + 1), notify_take = (\<lambda>n. if n = 0 then None else Some (n, 0))\<rparr>"

definition holder_mutexes :: "('t, 't option) mutexes" where
  "holder_mutexes = \<lparr>xSemaphoreCreateMutex = Some None, mutex_take = (\<lambda>t m. if m = None then Some (Some t) else None),
     mutex_give = (\<lambda>t m. None), until_blocks = (\<lambda>last period now. now - last < period),
     until_ends = (\<lambda>last period now. now = last + period)\<rparr>"

lemma holder_mutexes_ok: "mutex_ok holder_mutexes id"
  by (simp add: mutex_ok_def holder_mutexes_def)

lemma counter_notifier_ok: "notify_ok counter_notifier id"
  by (simp add: notify_ok_def counter_notifier_def)

end
