(* ===== verification/Rtos_Demo.thy ===== *)
theory Rtos_Demo
  imports Rtos_Kernel "HOL-Library.Sublist"
begin

text \<open>
  The FreeRTOS demonstration \<^verbatim>\<open>rtos/app/main.c\<close>: a producer, a consumer and a worker task over a queue,
  a counting semaphore and the console.

  The program is a step relation: at every moment the ready task with the highest priority takes a step, or the
  transmitter of the UART finishes a byte, or the timer ticks.  A step is one kernel call, one look
  at the UART status, one store to its data register, or a piece of local computation; a task may
  lose the processor between any two of them.
\<close>

section \<open>The program\<close>

datatype task = Consumer | Producer | Worker

text \<open>Where a task is: at a label, about to print the rest of a text, or between the look at the status
  register that found the transmitter free and the store of the byte.\<close>

datatype 'l code = At 'l | Printing "ee_u8 list" 'l | Storing ee_u8 "ee_u8 list" 'l

datatype p_label = P_Loop | P_Send | P_Give | P_Delay | P_Asleep ticks | P_Next | P_Delete | P_Deleted
datatype c_label = C_Take | C_Receive | C_Check | C_Pass | C_Spins
datatype w_label = W_Start | W_Spin | W_Sample | W_Reported | W_Again

text \<open>\<open>stores\<close> are the bytes stored to the data register, with the task and whether the transmitter was
  free to take the byte; one that is busy ignores it.\<close>

record ('q, 's) demo =
  xQueue :: 'q
  xSem :: 's
  g_worker_ticks_seen :: ee_u32
  g_consumed :: ee_s32
  g_sem_taken :: ee_s32
  producer :: "p_label code"
  p_i :: ee_s32
  consumer :: "c_label code"
  worker :: "w_label code"
  w_spin :: ee_u32
  w_last :: ticks
  w_reports :: ee_s32
  tick_count :: ticks
  tick_on :: bool
  tx_busy :: bool
  stores :: "(task \<times> ee_u8 \<times> bool) list"
  tohost_word :: "ee_u32 option"

text \<open>\<open>uart_putc\<close>: while the transmitter is busy the task spins, which is no step.\<close>

fun console_step :: "task \<Rightarrow> 'l code \<Rightarrow> ('q, 's) demo \<Rightarrow> ('l code \<times> ('q, 's) demo) option" where
  "console_step t (At l) s = None"
| "console_step t (Printing [] l) s = Some (At l, s)"
| "console_step t (Printing (c # cs) l) s = (if tx_busy s then None else Some (Storing c cs l, s))"
| "console_step t (Storing c cs l) s =
     Some (Printing cs l, s\<lparr>tx_busy := True, stores := stores s @ [(t, c, \<not> tx_busy s)]\<rparr>)"

definition num_items :: ee_s32 where
  "num_items = 8"

definition queue_len :: nat where
  "queue_len = 4"

text \<open>\<open>vProducer\<close>.\<close>

fun producer_step :: "('q, 's) kernel \<Rightarrow> ('q, 's) demo \<Rightarrow> ('q, 's) demo option" where
  "producer_step K s = (case producer s of
     At P_Loop \<Rightarrow> Some (s\<lparr>producer := At (if sint (p_i s) \<le> sint num_items then P_Send else P_Delete)\<rparr>)
   | At P_Send \<Rightarrow> (case xQueueSend K (xQueue s) (p_i s) of None \<Rightarrow> None
       | Some q \<Rightarrow> Some (s\<lparr>xQueue := q,
           producer := Printing (pieces_text [Puts ''[P]send:'', Putdec (p_i s), Putc 10]) P_Give\<rparr>))
   | At P_Give \<Rightarrow> Some (s\<lparr>xSem := (case xSemaphoreGive K (xSem s) of None \<Rightarrow> xSem s | Some x \<Rightarrow> x),
       producer := At P_Delay\<rparr>)
   | At P_Delay \<Rightarrow> Some (s\<lparr>producer := At (P_Asleep (tick_count s))\<rparr>)
   | At (P_Asleep since) \<Rightarrow> None
   | At P_Next \<Rightarrow> Some (s\<lparr>p_i := p_i s + 1, producer := At P_Loop\<rparr>)
   | At P_Delete \<Rightarrow> Some (s\<lparr>producer := At P_Deleted\<rparr>)
   | At P_Deleted \<Rightarrow> None
   | c \<Rightarrow> map_option (\<lambda>(c, s). s\<lparr>producer := c\<rparr>) (console_step Producer c s))"

text \<open>\<open>vConsumer\<close>.\<close>

fun consumer_step :: "('q, 's) kernel \<Rightarrow> ('q, 's) demo \<Rightarrow> ('q, 's) demo option" where
  "consumer_step K s = (case consumer s of
     At C_Take \<Rightarrow> (case xSemaphoreTake K (xSem s) of None \<Rightarrow> None
       | Some x \<Rightarrow> Some (s\<lparr>xSem := x, g_sem_taken := g_sem_taken s + 1,
           consumer := Printing (pieces_text [Puts (''[C]sem'' @ nl)]) C_Receive\<rparr>))
   | At C_Receive \<Rightarrow> (case xQueueReceive K (xQueue s) of None \<Rightarrow> None
       | Some (rx, q) \<Rightarrow> Some (s\<lparr>xQueue := q, g_consumed := g_consumed s + 1,
           consumer := Printing (pieces_text [Puts ''[C]got:'', Putdec rx, Putc 10]) C_Check\<rparr>))
   | At C_Check \<Rightarrow> Some (s\<lparr>consumer :=
       (if g_consumed s = num_items then Printing (pieces_text [Puts (''[DONE]ok'' @ nl)]) C_Pass else At C_Take)\<rparr>)
   | At C_Pass \<Rightarrow> Some (s\<lparr>tohost_word := Some 1, consumer := At C_Spins\<rparr>)
   | At C_Spins \<Rightarrow> None
   | c \<Rightarrow> map_option (\<lambda>(c, s). s\<lparr>consumer := c\<rparr>) (console_step Consumer c s))"

text \<open>\<open>vWorker\<close>.\<close>

fun worker_step :: "('q, 's) demo \<Rightarrow> ('q, 's) demo option" where
  "worker_step s = (case worker s of
     At W_Start \<Rightarrow> Some (s\<lparr>w_last := tick_count s, w_reports := 0, worker := At W_Again\<rparr>)
   | At W_Again \<Rightarrow> Some (s\<lparr>w_spin := 0, worker := At W_Spin\<rparr>)
   | At W_Spin \<Rightarrow> Some (if w_spin s < 4000 then s\<lparr>w_spin := w_spin s + 1\<rparr> else s\<lparr>worker := At W_Sample\<rparr>)
   | At W_Sample \<Rightarrow> (let now = tick_count s in
       if now \<noteq> w_last s then
         Some (s\<lparr>w_last := now, g_worker_ticks_seen := now,
           worker := (if sint (w_reports s) < 6
             then Printing (pieces_text [Puts ''[W]run@'', Putdec now, Putc 10]) W_Reported else At W_Again)\<rparr>)
       else Some (s\<lparr>worker := At W_Again\<rparr>))
   | At W_Reported \<Rightarrow> Some (s\<lparr>w_reports := w_reports s + 1, worker := At W_Again\<rparr>)
   | c \<Rightarrow> map_option (\<lambda>(c, s). s\<lparr>worker := c\<rparr>) (console_step Worker c s))"

text \<open>A task is ready unless it waits in a kernel call or is deleted.\<close>

fun producer_ready :: "('q, 's) kernel \<Rightarrow> ('q, 's) demo \<Rightarrow> bool" where
  "producer_ready K s = (case producer s of
     At P_Send \<Rightarrow> xQueueSend K (xQueue s) (p_i s) \<noteq> None
   | At (P_Asleep since) \<Rightarrow> False
   | At P_Deleted \<Rightarrow> False
   | _ \<Rightarrow> True)"

fun consumer_ready :: "('q, 's) kernel \<Rightarrow> ('q, 's) demo \<Rightarrow> bool" where
  "consumer_ready K s = (case consumer s of
     At C_Take \<Rightarrow> xSemaphoreTake K (xSem s) \<noteq> None
   | At C_Receive \<Rightarrow> xQueueReceive K (xQueue s) \<noteq> None
   | _ \<Rightarrow> True)"

definition timer_tick :: "('q, 's) kernel \<Rightarrow> ('q, 's) demo \<Rightarrow> ('q, 's) demo" where
  "timer_tick K s = (let now = tick_count s + 1 in s\<lparr>tick_count := now,
     producer := (case producer s of At (P_Asleep since) \<Rightarrow>
         if delay_ends K since (pd_ms_to_ticks 5) now then At P_Next else producer s
       | _ \<Rightarrow> producer s)\<rparr>)"

text \<open>Priorities: consumer 3, producer 2, worker 1.\<close>

inductive demo_step :: "('q, 's) kernel \<Rightarrow> ('q, 's) demo \<Rightarrow> ('q, 's) demo \<Rightarrow> bool" for K where
  consumes: "consumer_step K s = Some s' \<Longrightarrow> demo_step K s s'"
| produces: "\<not> consumer_ready K s \<Longrightarrow> producer_step K s = Some s' \<Longrightarrow> demo_step K s s'"
| works: "\<not> consumer_ready K s \<Longrightarrow> \<not> producer_ready K s \<Longrightarrow> worker_step s = Some s' \<Longrightarrow> demo_step K s s'"
| shifted: "tx_busy s \<Longrightarrow> demo_step K s (s\<lparr>tx_busy := False\<rparr>)"
| ticks: "tick_on s \<Longrightarrow> demo_step K s (timer_tick K s)"

text \<open>\<open>main\<close>: the state at the start of the scheduler, or how the program ended before.  With \<open>neg\<close>
  (\<open>NEG_NO_TICK\<close>) the set-up of the timer is overridden and the timer never ticks.\<close>

definition demo_main :: "(nat \<Rightarrow> nat) \<Rightarrow> ('q, 's) kernel \<Rightarrow> bool \<Rightarrow> ee_u8 list \<Rightarrow> bool \<Rightarrow> board \<Rightarrow> (fate + board \<times> ('q, 's) demo) option" where
  "demo_main busy K starts file neg b = do {
     b \<leftarrow> say busy [Puts (''[BOOT]freertos'' @ nl)] (uart_init b);
     let q = xQueueCreate K queue_len;
     let m = xSemaphoreCreateCounting K (unat num_items) 0;
     case q of None \<Rightarrow> map_option Inl (vAssertCalled busy file 138 b) | Some q \<Rightarrow>
     case m of None \<Rightarrow> map_option Inl (vAssertCalled busy file 139 b) | Some m \<Rightarrow>
     if starts then do {
       b \<leftarrow> (if neg then say busy [Puts (''[NEG]tick-disabled'' @ nl)] b else Some b);
       Some (Inr (b, \<lparr>xQueue = q, xSem = m, g_worker_ticks_seen = 0, g_consumed = 0, g_sem_taken = 0,
         producer = At P_Loop, p_i = 1, consumer = At C_Take, worker = At W_Start, w_spin = 0, w_last = 0, w_reports = 0,
         tick_count = 0, tick_on = (\<not> neg), tx_busy = (wait (console b) \<noteq> 0), stores = [], tohost_word = None\<rparr>)) }
     else do {
       b \<leftarrow> say busy [Puts (''[FATAL]scheduler returned'' @ nl)] b;
       Some (Inl (sim_fail b)) } }"

end
