(* ===== verification/Demo_Run.thy ===== *)
theory Demo_Run
  imports Rtos_Demo
begin

text \<open>
  What the FreeRTOS demonstration does, for every kernel that keeps its promises, every
  interleaving its priorities allow and every speed of the timer and the UART: an
  invariant of the two communicating tasks, the transcript, the need for the timer, and progress.
\<close>

section \<open>The transcript\<close>

text \<open>What the producer and the consumer print in a round, and the transcript of \<open>n\<close> rounds.\<close>

definition send_text :: "nat \<Rightarrow> ee_u8 list" where
  "send_text n = bytes ''[P]send:'' @ int_text (of_nat n) @ [10]"

definition sem_text :: "ee_u8 list" where
  "sem_text = bytes (''[C]sem'' @ nl)"

definition got_text :: "nat \<Rightarrow> ee_u8 list" where
  "got_text n = bytes ''[C]got:'' @ int_text (of_nat n) @ [10]"

definition done_text :: "ee_u8 list" where
  "done_text = bytes (''[DONE]ok'' @ nl)"

fun script :: "nat \<Rightarrow> ee_u8 list" where
  "script 0 = []"
| "script (Suc n) = script n @ send_text (Suc n) @ sem_text @ got_text (Suc n)"

text \<open>The bytes of the two tasks, and the part of the current text that is still to be stored.\<close>

definition shown :: "('q, 's) demo \<Rightarrow> ee_u8 list" where
  "shown s = map (\<lambda>(t, c, a). c) (filter (\<lambda>(t, c, a). t \<noteq> Worker) (stores s))"

fun rest :: "'l code \<Rightarrow> ee_u8 list" where
  "rest (At l) = []"
| "rest (Printing cs l) = cs"
| "rest (Storing c cs l) = c # cs"

fun label :: "'l code \<Rightarrow> 'l" where
  "label (At l) = l"
| "label (Printing cs l) = l"
| "label (Storing c cs l) = l"

fun storing :: "'l code \<Rightarrow> bool" where
  "storing (Storing c cs l) = True"
| "storing _ = False"

text \<open>The producer prints only before it gives the semaphore; it sleeps for less than five ticks.\<close>

fun only_send :: "p_label code \<Rightarrow> bool" where
  "only_send (At l) = True"
| "only_send (Printing cs l) \<longleftrightarrow> l = P_Give"
| "only_send (Storing c cs l) \<longleftrightarrow> l = P_Give"

fun early :: "ticks \<Rightarrow> p_label code \<Rightarrow> bool" where
  "early now (At (P_Asleep t)) \<longleftrightarrow> now - t < 5"
| "early now _ \<longleftrightarrow> True"

text \<open>Where the two tasks can be in round \<open>m\<close>, with the transcript including the text begun, the items in
  the queue, the tokens, and how many tokens and items were taken.\<close>

inductive stage :: "nat \<Rightarrow> p_label \<Rightarrow> c_label \<Rightarrow> ee_u8 list \<Rightarrow> ee_s32 list \<Rightarrow> nat \<Rightarrow> nat \<Rightarrow> nat \<Rightarrow> bool" for m where
  at_loop: "stage m P_Loop C_Take (script m) [] 0 m m"
| at_send: "stage m P_Send C_Take (script m) [] 0 m m"
| at_give: "stage m P_Give C_Take (script m @ send_text (Suc m)) [of_nat (Suc m)] 0 m m"
| given: "stage m P_Delay C_Take (script m @ send_text (Suc m)) [of_nat (Suc m)] 1 m m"
| taken: "stage m P_Delay C_Receive (script m @ send_text (Suc m) @ sem_text) [of_nat (Suc m)] 0 (Suc m) m"
| received: "stage m P_Delay C_Check (script (Suc m)) [] 0 (Suc m) (Suc m)"
| checked: "m < 7 \<Longrightarrow> stage m P_Delay C_Take (script (Suc m)) [] 0 (Suc m) (Suc m)"
| all_done: "m = 7 \<Longrightarrow> stage m P_Delay C_Pass (script 8 @ done_text) [] 0 8 8"
| spins: "m = 7 \<Longrightarrow> stage m P_Delay C_Spins (script 8 @ done_text) [] 0 8 8"
| asleep: "m < 7 \<Longrightarrow> stage m (P_Asleep t) C_Take (script (Suc m)) [] 0 (Suc m) (Suc m)"
| awake: "m < 7 \<Longrightarrow> stage m P_Next C_Take (script (Suc m)) [] 0 (Suc m) (Suc m)"

inductive_simps stage_token: "stage m lp C_Take x q (Suc k) a c"
inductive_simps stage_receive: "stage m lp C_Receive x q k a c"
inductive_simps stage_check: "stage m lp C_Check x q k a c"
inductive_simps stage_pass: "stage m lp C_Pass x q k a c"
inductive_simps stage_spins: "stage m lp C_Spins x q k a c"
inductive_simps stage_delay: "stage m P_Delay C_Take x q k a c"

inductive_simps stage_loop: "stage m P_Loop lc x q k a c"
inductive_simps stage_send: "stage m P_Send lc x q k a c"
inductive_simps stage_give: "stage m P_Give lc x q k a c"
inductive_simps stage_asleep: "stage m (P_Asleep t) lc x q k a c"
inductive_simps stage_next: "stage m P_Next lc x q k a c"
inductive_simps stage_deleted: "stage m P_Delete lc x q k a c" "stage m P_Deleted lc x q k a c"

lemmas producer_stages = stage_loop stage_send stage_give stage_asleep stage_next stage_deleted stage_delay stage_token
lemmas consumer_stages = stage_token stage_receive stage_check stage_pass stage_spins stage_delay

definition demo_inv :: "('q \<Rightarrow> ee_s32 list) \<Rightarrow> ('q \<Rightarrow> nat) \<Rightarrow> ('s \<Rightarrow> nat) \<Rightarrow> ('s \<Rightarrow> nat) \<Rightarrow> nat \<Rightarrow> ('q, 's) demo \<Rightarrow> bool" where
  "demo_inv items room tokens most m s \<longleftrightarrow> m < 8 \<and> p_i s = of_nat (Suc m) \<and>
     room (xQueue s) = 4 \<and> most (xSem s) = 8 \<and>
     (\<exists>a c. g_sem_taken s = of_nat a \<and> g_consumed s = of_nat c \<and>
        stage m (label (producer s)) (label (consumer s)) (shown s @ rest (producer s) @ rest (consumer s))
          (items (xQueue s)) (tokens (xSem s)) a c) \<and>
     only_send (producer s) \<and>
     (label (consumer s) \<in> {C_Take, C_Spins} \<longrightarrow> consumer s = At (label (consumer s))) \<and>
     (storing (producer s) \<or> storing (consumer s) \<longrightarrow> \<not> tx_busy s) \<and>
     (\<forall>(t, c, a) \<in> set (stores s). t \<noteq> Worker \<longrightarrow> a) \<and>
     early (tick_count s) (producer s) \<and>
     (\<not> tick_on s \<longrightarrow> m = 0 \<and> producer s \<noteq> At P_Next) \<and>
     tohost_word s = (if label (consumer s) = C_Spins then Some 1 else None)"

lemma script_8: "script 8 = script 7 @ send_text 8 @ sem_text @ got_text 8"
  using script.simps(2)[of 7] by simp

lemma bytes_append: "bytes (s @ t) = bytes s @ bytes t"
  by (simp add: bytes_def)

lemma consumer_inv:
  assumes ok: "queue_ok K items room" "sem_ok K tokens most" and inv: "demo_inv items room tokens most m s"
    and step: "consumer_step K s = Some s'"
  shows "demo_inv items room tokens most m s'"
proof (cases "consumer s")
  case (At l)
  show ?thesis
  proof (cases l)
    case C_Take
    then obtain x where x: "xSemaphoreTake K (xSem s) = Some x"
      "s' = s\<lparr>xSem := x, g_sem_taken := g_sem_taken s + 1, consumer := Printing sem_text C_Receive\<rparr>"
      using step At by (auto simp: sem_text_def split: option.splits)
    note take_cases(2)[OF ok(2) x(1)]
    then show ?thesis using inv At C_Take unfolding demo_inv_def x(2) shown_def
      by (cases "producer s") (auto simp: consumer_stages)
  next
    case C_Receive
    then obtain x q where x: "xQueueReceive K (xQueue s) = Some (x, q)"
      "s' = s\<lparr>xQueue := q, g_consumed := g_consumed s + 1,
           consumer := Printing (bytes ''[C]got:'' @ int_text x @ [10]) C_Check\<rparr>"
      using step At by (auto split: option.splits)
    note queue_cases(2)[OF ok(1) x(1)]
    then show ?thesis using inv At C_Receive unfolding demo_inv_def x(2) shown_def
      by (cases "producer s") (auto simp: consumer_stages got_text_def)
  next
    case C_Check
    then have x: "s' = s\<lparr>consumer := (if g_consumed s = num_items then Printing done_text C_Pass else At C_Take)\<rparr>"
      using step At by (auto simp: done_text_def)
    have small: "of_nat (Suc m) = (8 :: ee_s32) \<longleftrightarrow> m = 7"
    proof -
      have "m < 8" using inv by (simp add: demo_inv_def)
      then have "m \<in> {0, 1, 2, 3, 4, 5, 6, 7}" by auto
      then show ?thesis by auto
    qed
    have c: "g_consumed s = of_nat (Suc m)" using inv At C_Check by (auto simp: demo_inv_def stage_check)
    show ?thesis
    proof (cases "m = 7")
      case True
      then have "s' = s\<lparr>consumer := Printing done_text C_Pass\<rparr>" using x c by (simp add: num_items_def)
      then show ?thesis using inv At C_Check True unfolding demo_inv_def shown_def
        by (cases "producer s") (auto simp: consumer_stages script_8)
    next
      case False
      then have "s' = s\<lparr>consumer := At C_Take\<rparr>" using x c small by (simp add: num_items_def del: of_nat_Suc)
      then show ?thesis using inv At C_Check False unfolding demo_inv_def shown_def
        by (cases "producer s") (auto simp: consumer_stages)
    qed
  next
    case C_Pass
    then have x: "s' = s\<lparr>tohost_word := Some 1, consumer := At C_Spins\<rparr>" using step At by simp
    then show ?thesis using inv At C_Pass unfolding demo_inv_def x shown_def
      by (cases "producer s") (auto simp: consumer_stages)
  next
    case C_Spins
    then show ?thesis using step At by simp
  qed
next
  case (Printing cs l)
  show ?thesis
  proof (cases cs)
    case Nil
    then have x: "s' = s\<lparr>consumer := At l\<rparr>" using step Printing by simp
    then show ?thesis using inv Printing Nil unfolding demo_inv_def x shown_def
      by (cases "producer s"; cases l) (auto simp: consumer_stages)
  next
    case (Cons c cs')
    then have x: "\<not> tx_busy s" "s' = s\<lparr>consumer := Storing c cs' l\<rparr>" using step Printing by (auto split: if_splits)
    then show ?thesis using inv Printing Cons unfolding demo_inv_def x shown_def
      by (cases "producer s"; cases l) (auto simp: consumer_stages)
  qed
next
  case (Storing c cs l)
  then have x: "s' = s\<lparr>tx_busy := True, stores := stores s @ [(Consumer, c, \<not> tx_busy s)], consumer := Printing cs l\<rparr>"
    using step by simp
  then show ?thesis using inv Storing unfolding demo_inv_def x shown_def
    by (cases "producer s"; cases l) (auto simp: consumer_stages)
qed

lemma consumer_waits:
  assumes ok: "queue_ok K items room" "sem_ok K tokens most" and inv: "demo_inv items room tokens most m s"
    and waits: "\<not> consumer_ready K s"
  shows "consumer s = At C_Take" "tokens (xSem s) = 0"
proof -
  have "consumer s = At C_Take \<or> consumer s = At C_Receive \<and> items (xQueue s) = []"
    using waits queue_cases(1)[OF ok(1), of "xQueue s"] by (auto split: code.splits c_label.splits)
  then show c: "consumer s = At C_Take"
    using inv unfolding demo_inv_def by (auto simp: stage_receive)
  show "tokens (xSem s) = 0" using waits c take_cases(1)[OF ok(2)] by simp
qed

lemma producer_inv:
  assumes ok: "queue_ok K items room" "sem_ok K tokens most" and inv: "demo_inv items room tokens most m s"
    and waits: "\<not> consumer_ready K s" and step: "producer_step K s = Some s'"
  shows "\<exists>m'. demo_inv items room tokens most m' s'"
proof -
  note c = consumer_waits[OF ok inv waits]
  show ?thesis
  proof (cases "producer s")
    case (At l)
    show ?thesis
    proof (cases l)
      case P_Loop
      have "m < 8" using inv by (simp add: demo_inv_def)
      then have "m \<in> {0, 1, 2, 3, 4, 5, 6, 7}" by auto
      then have "sint (of_nat (Suc m) :: ee_s32) \<le> 8" by auto
      then have "s' = s\<lparr>producer := At P_Send\<rparr>"
        using step At P_Loop inv by (simp add: num_items_def demo_inv_def del: of_nat_Suc)
      then have "demo_inv items room tokens most m s'" using inv At P_Loop c unfolding demo_inv_def shown_def
        by (auto simp: producer_stages)
      then show ?thesis ..
    next
      case P_Send
      then obtain q where x: "xQueueSend K (xQueue s) (p_i s) = Some q"
        "s' = s\<lparr>xQueue := q, producer := Printing (bytes ''[P]send:'' @ int_text (p_i s) @ [10]) P_Give\<rparr>"
        using step At by (auto split: option.splits)
      note queue_cases(4)[OF ok(1) x(1)]
      then have "demo_inv items room tokens most m s'" using inv At P_Send c unfolding demo_inv_def x(2) shown_def
        by (auto simp: producer_stages send_text_def)
      then show ?thesis ..
    next
      case P_Give
      have "most (xSem s) = 8" using inv by (simp add: demo_inv_def)
      then have "xSemaphoreGive K (xSem s) \<noteq> None" using take_cases(3)[OF ok(2), of "xSem s"] c(2) by auto
      then obtain x where x: "xSemaphoreGive K (xSem s) = Some x" by blast
      then have s': "s' = s\<lparr>xSem := x, producer := At P_Delay\<rparr>" using step At P_Give by simp
      note take_cases(4)[OF ok(2) x]
      then have "demo_inv items room tokens most m s'" using inv At P_Give c unfolding demo_inv_def s' shown_def
        by (auto simp: producer_stages)
      then show ?thesis ..
    next
      case P_Delay
      then have s': "s' = s\<lparr>producer := At (P_Asleep (tick_count s))\<rparr>" using step At by simp
      then have "demo_inv items room tokens most m s'" using inv At P_Delay c unfolding demo_inv_def s' shown_def
        by (auto simp: producer_stages)
      then show ?thesis ..
    next
      case P_Next
      then have s': "s' = s\<lparr>p_i := p_i s + 1, producer := At P_Loop\<rparr>" using step At by simp
      then have "demo_inv items room tokens most (Suc m) s'" using inv At P_Next c unfolding demo_inv_def s' shown_def
        by (auto simp: producer_stages)
      then show ?thesis ..
    qed (use step At inv in \<open>auto simp: demo_inv_def producer_stages\<close>)
  next
    case (Printing cs l)
    show ?thesis
    proof (cases cs)
      case Nil
      then have s': "s' = s\<lparr>producer := At l\<rparr>" using step Printing by simp
      then have "demo_inv items room tokens most m s'" using inv Printing Nil c unfolding demo_inv_def s' shown_def
        by (auto simp: producer_stages)
      then show ?thesis ..
    next
      case (Cons x cs')
      then have s': "\<not> tx_busy s" "s' = s\<lparr>producer := Storing x cs' l\<rparr>" using step Printing by (auto split: if_splits)
      then have "demo_inv items room tokens most m s'" using inv Printing Cons c unfolding demo_inv_def s'(2) shown_def
        by (auto simp: producer_stages)
      then show ?thesis ..
    qed
  next
    case (Storing x cs l)
    then have s': "s' = s\<lparr>tx_busy := True, stores := stores s @ [(Producer, x, \<not> tx_busy s)], producer := Printing cs l\<rparr>"
      using step by simp
    then have "demo_inv items room tokens most m s'" using inv Storing c unfolding demo_inv_def s' shown_def
      by (auto simp: producer_stages)
    then show ?thesis ..
  qed
qed

lemma producer_waits:
  assumes ok: "queue_ok K items room" "sem_ok K tokens most" and inv: "demo_inv items room tokens most m s"
    and waits: "\<not> consumer_ready K s" "\<not> producer_ready K s"
  shows "\<exists>t. producer s = At (P_Asleep t)"
proof -
  note c = consumer_waits[OF ok inv waits(1)]
  have "\<not> 4 \<le> length (items (xQueue s))" if "producer s = At P_Send"
    using that inv c(1) by (auto simp: demo_inv_def producer_stages)
  then show ?thesis
    using waits(2) inv c queue_cases(3)[OF ok(1), of "xQueue s" "p_i s"]
    by (auto simp: demo_inv_def producer_stages split: code.splits p_label.splits)
qed

lemma worker_inv:
  assumes ok: "queue_ok K items room" "sem_ok K tokens most" and inv: "demo_inv items room tokens most m s"
    and waits: "\<not> consumer_ready K s" "\<not> producer_ready K s" and step: "worker_step s = Some s'"
  shows "demo_inv items room tokens most m s'"
proof -
  obtain t where t: "producer s = At (P_Asleep t)" using producer_waits[OF ok inv waits] by blast
  note c = consumer_waits[OF ok inv waits(1)]
  show ?thesis
  proof (cases "worker s")
    case (At l)
    have same: "xQueue s' = xQueue s" "xSem s' = xSem s" "producer s' = producer s" "consumer s' = consumer s"
      "p_i s' = p_i s" "g_sem_taken s' = g_sem_taken s" "g_consumed s' = g_consumed s" "tick_count s' = tick_count s"
      "tick_on s' = tick_on s" "tohost_word s' = tohost_word s" "stores s' = stores s" "tx_busy s' = tx_busy s"
      using step At by (cases l; auto simp: Let_def split: if_splits)+
    show ?thesis using inv unfolding demo_inv_def shown_def same .
  next
    case (Printing cs l)
    then obtain w where s': "s' = s\<lparr>worker := w\<rparr>" using step by (cases cs) (auto split: if_splits)
    show ?thesis using inv unfolding demo_inv_def shown_def s' by simp
  next
    case (Storing x cs l)
    then have s': "s' = s\<lparr>tx_busy := True, stores := stores s @ [(Worker, x, \<not> tx_busy s)], worker := Printing cs l\<rparr>"
      using step by simp
    show ?thesis using inv t c unfolding demo_inv_def shown_def s' by simp
  qed
qed

lemma shifted_inv: "demo_inv items room tokens most m s \<Longrightarrow> demo_inv items room tokens most m (s\<lparr>tx_busy := False\<rparr>)"
  unfolding demo_inv_def shown_def by simp

lemma due_or_early: "d < 5 \<Longrightarrow> d + 1 = 5 \<or> d + 1 < (5 :: ee_u32)"
  by unat_arith

lemma tick_inv:
  assumes ends: "\<And>since d now. delay_ends K since d now = (now = since + d)"
    and inv: "demo_inv items room tokens most m s" and on: "tick_on s"
  shows "demo_inv items room tokens most m (timer_tick K s)"
proof (cases "\<exists>t. producer s = At (P_Asleep t)")
  case True
  then obtain t where t: "producer s = At (P_Asleep t)" by blast
  have five: "pd_ms_to_ticks 5 = 5" by (simp add: pd_ms_to_ticks_def)
  have "tick_count s - t < 5" using inv t by (simp add: demo_inv_def)
  then have "tick_count s + 1 = t + 5 \<or> tick_count s + 1 - t < 5"
  proof -
    let ?d = "tick_count s - t"
    have "?d + 1 = 5 \<or> ?d + 1 < 5" using \<open>?d < 5\<close> by (rule due_or_early)
    then show ?thesis by (auto simp: algebra_simps)
  qed
  then show ?thesis using inv t on unfolding demo_inv_def timer_tick_def shown_def Let_def
    by (auto simp: ends five stage_asleep stage_next)
next
  case False
  then have "timer_tick K s = s\<lparr>tick_count := tick_count s + 1, producer := producer s\<rparr>"
    by (auto simp: timer_tick_def Let_def split: code.splits p_label.splits)
  then show ?thesis using inv False unfolding demo_inv_def shown_def
    by (cases "producer s"; cases "label (producer s)") auto
qed

section \<open>Reachable states\<close>

lemma demo_step_inv:
  assumes ok: "kernel_ok K items room tokens most" and step: "demo_step K s s'"
    and inv: "\<exists>m. demo_inv items room tokens most m s"
  shows "\<exists>m. demo_inv items room tokens most m s'"
proof -
  have ok': "queue_ok K items room" "sem_ok K tokens most" "\<And>since d now. delay_ends K since d now = (now = since + d)"
    using ok by (auto simp: kernel_ok_def)
  obtain m where m: "demo_inv items room tokens most m s" using inv ..
  from step show ?thesis
  proof cases
    case consumes
    then show ?thesis using consumer_inv[OF ok'(1,2) m] by blast
  next
    case produces
    then show ?thesis using producer_inv[OF ok'(1,2) m] by blast
  next
    case works
    then show ?thesis using worker_inv[OF ok'(1,2) m] by blast
  next
    case shifted
    then show ?thesis using shifted_inv[OF m] by blast
  next
    case ticks
    then show ?thesis using tick_inv[OF ok'(3) m] by blast
  qed
qed

lemma tick_on_step: "demo_step K s s' \<Longrightarrow> tick_on s' = tick_on s"
proof (induction rule: demo_step.induct)
  case (consumes s s')
  then show ?case
    by (cases "consumer s"; cases "rest (consumer s)"; cases "label (consumer s)")
      (auto split: option.splits if_splits)
next
  case (produces s s')
  then show ?case
    by (cases "producer s"; cases "rest (producer s)"; cases "label (producer s)")
      (auto split: option.splits if_splits)
next
  case (works s s')
  then show ?case
    by (cases "worker s"; cases "rest (worker s)"; cases "label (worker s)")
      (auto simp: Let_def split: option.splits if_splits)
qed (simp_all add: timer_tick_def Let_def)

lemma demo_start_inv:
  assumes ok: "kernel_ok K items room tokens most" and start: "demo_main busy K starts file neg b = Some (Inr (b0, s0))"
  shows "demo_inv items room tokens most 0 s0" "tick_on s0 = (\<not> neg)" "tohost_word s0 = None" "stores s0 = []"
proof -
  obtain q x where q: "xQueueCreate K 4 = Some q" "xSemaphoreCreateCounting K 8 0 = Some x"
    "s0 = \<lparr>xQueue = q, xSem = x, g_worker_ticks_seen = 0, g_consumed = 0, g_sem_taken = 0,
         producer = At P_Loop, p_i = 1, consumer = At C_Take, worker = At W_Start, w_spin = 0, w_last = 0, w_reports = 0,
         tick_count = 0, tick_on = (\<not> neg), tx_busy = tx_busy s0, stores = [], tohost_word = None\<rparr>"
    using start by (auto simp: demo_main_def queue_len_def num_items_def Let_def split: bind_splits option.splits if_splits)
  have "items q = [] \<and> room q = 4" "tokens x = 0 \<and> most x = 8"
    using ok q(1,2) by (auto simp: kernel_ok_def queue_ok_def sem_ok_def)
  then have "demo_inv items room tokens most 0 \<lparr>xQueue = q, xSem = x, g_worker_ticks_seen = 0, g_consumed = 0, g_sem_taken = 0,
         producer = At P_Loop, p_i = 1, consumer = At C_Take, worker = At W_Start, w_spin = 0, w_last = 0, w_reports = 0,
         tick_count = 0, tick_on = (\<not> neg), tx_busy = tx_busy s0, stores = [], tohost_word = None\<rparr>"
    by (auto simp: demo_inv_def shown_def stage_loop)
  with q(3) show "demo_inv items room tokens most 0 s0" by simp
  show "tick_on s0 = (\<not> neg)" "tohost_word s0 = None" "stores s0 = []"
    by (subst q(3), simp)+
qed

lemma reachable_inv:
  assumes ok: "kernel_ok K items room tokens most" and start: "demo_main busy K starts file neg b = Some (Inr (b0, s0))"
    and steps: "(demo_step K)\<^sup>*\<^sup>* s0 s"
  shows "(\<exists>m. demo_inv items room tokens most m s) \<and> tick_on s = (\<not> neg)"
  using steps
proof (induction rule: rtranclp_induct)
  case base
  then show ?case using demo_start_inv[OF ok start] by blast
next
  case (step s s')
  then show ?case using demo_step_inv[OF ok] tick_on_step by blast
qed

lemma script_prefix: "m \<le> n \<Longrightarrow> prefix (script m) (script n)"
proof (induction n)
  case (Suc n)
  then show ?case by (cases "m = Suc n") (auto intro: prefix_order.trans)
qed simp

lemma stage_prefix:
  assumes "stage m lp lc x q k a c" "m < 8"
  shows "lc \<notin> {C_Pass, C_Spins} \<Longrightarrow> prefix x (script (Suc m))" "lc \<in> {C_Pass, C_Spins} \<Longrightarrow> x = script 8 @ done_text"
    "length q \<le> 1" "c \<le> Suc m" "c \<le> a"
  using assms by (auto elim!: stage.cases)

text \<open>C24. At every moment, whatever the timer and the scheduler do, the bytes of the producer and the consumer on
  the console are a prefix of the same transcript: for each item in turn the line of its sending, of the
  semaphore and of its receipt, and the final line.  None of these bytes is lost, the
  queue never holds more than one item, and \<open>tohost\<close> is written only after the last line.\<close>

theorem demo_transcript:
  assumes "kernel_ok K items room tokens most" "demo_main busy K starts file neg b = Some (Inr (b0, s0))"
    and "(demo_step K)\<^sup>*\<^sup>* s0 s"
  shows "prefix (shown s) (script 8 @ done_text) \<and> length (items (xQueue s)) \<le> 1 \<and>
    (\<forall>(t, c, accepted) \<in> set (stores s). t = Worker \<or> accepted) \<and>
    (case tohost_word s of None \<Rightarrow> True | Some w \<Rightarrow> w = 1 \<and> shown s = script 8 @ done_text)"
proof -
  obtain m where inv: "demo_inv items room tokens most m s" using reachable_inv[OF assms] by blast
  let ?x = "shown s @ rest (producer s) @ rest (consumer s)"
  obtain a c where st: "m < 8" "stage m (label (producer s)) (label (consumer s)) ?x (items (xQueue s)) (tokens (xSem s)) a c"
    using inv unfolding demo_inv_def by blast
  have "prefix (script (Suc m)) (script 8)" using st(1) by (intro script_prefix) simp
  then have "prefix ?x (script 8 @ done_text)"
    using stage_prefix(1,2)[OF st(2,1)] by (cases "label (consumer s) \<in> {C_Pass, C_Spins}") (auto intro: prefix_order.trans)
  then have "prefix (shown s) (script 8 @ done_text)" by (auto intro: append_prefixD)
  moreover have "length (items (xQueue s)) \<le> 1" by (rule stage_prefix(3)[OF st(2,1)])
  moreover have "\<forall>(t, c, accepted) \<in> set (stores s). t = Worker \<or> accepted" using inv by (auto simp: demo_inv_def)
  moreover have "tohost_word s = Some 1 \<and> shown s = script 8 @ done_text" if "tohost_word s \<noteq> None"
  proof -
    have c: "consumer s = At C_Spins" using inv that by (auto simp: demo_inv_def split: if_splits)
    with st(2) have "label (producer s) = P_Delay" by (simp add: stage_spins)
    then have "rest (producer s) = []" using inv by (cases "producer s") (auto simp: demo_inv_def)
    with st(2) c inv show ?thesis by (simp add: stage_spins demo_inv_def)
  qed
  ultimately show ?thesis by (auto split: option.split)
qed

text \<open>Without the timer tick the demonstration never gets past its first item.\<close>

theorem demo_needs_tick:
  assumes "kernel_ok K items room tokens most" "demo_main busy K starts file True b = Some (Inr (b0, s0))"
    and "(demo_step K)\<^sup>*\<^sup>* s0 s"
  shows "tohost_word s = None \<and> prefix (shown s) (script 1) \<and> g_consumed s \<in> {0, 1} \<and> p_i s = 1"
proof -
  obtain m where inv: "demo_inv items room tokens most m s" "\<not> tick_on s" using reachable_inv[OF assms] by blast
  then have m: "m = 0" by (simp add: demo_inv_def)
  let ?x = "shown s @ rest (producer s) @ rest (consumer s)"
  obtain a c where st: "g_consumed s = of_nat c" "stage 0 (label (producer s)) (label (consumer s)) ?x (items (xQueue s)) (tokens (xSem s)) a c"
    using inv(1) unfolding m demo_inv_def by blast
  have lc: "label (consumer s) \<notin> {C_Pass, C_Spins}" using st(2) by (auto simp: stage_pass stage_spins)
  have "prefix ?x (script 1)" using stage_prefix(1)[OF st(2) _ lc] by simp
  then have "prefix (shown s) (script 1)" by (auto intro: append_prefixD)
  moreover have "c \<le> 1" using stage_prefix(4)[OF st(2)] by simp
  then have "g_consumed s \<in> {0, 1}" unfolding st(1) by (cases c) auto
  ultimately show ?thesis using inv(1) lc m by (auto simp: demo_inv_def)
qed

section \<open>Progress\<close>

text \<open>A measure of the work that is left: rounds, places within the round, bytes, ticks to sleep.\<close>

fun p_rank :: "p_label \<Rightarrow> nat" where
  "p_rank P_Loop = 12"
| "p_rank P_Send = 11"
| "p_rank P_Give = 10"
| "p_rank P_Delay = 4"
| "p_rank (P_Asleep t) = 2"
| "p_rank P_Next = 1"
| "p_rank _ = 0"

fun c_rank :: "c_label \<Rightarrow> nat" where
  "c_rank C_Receive = 3"
| "c_rank C_Check = 2"
| "c_rank C_Pass = 1"
| "c_rank _ = 0"

fun text_work :: "'l code \<Rightarrow> nat" where
  "text_work (At l) = 0"
| "text_work (Printing cs l) = 3 * length cs + 1"
| "text_work (Storing c cs l) = 3 * length cs + 3"

fun sleep_work :: "ticks \<Rightarrow> p_label code \<Rightarrow> nat" where
  "sleep_work now (At (P_Asleep t)) = 5 - unat (now - t)"
| "sleep_work now _ = 0"

definition work :: "('s \<Rightarrow> nat) \<Rightarrow> ('q, 's) demo \<Rightarrow> nat" where
  "work tokens s = (9 - unat (p_i s)) * 2000 +
     (p_rank (label (producer s)) + c_rank (label (consumer s)) + 5 * tokens (xSem s)) * 100 +
     text_work (producer s) + text_work (consumer s) + sleep_work (tick_count s) (producer s) +
     (if tx_busy s then 1 else 0)"

lemma text_lengths:
  "length (int_text (of_nat (Suc m))) = 1" if "m < 8"
proof -
  have "list_all (\<lambda>m. length (int_text (of_nat (Suc m))) = 1) [0..<8]" by code_simp
  then show ?thesis using that by (simp add: list_all_iff del: of_nat_Suc)
qed

lemma next_tick: "d < 5 \<Longrightarrow> unat (d + 1) = Suc (unat d) \<and> unat d < 5" for d :: ee_u32
proof -
  assume "d < 5"
  then have "unat d < 5" by (simp add: word_less_nat_alt)
  moreover from this have "unat (d + 1) = Suc (unat d)" unfolding unat_word_ariths by simp
  ultimately show ?thesis by blast
qed

lemma demo_progress:
  assumes ok: "kernel_ok K items room tokens most" and inv: "demo_inv items room tokens most m s"
    and on: "tick_on s" and unfinished: "tohost_word s = None"
  shows "\<exists>s'. demo_step K s s' \<and> work tokens s' < work tokens s"
proof (cases "tx_busy s")
  case True
  then have "demo_step K s (s\<lparr>tx_busy := False\<rparr>)" by (rule demo_step.shifted)
  moreover have "work tokens (s\<lparr>tx_busy := False\<rparr>) < work tokens s" using True by (simp add: work_def)
  ultimately show ?thesis by blast
next
  case free: False
  have ok': "queue_ok K items room" "sem_ok K tokens most" "\<And>since d now. delay_ends K since d now = (now = since + d)"
    using ok by (auto simp: kernel_ok_def)
  have consumer: "\<exists>s'. consumer_step K s = Some s' \<and> work tokens s' < work tokens s"
    if ready: "consumer_ready K s"
  proof (cases "consumer s")
    case (At l)
    show ?thesis
    proof (cases l)
      case C_Take
      then obtain x where "xSemaphoreTake K (xSem s) = Some x" using ready At by auto
      then show ?thesis using At C_Take take_cases(2)[OF ok'(2)] by (auto simp: work_def nl_def)
    next
      case C_Receive
      then obtain x q where x: "xQueueReceive K (xQueue s) = Some (x, q)" using ready At by auto
      have "x = of_nat (Suc m)" "m < 8"
        using inv At C_Receive queue_cases(2)[OF ok'(1) x] by (auto simp: demo_inv_def stage_receive)
      then show ?thesis using At C_Receive x text_lengths[of m] by (auto simp: work_def)
    next
      case C_Check
      then show ?thesis using At by (auto simp: work_def nl_def)
    next
      case C_Pass
      then show ?thesis using At by (auto simp: work_def nl_def)
    next
      case C_Spins
      then show ?thesis using At inv unfinished by (auto simp: demo_inv_def)
    qed
  next
    case (Printing cs l)
    then show ?thesis using free by (cases cs) (auto simp: work_def)
  next
    case (Storing c cs l)
    then show ?thesis using free by (auto simp: work_def)
  qed
  have producer: "\<exists>s'. producer_step K s = Some s' \<and> work tokens s' < work tokens s"
    if ready: "\<not> consumer_ready K s" "producer_ready K s"
  proof (cases "producer s")
    case (At l)
    have m: "m < 8" "p_i s = of_nat (Suc m)" using inv by (simp_all add: demo_inv_def)
    then have cases8: "m \<in> {0, 1, 2, 3, 4, 5, 6, 7}" by auto
    then have i: "unat (p_i s) = Suc m" "sint (p_i s) \<le> 8" "m < 7 \<Longrightarrow> unat (p_i s + 1) = Suc (Suc m)"
      unfolding m(2) by auto
    show ?thesis
    proof (cases l)
      case P_Loop
      then show ?thesis using At i(2) by (simp add: work_def num_items_def)
    next
      case P_Send
      then obtain q where "xQueueSend K (xQueue s) (p_i s) = Some q" using ready At by auto
      then show ?thesis using At P_Send text_lengths[OF m(1)] m(2) by (simp add: work_def del: of_nat_Suc)
    next
      case P_Give
      have t: "tokens (xSem s) = 0" using consumer_waits[OF ok'(1,2) inv ready(1)] by simp
      have "most (xSem s) = 8" using inv by (simp add: demo_inv_def)
      then have "xSemaphoreGive K (xSem s) \<noteq> None" using take_cases(3)[OF ok'(2), of "xSem s"] t by auto
      then obtain x where x: "xSemaphoreGive K (xSem s) = Some x" by blast
      then show ?thesis using At P_Give take_cases(4)[OF ok'(2) x] t by (simp add: work_def)
    next
      case P_Delay
      then show ?thesis using At by (simp add: work_def)
    next
      case P_Next
      have "m < 7" using inv At P_Next by (auto simp: demo_inv_def stage_next)
      then show ?thesis using At P_Next i(1) i(3) by (simp add: work_def)
    next
      case (P_Asleep t)
      then show ?thesis using ready At by simp
    next
      case P_Delete
      then show ?thesis using inv At by (auto simp: demo_inv_def stage_deleted)
    next
      case P_Deleted
      then show ?thesis using ready At by simp
    qed
  next
    case (Printing cs l)
    moreover have "l = P_Give" using inv Printing by (simp add: demo_inv_def)
    ultimately show ?thesis using free by (cases cs) (auto simp: work_def)
  next
    case (Storing c cs l)
    then show ?thesis using free by (auto simp: work_def)
  qed
  show ?thesis
  proof (cases "consumer_ready K s")
    case True
    then show ?thesis using consumer demo_step.consumes by blast
  next
    case False
    note c = False
    show ?thesis
    proof (cases "producer_ready K s")
      case True
      then show ?thesis using producer c demo_step.produces by blast
    next
      case False
      then obtain t where t: "producer s = At (P_Asleep t)" using producer_waits[OF ok'(1,2) inv c] by blast
      have five: "pd_ms_to_ticks 5 = 5" by (simp add: pd_ms_to_ticks_def)
      have d: "tick_count s - t < 5" using inv t by (simp add: demo_inv_def)
      have "work tokens (timer_tick K s) < work tokens s"
      proof (cases "tick_count s + 1 = t + 5")
        case True
        then show ?thesis using t by (simp add: work_def timer_tick_def Let_def ok'(3) five)
      next
        case False
        have "unat (tick_count s + 1 - t) = Suc (unat (tick_count s - t))" "unat (tick_count s - t) < 5"
          using next_tick[OF d] by (simp_all add: algebra_simps)
        then show ?thesis using t False by (simp add: work_def timer_tick_def Let_def ok'(3) five)
      qed
      then show ?thesis using demo_step.ticks[OF on] by blast
    qed
  qed
qed

text \<open>C25. With the timer on, the demonstration can always be finished: from every reachable state some run of
  the tasks and the timer leads to the complete transcript and the value of success in \<open>tohost\<close>.\<close>

theorem demo_completes:
  assumes ok: "kernel_ok K items room tokens most" and start: "demo_main busy K starts file False b = Some (Inr (b0, s0))"
    and steps: "(demo_step K)\<^sup>*\<^sup>* s0 s"
  shows "\<exists>s'. (demo_step K)\<^sup>*\<^sup>* s s' \<and> tohost_word s' = Some 1 \<and> g_consumed s' = num_items \<and>
    shown s' = script 8 @ done_text"
  using steps
proof (induction "work tokens s" arbitrary: s rule: less_induct)
  case less
  obtain m where inv: "demo_inv items room tokens most m s" "tick_on s"
    using reachable_inv[OF ok start less.prems] by blast
  show ?case
  proof (cases "tohost_word s = None")
    case True
    then obtain s' where s': "demo_step K s s'" "work tokens s' < work tokens s"
      using demo_progress[OF ok inv] by blast
    then have "(demo_step K)\<^sup>*\<^sup>* s0 s'" using less.prems by simp
    from less.hyps[OF s'(2) this] show ?thesis using s'(1) by (meson converse_rtranclp_into_rtranclp)
  next
    case False
    then have c: "consumer s = At C_Spins" "tohost_word s = Some 1" using inv(1) by (auto simp: demo_inv_def split: if_splits)
    obtain a c where st: "g_consumed s = of_nat c"
        "stage m (label (producer s)) C_Spins (shown s @ rest (producer s)) (items (xQueue s)) (tokens (xSem s)) a c"
      using inv(1) c unfolding demo_inv_def by auto
    then have "producer s = At P_Delay" using inv(1) by (cases "producer s") (auto simp: demo_inv_def stage_spins)
    then show ?thesis using st c by (auto simp: stage_spins num_items_def)
  qed
qed

section \<open>Examples\<close>

lemma demo_main_starts: "\<exists>b0 s0. demo_main busy list_kernel True file neg b = Some (Inr (b0, s0))"
proof -
  have ok: "list_all piece_ok [Puts (''[BOOT]freertos'' @ nl)]" "list_all piece_ok [Puts (''[NEG]tick-disabled'' @ nl)]"
    by code_simp+
  obtain b1 where b1: "say busy [Puts (''[BOOT]freertos'' @ nl)] (uart_init b) = Some b1"
    using say_said[OF ok(1)] by blast
  obtain b2 where "say busy [Puts (''[NEG]tick-disabled'' @ nl)] b1 = Some b2"
    using say_said[OF ok(2)] by blast
  with b1 show ?thesis by (auto simp: demo_main_def list_kernel_def Let_def)
qed

lemma demo_completes_witness:
  "\<exists>b0 s0 s. demo_main (\<lambda>_. 2) list_kernel True [] False reset_board = Some (Inr (b0, s0)) \<and>
     (demo_step list_kernel)\<^sup>*\<^sup>* s0 s \<and> tohost_word s = Some 1 \<and> g_consumed s = num_items \<and> shown s = script 8 @ done_text"
proof -
  obtain b0 s0 where "demo_main (\<lambda>_. 2) list_kernel True [] False reset_board = Some (Inr (b0, s0))"
    using demo_main_starts by blast
  with demo_completes[OF list_kernel_ok this, of s0] show ?thesis by blast
qed

lemma demo_transcript_witness:
  "\<exists>b0 s0. demo_main (\<lambda>_. 2) list_kernel True [] False reset_board = Some (Inr (b0, s0)) \<and>
     (let s = timer_tick list_kernel s0 in prefix (shown s) (script 8 @ done_text) \<and> length (fst (xQueue s)) \<le> 1 \<and>
    (\<forall>(t, c, accepted) \<in> set (stores s). t = Worker \<or> accepted) \<and>
    (case tohost_word s of None \<Rightarrow> True | Some w \<Rightarrow> w = 1 \<and> shown s = script 8 @ done_text))"
proof -
  obtain b0 s0 where start: "demo_main (\<lambda>_. 2) list_kernel True [] False reset_board = Some (Inr (b0, s0))"
    using demo_main_starts by blast
  then have "tick_on s0" using demo_start_inv(2)[OF list_kernel_ok] by blast
  then have "(demo_step list_kernel)\<^sup>*\<^sup>* s0 (timer_tick list_kernel s0)" by (blast intro: demo_step.ticks)
  from demo_transcript[OF list_kernel_ok start this] start show ?thesis unfolding Let_def by blast
qed

lemma demo_needs_tick_witness:
  "\<exists>b0 s0 s. demo_main (\<lambda>_. 2) list_kernel True [] True reset_board = Some (Inr (b0, s0)) \<and>
     producer_step list_kernel s0 = Some s \<and>
     tohost_word s = None \<and> prefix (shown s) (script 1) \<and> g_consumed s \<in> {0, 1} \<and> p_i s = 1"
proof -
  obtain b0 s0 where start: "demo_main (\<lambda>_. 2) list_kernel True [] True reset_board = Some (Inr (b0, s0))"
    using demo_main_starts by blast
  then have s0: "producer s0 = At P_Loop" "consumer s0 = At C_Take" "fst (xSem s0) = 0"
    by (auto simp: demo_main_def list_kernel_def Let_def split: bind_splits)
  obtain s where s: "producer_step list_kernel s0 = Some s" using s0(1) by simp
  have "\<not> consumer_ready list_kernel s0" using s0(2,3) by (simp add: list_kernel_def case_prod_unfold)
  then have "(demo_step list_kernel)\<^sup>*\<^sup>* s0 s" using s by (blast intro: demo_step.produces)
  from demo_needs_tick[OF list_kernel_ok start this] start s show ?thesis by blast
qed

end
