(* ===== verification/Rtos_Timing.thy ===== *)
theory Rtos_Timing
  imports Rtos_Kernel
begin

text \<open>
  The timing measurements \<^verbatim>\<open>rtos/app/test_timing.c\<close>: a master task raises the software interrupt, the
  interrupt handler notifies the responding task, which works and notifies the master; each records
  the cycle counter.  At the end the master prints the minimum, maximum and average of the four
  latencies over the samples.

  The tasks and the handler are a step relation; between any two steps any number of cycles may
  pass.  The counter that the code reads is the low word of the true number of cycles.
\<close>

section \<open>State\<close>

record sample =
  t_assert :: ee_u32
  t_isr_entry :: ee_u32
  t_task_start :: ee_u32
  t_task_end :: ee_u32
  lat_irq :: ee_u32
  lat_sched :: ee_u32
  t_exec :: ee_u32
  resp_end_to_end :: ee_u32

datatype m_label = M_Start | M_Loop | M_Delay | M_Assert | M_Raise | M_Wait | M_Next | M_Report
datatype r_label = R_Loop | R_Wait | R_Work | R_Notify | R_Next | R_Delete | R_Deleted

record 'n timing =
  g_samples :: "sample list"
  g_sample_idx :: nat
  worker_notes :: 'n
  master_notes :: 'n
  clint_msip :: ee_u32
  msie :: bool
  cycles :: nat
  master :: m_label
  m_i :: nat
  resp :: r_label
  r_i :: nat
  r_start :: ee_u32

definition num_samples :: nat where
  "num_samples = 20"

definition get_cycle_count :: "'n timing \<Rightarrow> ee_u32" where
  "get_cycle_count s = of_nat (cycles s)"

definition upd_sample :: "nat \<Rightarrow> (sample \<Rightarrow> sample) \<Rightarrow> 'n timing \<Rightarrow> 'n timing option" where
  "upd_sample i f s = do {
     x \<leftarrow> aread (g_samples s) i;
     xs \<leftarrow> awrite (g_samples s) i (f x);
     Some (s\<lparr>g_samples := xs\<rparr>) }"

section \<open>Code\<close>

text \<open>The interrupt handler: \<open>mcause\<close> is what the register holds.\<close>

definition timing_interrupt :: "'n notifier \<Rightarrow> ee_u32 \<Rightarrow> 'n timing \<Rightarrow> 'n timing option" where
  "timing_interrupt N mcause s = do {
     let t_entry = get_cycle_count s;
     if mcause = 0x80000003 then do {
       let s = s\<lparr>clint_msip := 0\<rparr>;
       let idx = g_sample_idx s;
       s \<leftarrow> (if idx < num_samples
             then upd_sample idx (\<lambda>x. x\<lparr>t_isr_entry := t_entry, lat_irq := t_entry - t_assert x\<rparr>) s
             else Some s);
       Some (s\<lparr>worker_notes := notify_give N (worker_notes s)\<rparr>) }
     else Some s }"

text \<open>The synthetic workload.\<close>

definition workload :: "ee_u32 option" where
  "workload = for_loop 1 33 (\<lambda>k acc. Some (acc * 33 + of_nat k)) 0x12345678"

text \<open>\<open>vRespondingTask\<close>.\<close>

definition record_sample :: "nat \<Rightarrow> ee_u32 \<Rightarrow> ee_u32 \<Rightarrow> 'n timing \<Rightarrow> 'n timing option" where
  "record_sample i start end_time = upd_sample i (\<lambda>x. x\<lparr>t_task_start := start, t_task_end := end_time,
     lat_sched := start - t_isr_entry x, t_exec := end_time - start, resp_end_to_end := end_time - t_assert x\<rparr>)"

definition resp_step :: "'n notifier \<Rightarrow> 'n timing \<Rightarrow> 'n timing option" where
  "resp_step N s = (case resp s of
     R_Loop \<Rightarrow> Some (s\<lparr>resp := (if r_i s < num_samples then R_Wait else R_Delete)\<rparr>)
   | R_Wait \<Rightarrow> (case notify_take N (worker_notes s) of None \<Rightarrow> None
       | Some (v, n) \<Rightarrow> Some (s\<lparr>worker_notes := n, r_start := get_cycle_count s, resp := R_Work\<rparr>))
   | R_Work \<Rightarrow> do {
       acc \<leftarrow> workload;
       s \<leftarrow> record_sample (r_i s) (r_start s) (get_cycle_count s) s;
       Some (s\<lparr>resp := R_Notify\<rparr>) }
   | R_Notify \<Rightarrow> Some (s\<lparr>master_notes := notify_give N (master_notes s), resp := R_Next\<rparr>)
   | R_Next \<Rightarrow> Some (s\<lparr>r_i := r_i s + 1, resp := R_Loop\<rparr>)
   | R_Delete \<Rightarrow> Some (s\<lparr>resp := R_Deleted\<rparr>)
   | R_Deleted \<Rightarrow> None)"

text \<open>\<open>vMasterTimingTask\<close> up to its report.\<close>

definition master_step :: "'n notifier \<Rightarrow> 'n timing \<Rightarrow> 'n timing option" where
  "master_step N s = (case master s of
     M_Start \<Rightarrow> Some (s\<lparr>msie := True, m_i := 0, master := M_Loop\<rparr>)
   | M_Loop \<Rightarrow> Some (if m_i s < num_samples then s\<lparr>g_sample_idx := m_i s, master := M_Delay\<rparr>
       else s\<lparr>msie := False, master := M_Report\<rparr>)
   | M_Delay \<Rightarrow> Some (s\<lparr>master := M_Assert\<rparr>)
   | M_Assert \<Rightarrow> do {
       s \<leftarrow> upd_sample (m_i s) (\<lambda>x. x\<lparr>t_assert := get_cycle_count s\<rparr>) s;
       Some (s\<lparr>master := M_Raise\<rparr>) }
   | M_Raise \<Rightarrow> Some (s\<lparr>clint_msip := 1, master := M_Wait\<rparr>)
   | M_Wait \<Rightarrow> (case notify_take N (master_notes s) of None \<Rightarrow> None
       | Some (v, n) \<Rightarrow> Some (s\<lparr>master_notes := n, master := M_Next\<rparr>))
   | M_Next \<Rightarrow> Some (s\<lparr>m_i := m_i s + 1, master := M_Loop\<rparr>)
   | M_Report \<Rightarrow> None)"

text \<open>\<open>gives_up\<close> says whether the wait of the master, which has a limit of 50 ticks, may end without a
  notification.\<close>

inductive timing_step :: "'n notifier \<Rightarrow> bool \<Rightarrow> 'n timing \<Rightarrow> 'n timing \<Rightarrow> bool" for N gives_up where
  interrupt: "clint_msip s = 1 \<Longrightarrow> msie s \<Longrightarrow> timing_interrupt N 0x80000003 s = Some s' \<Longrightarrow> timing_step N gives_up s s'"
| responds: "resp_step N s = Some s' \<Longrightarrow> timing_step N gives_up s s'"
| masters: "master_step N s = Some s' \<Longrightarrow> timing_step N gives_up s s'"
| times_out: "gives_up \<Longrightarrow> master s = M_Wait \<Longrightarrow> timing_step N gives_up s (s\<lparr>master := M_Next\<rparr>)"
| cycle: "timing_step N gives_up s (s\<lparr>cycles := cycles s + d\<rparr>)"

definition zero_sample :: sample where
  "zero_sample = \<lparr>t_assert = 0, t_isr_entry = 0, t_task_start = 0, t_task_end = 0, lat_irq = 0, lat_sched = 0,
     t_exec = 0, resp_end_to_end = 0\<rparr>"

definition timing_start :: "'n \<Rightarrow> 'n \<Rightarrow> 'n timing" where
  "timing_start w m = \<lparr>g_samples = replicate 20 zero_sample, g_sample_idx = 0, worker_notes = w, master_notes = m,
     clint_msip = 0, msie = False, cycles = 0, master = M_Start, m_i = 0, resp = R_Loop, r_i = 0, r_start = 0\<rparr>"

section \<open>Summary\<close>

text \<open>The running minimum, maximum and sum of one latency.\<close>

record stats =
  st_min :: ee_u32
  st_max :: ee_u32
  st_sum :: ee_u32

definition no_stats :: stats where
  "no_stats = \<lparr>st_min = 0xFFFFFFFF, st_max = 0, st_sum = 0\<rparr>"

definition add_stat :: "ee_u32 \<Rightarrow> stats \<Rightarrow> stats" where
  "add_stat v st = st\<lparr>st_min := (if v < st_min st then v else st_min st),
     st_max := (if v > st_max st then v else st_max st), st_sum := st_sum st + v\<rparr>"

definition summarise :: "sample list \<Rightarrow> (stats \<times> stats \<times> stats \<times> stats) option" where
  "summarise xs = for_loop 0 num_samples (\<lambda>i (irq, sched, exec, rsp). do {
     x \<leftarrow> aread xs i;
     Some (add_stat (lat_irq x) irq, add_stat (lat_sched x) sched, add_stat (t_exec x) exec,
       add_stat (resp_end_to_end x) rsp) }) (no_stats, no_stats, no_stats, no_stats)"

definition average :: "stats \<Rightarrow> ee_u32" where
  "average st = st_sum st div of_nat num_samples"

definition stat_line :: "string \<Rightarrow> stats \<Rightarrow> piece list" where
  "stat_line name st = [Puts (name @ '': min=''), Putdec (st_min st), Puts '' max='', Putdec (st_max st),
     Puts '' avg='', Putdec (average st), Putc 10]"

definition json_line :: "string \<Rightarrow> stats \<Rightarrow> string \<Rightarrow> piece list" where
  "json_line name st close = [Puts (''  '' @ [CHR 0x22] @ name @ [CHR 0x22] @ '': {'' @ [CHR 0x22] @ ''min'' @ [CHR 0x22] @ '': ''),
     Putdec (st_min st), Puts ('', '' @ [CHR 0x22] @ ''max'' @ [CHR 0x22] @ '': ''), Putdec (st_max st),
     Puts ('', '' @ [CHR 0x22] @ ''avg'' @ [CHR 0x22] @ '': ''), Putdec (average st), Puts (close @ nl)]"

definition timing_report :: "stats \<times> stats \<times> stats \<times> stats \<Rightarrow> piece list" where
  "timing_report = (\<lambda>(irq, sched, exec, rsp).
     [Puts (nl @ ''================ TIMING MEASUREMENT SUMMARY ================'' @ nl), Puts (''Samples: 20'' @ nl)] @
     stat_line ''Interrupt Latency (cycles)     '' irq @
     stat_line ''Scheduler Latency (cycles)     '' sched @
     stat_line ''Task Execution Time (cycles)   '' exec @
     stat_line ''End-to-End Response (cycles)   '' rsp @
     [Puts (nl @ ''[TIMING_JSON_START]'' @ nl), Puts (''{'' @ nl), Puts (''  '' @ [CHR 0x22] @ ''samples'' @ [CHR 0x22] @ '': 20,'' @ nl)] @
     json_line ''interrupt_latency'' irq ''},'' @
     json_line ''scheduler_latency'' sched ''},'' @
     json_line ''task_execution'' exec ''},'' @
     json_line ''response_time'' rsp ''}'' @
     [Puts (''}'' @ nl), Puts (''[TIMING_JSON_END]'' @ nl), Puts (nl @ ''[TIMING] ALL STAGE 4 MEASUREMENTS COMPLETE!'' @ nl)])"

text \<open>The end of the master task, after the loop of measurements.\<close>

definition timing_finish :: "(nat \<Rightarrow> nat) \<Rightarrow> sample list \<Rightarrow> board \<Rightarrow> fate option" where
  "timing_finish busy xs b = do {
     st \<leftarrow> summarise xs;
     b \<leftarrow> say busy (timing_report st) b;
     Some (sim_pass b) }"

text \<open>\<open>main\<close> and the first line of the master task, up to the start of the measurements.\<close>

definition timing_main :: "(nat \<Rightarrow> nat) \<Rightarrow> bool \<Rightarrow> 'n \<Rightarrow> 'n \<Rightarrow> board \<Rightarrow> (fate + board \<times> 'n timing) option" where
  "timing_main busy starts w m b = do {
     b \<leftarrow> say busy [Puts (''[BOOT] FreeRTOS Timing Instrumentation Harness'' @ nl)] (uart_init b);
     if starts then do {
       b \<leftarrow> say busy [Puts (''[TIMING] Starting cycle-accurate latency characterization'' @ nl)] b;
       Some (Inr (b, timing_start w m)) }
     else do {
       b \<leftarrow> say busy [Puts (''[FATAL] Scheduler returned'' @ nl)] b;
       Some (Inl (sim_fail b)) } }"

section \<open>The measurements\<close>

text \<open>A sample with its true times: the fields hold their low words and differences.\<close>

definition timed :: "sample \<Rightarrow> nat \<Rightarrow> nat \<Rightarrow> nat \<Rightarrow> nat \<Rightarrow> bool" where
  "timed x a e st f \<longleftrightarrow> a \<le> e \<and> e \<le> st \<and> st \<le> f \<and>
     t_assert x = of_nat a \<and> t_isr_entry x = of_nat e \<and> t_task_start x = of_nat st \<and> t_task_end x = of_nat f \<and>
     lat_irq x = of_nat (e - a) \<and> lat_sched x = of_nat (st - e) \<and> t_exec x = of_nat (f - st) \<and>
     resp_end_to_end x = of_nat (f - a)"

definition measured :: "nat \<Rightarrow> sample \<Rightarrow> bool" where
  "measured now x \<longleftrightarrow> (\<exists>a e st f. timed x a e st f \<and> f \<le> now)"

text \<open>The responding task has dealt with \<open>n\<close> samples.\<close>

fun idle :: "nat \<Rightarrow> r_label \<Rightarrow> nat \<Rightarrow> bool" where
  "idle n R_Next i \<longleftrightarrow> Suc i = n"
| "idle n R_Work i \<longleftrightarrow> False"
| "idle n R_Notify i \<longleftrightarrow> False"
| "idle n _ i \<longleftrightarrow> i = n"

text \<open>Where the two tasks can be while sample \<open>n\<close> is taken: the pending interrupt, the two notification
  values, and how much of the sample is known.\<close>

datatype known = Nothing | Asserted | Entered | Started | Complete

inductive round :: "nat \<Rightarrow> m_label \<Rightarrow> r_label \<Rightarrow> nat \<Rightarrow> ee_u32 \<Rightarrow> ee_u32 \<Rightarrow> ee_u32 \<Rightarrow> known \<Rightarrow> bool" for n where
  before: "lm \<in> {M_Start, M_Loop, M_Delay, M_Assert, M_Report} \<Longrightarrow> idle n lr i \<Longrightarrow> round n lm lr i 0 0 0 Nothing"
| asserted: "idle n lr i \<Longrightarrow> round n M_Raise lr i 0 0 0 Asserted"
| raised: "idle n lr i \<Longrightarrow> round n M_Wait lr i 1 0 0 Asserted"
| entered: "idle n lr i \<Longrightarrow> round n M_Wait lr i 0 1 0 Entered"
| started: "round n M_Wait R_Work n 0 0 0 Started"
| recorded: "round n M_Wait R_Notify n 0 0 0 Complete"
| notified: "idle (Suc n) lr i \<Longrightarrow> round n M_Wait lr i 0 0 1 Complete"
| ended: "idle (Suc n) lr i \<Longrightarrow> round n M_Next lr i 0 0 0 Complete"

fun knows :: "known \<Rightarrow> sample \<Rightarrow> ee_u32 \<Rightarrow> nat \<Rightarrow> bool" where
  "knows Nothing x start now \<longleftrightarrow> True"
| "knows Asserted x start now \<longleftrightarrow> (\<exists>a \<le> now. t_assert x = of_nat a)"
| "knows Entered x start now \<longleftrightarrow> (\<exists>a e. a \<le> e \<and> e \<le> now \<and> t_assert x = of_nat a \<and> t_isr_entry x = of_nat e \<and> lat_irq x = of_nat (e - a))"
| "knows Started x start now \<longleftrightarrow> (\<exists>a e st. a \<le> e \<and> e \<le> st \<and> st \<le> now \<and> t_assert x = of_nat a \<and> t_isr_entry x = of_nat e \<and>
     lat_irq x = of_nat (e - a) \<and> start = of_nat st)"
| "knows Complete x start now \<longleftrightarrow> measured now x"

definition timing_inv :: "('n \<Rightarrow> ee_u32) \<Rightarrow> 'n timing \<Rightarrow> bool" where
  "timing_inv noted s \<longleftrightarrow> length (g_samples s) = 20 \<and> m_i s \<le> 20 \<and>
     (\<forall>j < m_i s. measured (cycles s) (g_samples s ! j)) \<and>
     (master s \<notin> {M_Loop, M_Report} \<longrightarrow> m_i s < 20 \<and> g_sample_idx s = m_i s) \<and>
     (master s = M_Report \<longrightarrow> m_i s = 20) \<and> (master s = M_Start \<longrightarrow> m_i s = 0) \<and>
     (\<exists>k. round (m_i s) (master s) (resp s) (r_i s) (clint_msip s) (noted (worker_notes s)) (noted (master_notes s)) k \<and>
        (m_i s < 20 \<longrightarrow> knows k (g_samples s ! m_i s) (r_start s) (cycles s)))"

lemma measured_later: "measured now x \<Longrightarrow> measured (now + d) x"
  unfolding measured_def by (meson trans_le_add1)

lemma knows_later: "knows k x st now \<Longrightarrow> knows k x st (now + d)"
  by (cases k) (auto intro: trans_le_add1 measured_later)

lemma cycle_inv: "timing_inv noted s \<Longrightarrow> timing_inv noted (s\<lparr>cycles := cycles s + d\<rparr>)"
  unfolding timing_inv_def by (auto intro: measured_later knows_later)

inductive_simps round_start: "round n M_Start lr i p w m k"
inductive_simps round_loop: "round n M_Loop lr i p w m k"
inductive_simps round_delay: "round n M_Delay lr i p w m k"
inductive_simps round_assert: "round n M_Assert lr i p w m k"
inductive_simps round_raise: "round n M_Raise lr i p w m k"
inductive_simps round_wait: "round n M_Wait lr i p w m k"
inductive_simps round_next: "round n M_Next lr i p w m k"
inductive_simps round_report: "round n M_Report lr i p w m k"
inductive_simps round_pending: "round n lm lr i 1 w m k"
inductive_simps round_worked: "round n lm R_Work i p w m k"
inductive_simps round_notify: "round n lm R_Notify i p w m k"

lemmas rounds = round_start round_loop round_delay round_assert round_raise round_wait round_next round_report

lemma round_idle:
  assumes "round n lm lr i p w m k" "lr \<notin> {R_Work, R_Notify}" "\<And>n. idle n lr i \<Longrightarrow> idle n lr' i'"
  shows "round n lm lr' i' p w m k"
  using assms by (cases rule: round.cases) (auto intro: round.intros)

lemma notify_one: "notify_ok N noted \<Longrightarrow> noted x = 0 \<Longrightarrow> noted (notify_give N x) = 1"
  by (simp add: notify_cases)

lemma interrupt_inv:
  assumes ok: "notify_ok N noted" and inv: "timing_inv noted s" and pending: "clint_msip s = 1"
    and step: "timing_interrupt N 0x80000003 s = Some s'"
  shows "timing_inv noted s'"
proof -
  obtain k where k: "round (m_i s) (master s) (resp s) (r_i s) 1 (noted (worker_notes s)) (noted (master_notes s)) k"
    "m_i s < 20 \<Longrightarrow> knows k (g_samples s ! m_i s) (r_start s) (cycles s)"
    using inv pending unfolding timing_inv_def by auto
  then have st: "master s = M_Wait" "idle (m_i s) (resp s) (r_i s)" "noted (worker_notes s) = 0"
      "noted (master_notes s) = 0" "k = Asserted"
    by (auto simp: round_pending)
  then have i: "m_i s < 20" "g_sample_idx s = m_i s" "length (g_samples s) = 20" using inv by (auto simp: timing_inv_def)
  obtain a where a: "a \<le> cycles s" "t_assert (g_samples s ! m_i s) = of_nat a" using k(2) i(1) st(5) by auto
  let ?x = "(g_samples s ! m_i s)\<lparr>t_isr_entry := of_nat (cycles s), lat_irq := of_nat (cycles s) - of_nat a\<rparr>"
  have s': "s' = s\<lparr>clint_msip := 0, g_samples := (g_samples s)[m_i s := ?x], worker_notes := notify_give N (worker_notes s)\<rparr>"
    using step i a by (auto simp: timing_interrupt_def num_samples_def upd_sample_def get_cycle_count_def Let_def)
  have "knows Entered ?x (r_start s) (cycles s)"
    unfolding knows.simps by (intro exI[of _ a] exI[of _ "cycles s"]) (simp add: a of_nat_diff)
  moreover have "round (m_i s) M_Wait (resp s) (r_i s) 0 1 0 Entered" using st by (auto intro: round.intros)
  ultimately show ?thesis
    using inv st i notify_one[OF ok st(3)] unfolding timing_inv_def s'
    by (auto simp: nth_list_update simp del: knows.simps intro!: exI[of _ Entered])
qed

lemma resp_inv:
  assumes ok: "notify_ok N noted" and inv: "timing_inv noted s" and step: "resp_step N s = Some s'"
  shows "timing_inv noted s'"
proof -
  obtain k where k: "round (m_i s) (master s) (resp s) (r_i s) (clint_msip s) (noted (worker_notes s)) (noted (master_notes s)) k"
    "m_i s < 20 \<Longrightarrow> knows k (g_samples s ! m_i s) (r_start s) (cycles s)"
    using inv unfolding timing_inv_def by auto
  show ?thesis
  proof (cases "resp s")
    case R_Loop
    then have s': "s' = s\<lparr>resp := (if r_i s < num_samples then R_Wait else R_Delete)\<rparr>" using step by (simp add: resp_step_def)
    have "round (m_i s) (master s) (resp s') (r_i s) (clint_msip s) (noted (worker_notes s)) (noted (master_notes s)) k"
      by (rule round_idle[OF k(1)]) (use R_Loop s' in auto)
    then show ?thesis using inv k(2) unfolding timing_inv_def s' by auto
  next
    case R_Next
    then have s': "s' = s\<lparr>r_i := r_i s + 1, resp := R_Loop\<rparr>" using step by (simp add: resp_step_def)
    have "round (m_i s) (master s) (resp s') (r_i s') (clint_msip s) (noted (worker_notes s)) (noted (master_notes s)) k"
      by (rule round_idle[OF k(1)]) (use R_Next s' in auto)
    then show ?thesis using inv k(2) unfolding timing_inv_def s' by auto
  next
    case R_Delete
    then have s': "s' = s\<lparr>resp := R_Deleted\<rparr>" using step by (simp add: resp_step_def)
    have "round (m_i s) (master s) (resp s') (r_i s') (clint_msip s) (noted (worker_notes s)) (noted (master_notes s)) k"
      by (rule round_idle[OF k(1)]) (use R_Delete s' in auto)
    then show ?thesis using inv k(2) unfolding timing_inv_def s' by auto
  next
    case R_Deleted
    then show ?thesis using step by (simp add: resp_step_def)
  next
    case R_Wait
    then obtain v n where v: "notify_take N (worker_notes s) = Some (v, n)"
      and s': "s' = s\<lparr>worker_notes := n, r_start := get_cycle_count s, resp := R_Work\<rparr>"
      using step by (auto simp: resp_step_def split: option.splits)
    note n = notify_cases(3)[OF ok v]
    then have st: "master s = M_Wait" "r_i s = m_i s" "clint_msip s = 0" "noted (master_notes s) = 0" "k = Entered"
      using k(1) R_Wait by (auto elim!: round.cases)
    then have i: "m_i s < 20" using inv by (auto simp: timing_inv_def)
    then have "knows Started (g_samples s ! m_i s) (r_start s') (cycles s)"
      using k(2) st(5) s' by (auto simp: get_cycle_count_def)
    moreover have "round (m_i s) M_Wait R_Work (m_i s) 0 0 0 Started" by (rule round.started)
    ultimately show ?thesis using inv st n i unfolding timing_inv_def s' by (auto simp del: knows.simps intro!: exI[of _ Started])
  next
    case R_Work
    then have st: "master s = M_Wait" "r_i s = m_i s" "clint_msip s = 0" "noted (worker_notes s) = 0"
        "noted (master_notes s) = 0" "k = Started"
      using k(1) by (auto simp: round_worked)
    then have i: "m_i s < 20" "length (g_samples s) = 20" using inv by (auto simp: timing_inv_def)
    let ?o = "g_samples s ! m_i s"
    obtain a e st' where kn: "a \<le> e" "e \<le> st'" "st' \<le> cycles s" "t_assert ?o = of_nat a" "t_isr_entry ?o = of_nat e"
      "lat_irq ?o = of_nat (e - a)" "r_start s = of_nat st'"
      using k(2)[OF i(1)] st(6) by auto
    let ?x = "?o\<lparr>t_task_start := of_nat st', t_task_end := of_nat (cycles s), lat_sched := of_nat st' - of_nat e,
        t_exec := of_nat (cycles s) - of_nat st', resp_end_to_end := of_nat (cycles s) - of_nat a\<rparr>"
    have s': "s' = s\<lparr>g_samples := (g_samples s)[m_i s := ?x], resp := R_Notify\<rparr>"
      using step R_Work i st kn
      by (auto simp: resp_step_def record_sample_def upd_sample_def get_cycle_count_def split: bind_splits)
    have "timed ?x a e st' (cycles s)" using kn by (auto simp: timed_def of_nat_diff)
    then have "knows Complete ?x (r_start s) (cycles s)" by (auto simp: measured_def)
    moreover have "round (m_i s) M_Wait R_Notify (m_i s) 0 0 0 Complete" by (rule round.recorded)
    ultimately show ?thesis using inv st i unfolding timing_inv_def s'
      by (auto simp: nth_list_update simp del: knows.simps intro!: exI[of _ Complete])
  next
    case R_Notify
    then have st: "master s = M_Wait" "r_i s = m_i s" "clint_msip s = 0" "noted (worker_notes s) = 0"
        "noted (master_notes s) = 0" "k = Complete"
      using k(1) by (auto simp: round_notify)
    then have s': "s' = s\<lparr>master_notes := notify_give N (master_notes s), resp := R_Next\<rparr>"
      using step R_Notify by (simp add: resp_step_def)
    have "round (m_i s) M_Wait R_Next (m_i s) 0 0 1 Complete" by (rule round.notified) simp
    then show ?thesis using inv st k(2) notify_one[OF ok st(5)] unfolding timing_inv_def s' by (auto simp del: knows.simps intro!: exI[of _ Complete])
  qed
qed

lemma master_inv:
  assumes ok: "notify_ok N noted" and inv: "timing_inv noted s" and step: "master_step N s = Some s'"
  shows "timing_inv noted s'"
proof -
  obtain k where k: "round (m_i s) (master s) (resp s) (r_i s) (clint_msip s) (noted (worker_notes s)) (noted (master_notes s)) k"
    "m_i s < 20 \<Longrightarrow> knows k (g_samples s ! m_i s) (r_start s) (cycles s)"
    using inv unfolding timing_inv_def by auto
  show ?thesis
  proof (cases "master s")
    case M_Start
    then have "s' = s\<lparr>msie := True, m_i := 0, master := M_Loop\<rparr>" "m_i s = 0"
      using step inv by (simp_all add: master_step_def timing_inv_def)
    then show ?thesis using inv k M_Start unfolding timing_inv_def by (auto simp: rounds)
  next
    case M_Loop
    then have "s' = (if m_i s < 20 then s\<lparr>g_sample_idx := m_i s, master := M_Delay\<rparr> else s\<lparr>msie := False, master := M_Report\<rparr>)"
      using step by (simp add: master_step_def num_samples_def)
    then show ?thesis using inv k M_Loop unfolding timing_inv_def by (auto simp: rounds split: if_splits)
  next
    case M_Delay
    then have "s' = s\<lparr>master := M_Assert\<rparr>" using step by (simp add: master_step_def)
    then show ?thesis using inv k M_Delay unfolding timing_inv_def by (auto simp: rounds)
  next
    case M_Assert
    then have i: "m_i s < 20" "g_sample_idx s = m_i s" "length (g_samples s) = 20" using inv by (auto simp: timing_inv_def)
    let ?x = "(g_samples s ! m_i s)\<lparr>t_assert := of_nat (cycles s)\<rparr>"
    have s': "s' = s\<lparr>g_samples := (g_samples s)[m_i s := ?x], master := M_Raise\<rparr>"
      using step M_Assert i by (auto simp: master_step_def upd_sample_def get_cycle_count_def)
    have "knows Asserted ?x (r_start s) (cycles s)" by auto
    then show ?thesis using inv k(1) M_Assert i unfolding timing_inv_def s'
      by (auto simp: rounds nth_list_update simp del: knows.simps)
  next
    case M_Raise
    then have "s' = s\<lparr>clint_msip := 1, master := M_Wait\<rparr>" using step by (simp add: master_step_def)
    then show ?thesis using inv k M_Raise unfolding timing_inv_def by (auto simp: rounds)
  next
    case M_Wait
    then obtain v n where v: "notify_take N (master_notes s) = Some (v, n)" and s': "s' = s\<lparr>master_notes := n, master := M_Next\<rparr>"
      using step by (auto simp: master_step_def split: option.splits)
    note n = notify_cases(3)[OF ok v]
    then have "round (m_i s) M_Next (resp s) (r_i s) (clint_msip s) (noted (worker_notes s)) (noted n) Complete" "k = Complete"
      using k(1) M_Wait by (auto simp: rounds)
    then show ?thesis using inv k(2) M_Wait unfolding timing_inv_def s' by (auto simp del: knows.simps intro!: exI[of _ Complete])
  next
    case M_Next
    then have s': "s' = s\<lparr>m_i := m_i s + 1, master := M_Loop\<rparr>" using step by (simp add: master_step_def)
    have i: "m_i s < 20" "k = Complete" using inv k(1) M_Next by (auto simp: timing_inv_def rounds)
    then have "measured (cycles s) (g_samples s ! m_i s)" using k(2) by simp
    then have "\<forall>j < Suc (m_i s). measured (cycles s) (g_samples s ! j)"
      using inv by (auto simp: timing_inv_def less_Suc_eq)
    moreover have "round (Suc (m_i s)) M_Loop (resp s) (r_i s) (clint_msip s) (noted (worker_notes s)) (noted (master_notes s)) Nothing"
      using k(1) M_Next by (auto simp: rounds)
    ultimately show ?thesis using inv i unfolding timing_inv_def s' by (auto intro!: exI[of _ Nothing])
  next
    case M_Report
    then show ?thesis using step by (simp add: master_step_def)
  qed
qed


text \<open>The interrupt is enabled during the measurements, and the responding task leaves its loop after the
  last sample.\<close>

definition armed :: "'n timing \<Rightarrow> bool" where
  "armed s \<longleftrightarrow> (master s \<notin> {M_Start, M_Report} \<longrightarrow> msie s) \<and>
     (if resp s = R_Loop then r_i s \<le> 20 else if resp s \<in> {R_Delete, R_Deleted} then r_i s = 20 else r_i s < 20)"

lemma upd_sample_frame [frame_simps]: "upd_sample i f s = Some s' \<Longrightarrow> \<exists>xs. s' = s\<lparr>g_samples := xs\<rparr>"
  by (auto simp: upd_sample_def split: bind_splits)

lemma armed_step: "timing_step N gives_up s s' \<Longrightarrow> armed s \<Longrightarrow> armed s'"
proof (induction rule: timing_step.induct)
  case (interrupt s s')
  then show ?case
    by (auto simp: timing_interrupt_def Let_def armed_def dest!: upd_sample_frame split: bind_splits if_splits)
next
  case (responds s s')
  then show ?case
    by (cases "resp s") (auto simp: resp_step_def armed_def num_samples_def record_sample_def
        dest!: upd_sample_frame split: bind_splits option.splits if_splits)
next
  case (masters s s')
  then show ?case
    by (cases "master s") (auto simp: master_step_def armed_def num_samples_def
        dest!: upd_sample_frame split: bind_splits option.splits if_splits)
qed (auto simp: armed_def)

lemma timing_start_inv:
  assumes "noted w = 0" "noted m = 0"
  shows "timing_inv noted (timing_start w m)" "armed (timing_start w m)"
  using assms by (auto simp: timing_inv_def timing_start_def round_start armed_def intro!: exI[of _ Nothing])

lemma timing_reachable:
  assumes ok: "notify_ok N noted" "noted w = 0" "noted m = 0"
    and steps: "(timing_step N False)\<^sup>*\<^sup>* (timing_start w m) s"
  shows "timing_inv noted s \<and> armed s"
  using steps
proof (induction rule: rtranclp_induct)
  case base
  then show ?case using timing_start_inv[where noted = noted and w = w and m = m, OF ok(2,3)] by blast
next
  case (step s s')
  then have inv: "timing_inv noted s" "armed s" by auto
  from step(2) have "timing_inv noted s'"
  proof cases
    case interrupt
    then show ?thesis using interrupt_inv[OF ok(1) inv(1)] by blast
  next
    case responds
    then show ?thesis using resp_inv[OF ok(1) inv(1)] by blast
  next
    case masters
    then show ?thesis using master_inv[OF ok(1) inv(1)] by blast
  next
    case (cycle d)
    then show ?thesis using cycle_inv[OF inv(1)] by blast
  qed auto
  then show ?case using armed_step[OF step(2) inv(2)] by blast
qed

text \<open>The latencies of a measured sample add up, and are the true ones if the response took less than a
  round of the cycle counter.\<close>

lemma timed_latencies:
  assumes "timed x a e st f"
  shows "lat_irq x + lat_sched x + t_exec x = resp_end_to_end x"
    "f - a < 2 ^ 32 \<Longrightarrow> unat (lat_irq x) = e - a \<and> unat (lat_sched x) = st - e \<and> unat (t_exec x) = f - st \<and>
       unat (resp_end_to_end x) = f - a"
proof -
  have t: "a \<le> e" "e \<le> st" "st \<le> f" "lat_irq x = of_nat (e - a)" "lat_sched x = of_nat (st - e)"
    "t_exec x = of_nat (f - st)" "resp_end_to_end x = of_nat (f - a)"
    using assms by (simp_all add: timed_def)
  have "of_nat (e - a) + of_nat (st - e) + of_nat (f - st) = (of_nat (f - a) :: ee_u32)"
    using t(1-3) by (simp flip: of_nat_add)
  then show "lat_irq x + lat_sched x + t_exec x = resp_end_to_end x" by (simp only: t)
  show "unat (lat_irq x) = e - a \<and> unat (lat_sched x) = st - e \<and> unat (t_exec x) = f - st \<and>
       unat (resp_end_to_end x) = f - a" if "f - a < 2 ^ 32"
  proof -
    have fit: "unat (of_nat d :: ee_u32) = d" if "d < 2 ^ 32" for d
      using that by (simp add: unsigned_of_nat take_bit_eq_mod)
    have "e - a < 2 ^ 32" "st - e < 2 ^ 32" "f - st < 2 ^ 32" using that t(1-3) by linarith+
    from this[THEN fit] fit[OF that] show ?thesis unfolding t(4-7) by blast
  qed
qed

section \<open>Progress\<close>

fun m_rank :: "m_label \<Rightarrow> nat" where
  "m_rank M_Start = 65"
| "m_rank M_Loop = 64"
| "m_rank M_Delay = 63"
| "m_rank M_Assert = 62"
| "m_rank M_Raise = 60"
| "m_rank M_Wait = 5"
| "m_rank M_Next = 1"
| "m_rank M_Report = 0"

fun r_rank :: "r_label \<Rightarrow> nat" where
  "r_rank R_Work = 30"
| "r_rank R_Notify = 20"
| "r_rank R_Next = 3"
| "r_rank R_Loop = 2"
| "r_rank R_Wait = 1"
| "r_rank _ = 0"

definition left :: "('n \<Rightarrow> ee_u32) \<Rightarrow> 'n timing \<Rightarrow> nat" where
  "left noted s = (20 - m_i s) * 100 + m_rank (master s) + (if master s = M_Wait then r_rank (resp s) +
     (if clint_msip s = 1 then 50 else 0) + (if noted (worker_notes s) = 1 then 40 else 0) +
     (if noted (master_notes s) = 1 then 10 else 0) else 0)"

lemma workload_some: "\<exists>v. workload = Some v"
  using for_loop_fold[of 1 33 "\<lambda>k acc. Some (acc * 33 + of_nat k :: ee_u32)" "\<lambda>k acc. acc * 33 + of_nat k"]
  by (simp add: workload_def)

lemma upd_sample_in: "i < length (g_samples s) \<Longrightarrow> upd_sample i f s = Some (s\<lparr>g_samples := (g_samples s)[i := f (g_samples s ! i)]\<rparr>)"
  by (simp add: upd_sample_def)

lemma record_sample_some:
  "i < length (g_samples s) \<Longrightarrow> \<exists>xs. record_sample i a b s = Some (s\<lparr>g_samples := xs\<rparr>)"
  unfolding record_sample_def by (rule exI, erule upd_sample_in)

lemma timing_progress:
  assumes ok: "notify_ok N noted" and inv: "timing_inv noted s" and armed: "armed s" and "master s \<noteq> M_Report"
  shows "\<exists>s'. timing_step N False s s' \<and> left noted s' < left noted s"
proof -
  obtain k where k: "round (m_i s) (master s) (resp s) (r_i s) (clint_msip s) (noted (worker_notes s)) (noted (master_notes s)) k"
    using inv unfolding timing_inv_def by auto
  have len: "length (g_samples s) = 20" "m_i s \<le> 20" using inv by (simp_all add: timing_inv_def)
  show ?thesis
  proof (cases "master s = M_Wait")
    case False
    have "\<exists>s'. master_step N s = Some s' \<and> left noted s' < left noted s"
    proof (cases "master s")
      case M_Next
      then have "m_i s < 20" using inv by (simp add: timing_inv_def)
      then show ?thesis using M_Next by (simp add: master_step_def left_def)
    next
      case M_Assert
      then have "m_i s < 20" using inv by (simp add: timing_inv_def)
      then show ?thesis using M_Assert len by (simp add: master_step_def left_def upd_sample_in)
    next
      case M_Raise
      have "r_rank (resp s) \<le> 3" "noted (worker_notes s) = 0" "noted (master_notes s) = 0"
        using k M_Raise by (cases "resp s"; simp add: round_raise)+
      then show ?thesis using M_Raise by (simp add: master_step_def left_def)
    next
      case M_Start
      then have "m_i s = 0" using inv by (simp add: timing_inv_def)
      then show ?thesis using M_Start by (simp add: master_step_def left_def)
    qed (use assms(4) False in \<open>simp_all add: master_step_def left_def\<close>)
    then show ?thesis using timing_step.masters by blast
  next
    case True
    have resp: ?thesis if "\<exists>s'. resp_step N s = Some s' \<and> left noted s' < left noted s"
      using that timing_step.responds by blast
    have "round (m_i s) M_Wait (resp s) (r_i s) (clint_msip s) (noted (worker_notes s)) (noted (master_notes s)) k"
      using k True by simp
    then have "(resp s = R_Work \<or> resp s = R_Notify \<or> resp s = R_Loop \<or> resp s = R_Next) \<or>
        clint_msip s = 1 \<and> noted (worker_notes s) = 0 \<or> clint_msip s = 0 \<and> noted (master_notes s) = 1 \<and> noted (worker_notes s) = 0 \<or>
        clint_msip s = 0 \<and> noted (worker_notes s) = 1 \<and> resp s \<in> {R_Wait, R_Delete, R_Deleted} \<and> m_i s = r_i s"
    proof cases
      case entered
      then show ?thesis by (cases "resp s") simp_all
    qed simp_all
    then show ?thesis
    proof (elim disjE)
      assume r: "resp s = R_Work"
      have "r_i s < 20" using armed r by (simp add: armed_def)
      moreover obtain v where v: "workload = Some v" using workload_some by blast
      moreover obtain xs where w: "record_sample (r_i s) (r_start s) (get_cycle_count s) s = Some (s\<lparr>g_samples := xs\<rparr>)"
        using record_sample_some[of "r_i s" s] len(1) \<open>r_i s < 20\<close> by auto
      have "resp_step N s = Some (s\<lparr>g_samples := xs, resp := R_Notify\<rparr>)"
        unfolding resp_step_def r v w by simp
      moreover have "left noted (s\<lparr>g_samples := xs, resp := R_Notify\<rparr>) < left noted s"
        using r True by (simp add: left_def)
      ultimately have "\<exists>s'. resp_step N s = Some s' \<and> left noted s' < left noted s" by blast
      then show ?thesis by (rule resp)
    next
      assume r: "resp s = R_Notify"
      then have "noted (master_notes s) = 0" using k by (simp add: round_notify)
      then have "\<exists>s'. resp_step N s = Some s' \<and> left noted s' < left noted s"
        using r True notify_one[OF ok, of "master_notes s"] by (simp add: resp_step_def left_def)
      then show ?thesis by (rule resp)
    next
      assume "resp s = R_Loop"
      then have "\<exists>s'. resp_step N s = Some s' \<and> left noted s' < left noted s"
        using True by (simp add: resp_step_def left_def)
      then show ?thesis by (rule resp)
    next
      assume "resp s = R_Next"
      then have "\<exists>s'. resp_step N s = Some s' \<and> left noted s' < left noted s"
        using True by (simp add: resp_step_def left_def)
      then show ?thesis by (rule resp)
    next
      assume p: "clint_msip s = 1 \<and> noted (worker_notes s) = 0"
      have i: "m_i s < 20" "g_sample_idx s = m_i s" "msie s" using inv armed True by (auto simp: timing_inv_def armed_def)
      obtain s' where s': "timing_interrupt N 0x80000003 s = Some s'" "left noted s' < left noted s"
        using i(1,2) len p True notify_one[OF ok] by (auto simp: timing_interrupt_def upd_sample_in num_samples_def Let_def left_def)
      then show ?thesis using timing_step.interrupt[of s N s' False] p i(3) by blast
    next
      assume p: "clint_msip s = 0 \<and> noted (master_notes s) = 1 \<and> noted (worker_notes s) = 0"
      then obtain v n where "notify_take N (master_notes s) = Some (v, n)"
        using notify_cases(2)[OF ok, of "master_notes s"] by force
      then have "\<exists>s'. master_step N s = Some s' \<and> left noted s' < left noted s"
        using True p by (simp add: master_step_def left_def)
      then show ?thesis using timing_step.masters by blast
    next
      assume p: "clint_msip s = 0 \<and> noted (worker_notes s) = 1 \<and> resp s \<in> {R_Wait, R_Delete, R_Deleted} \<and> m_i s = r_i s"
      have "m_i s < 20" using inv True by (simp add: timing_inv_def)
      then have r: "resp s = R_Wait" using p armed by (auto simp: armed_def)
      obtain v n where v: "notify_take N (worker_notes s) = Some (v, n)"
        using p notify_cases(2)[OF ok, of "worker_notes s"] by force
      then have "\<exists>s'. resp_step N s = Some s' \<and> left noted s' < left noted s"
        using r True p notify_cases(3)[OF ok v] by (simp add: resp_step_def left_def)
      then show ?thesis by (rule resp)
    qed
  qed
qed

section \<open>The summary\<close>

text \<open>What a summary says of the values it was made from.\<close>

definition summary_of :: "ee_u32 list \<Rightarrow> stats \<Rightarrow> bool" where
  "summary_of vs st \<longleftrightarrow> st_min st = Min (set vs) \<and> st_max st = Max (set vs) \<and> st_sum st = sum_list vs"

lemma fold_add_stat:
  assumes "vs \<noteq> []"
  shows "summary_of vs (fold add_stat vs no_stats)"
proof -
  have "st_min (fold add_stat vs st) = Min (insert (st_min st) (set vs)) \<and>
      st_max (fold add_stat vs st) = Max (insert (st_max st) (set vs)) \<and>
      st_sum (fold add_stat vs st) = st_sum st + sum_list vs" for st
  proof (induction vs arbitrary: st)
    case (Cons v vs)
    have "insert (st_min (add_stat v st)) (set vs) = insert (min v (st_min st)) (set vs)"
      "insert (st_max (add_stat v st)) (set vs) = insert (max v (st_max st)) (set vs)"
      by (auto simp: add_stat_def min_def max_def)
    moreover have "Min (insert (min v a) (set vs)) = Min (insert a (insert v (set vs)))"
      "Max (insert (max v a) (set vs)) = Max (insert a (insert v (set vs)))" for a
      by (cases "vs = []"; simp add: min.assoc min.left_commute max.assoc max.left_commute min.commute max.commute)+
    ultimately show ?case using Cons.IH[of "add_stat v st"] by (simp add: add_stat_def)
  qed simp
  note fold = this[of no_stats]
  have "Min (insert (- 1) (set vs)) = Min (set vs)" "Max (insert 0 (set vs)) = Max (set vs)"
    using assms by (simp_all add: min_def max_def word_order.extremum_unique)
  moreover have "st_min no_stats = - 1" "st_max no_stats = 0" "st_sum no_stats = 0" by (simp_all add: no_stats_def)
  ultimately show ?thesis using fold unfolding summary_of_def by (simp only: add_0 simp_thms)
qed

lemma summarise_spec:
  assumes "length xs = 20"
  shows "summarise xs = Some (fold add_stat (map lat_irq xs) no_stats, fold add_stat (map lat_sched xs) no_stats,
    fold add_stat (map t_exec xs) no_stats, fold add_stat (map resp_end_to_end xs) no_stats)"
proof -
  let ?st = "\<lambda>j. (fold add_stat (map lat_irq (take j xs)) no_stats, fold add_stat (map lat_sched (take j xs)) no_stats,
    fold add_stat (map t_exec (take j xs)) no_stats, fold add_stat (map resp_end_to_end (take j xs)) no_stats)"
  have "\<exists>t. summarise xs = Some t \<and> t = ?st num_samples"
    unfolding summarise_def
    by (rule for_loop_rule[where P = "\<lambda>j t. t = ?st j"])
      (auto simp: num_samples_def assms take_Suc_conv_app_nth)
  then show ?thesis using assms by (simp add: num_samples_def)
qed

lemma average_exact:
  assumes "summary_of vs st" "sum_list (map unat vs) < 2 ^ 32"
  shows "unat (average st) = sum_list (map unat vs) div 20"
proof -
  have "unat (sum_list vs) = sum_list (map unat vs)" if "sum_list (map unat vs) < 2 ^ 32" for vs :: "ee_u32 list"
    using that
  proof (induction vs)
    case (Cons v vs)
    then show ?case by (simp add: unat_word_ariths)
  qed simp
  with assms show ?thesis by (simp add: average_def num_samples_def unat_div summary_of_def)
qed

lemma timing_report_ok: "list_all piece_ok (timing_report st)"
proof -
  have lit: "0 \<notin> set (bytes (nl @ ''================ TIMING MEASUREMENT SUMMARY ================'' @ nl))"
    "0 \<notin> set (bytes (''Samples: 20'' @ nl))" "0 \<notin> set (bytes (nl @ ''[TIMING_JSON_START]'' @ nl))" "0 \<notin> set (bytes (''{'' @ nl))"
    "0 \<notin> set (bytes (''  '' @ [CHR 0x22] @ ''samples'' @ [CHR 0x22] @ '': 20,'' @ nl))" "0 \<notin> set (bytes (''}'' @ nl))"
    "0 \<notin> set (bytes (''[TIMING_JSON_END]'' @ nl))" "0 \<notin> set (bytes (nl @ ''[TIMING] ALL STAGE 4 MEASUREMENTS COMPLETE!'' @ nl))"
    "0 \<notin> set (bytes '' max='')" "0 \<notin> set (bytes '' avg='')"
    by code_simp+
  have line: "list_all piece_ok (stat_line name st)" if "0 \<notin> set (bytes (name @ '': min=''))" for name st
    using that lit(9,10) unfolding stat_line_def by (simp only: list.pred_inject piece_ok.simps simp_thms)
  have json: "list_all piece_ok (json_line name st close)"
    if "0 \<notin> set (bytes (''  '' @ [CHR 0x22] @ name @ [CHR 0x22] @ '': {'' @ [CHR 0x22] @ ''min'' @ [CHR 0x22] @ '': ''))"
      "0 \<notin> set (bytes (close @ nl))" for name st close
  proof -
    have "0 \<notin> set (bytes ('', '' @ [CHR 0x22] @ ''max'' @ [CHR 0x22] @ '': ''))"
      "0 \<notin> set (bytes ('', '' @ [CHR 0x22] @ ''avg'' @ [CHR 0x22] @ '': ''))" by code_simp+
    with that show ?thesis unfolding json_line_def by (simp only: list.pred_inject piece_ok.simps simp_thms)
  qed
  show ?thesis
    unfolding timing_report_def case_prod_unfold list_all_append list.pred_inject piece_ok.simps
    by (intro conjI line json lit TrueI; code_simp)
qed

section \<open>What the program shows\<close>

lemma timing_can_finish:
  assumes ok: "notify_ok N noted" "noted w = 0" "noted m = 0"
    and steps: "(timing_step N False)\<^sup>*\<^sup>* (timing_start w m) s"
  shows "\<exists>s'. (timing_step N False)\<^sup>*\<^sup>* s s' \<and> master s' = M_Report"
  using steps
proof (induction "left noted s" arbitrary: s rule: less_induct)
  case less
  note inv = timing_reachable[where noted = noted, OF ok less.prems]
  show ?case
  proof (cases "master s = M_Report")
    case False
    then obtain s' where s': "timing_step N False s s'" "left noted s' < left noted s"
      using timing_progress[OF ok(1)] inv by blast
    then have "(timing_step N False)\<^sup>*\<^sup>* (timing_start w m) s'" using less.prems by simp
    from less.hyps[OF s'(2) this] show ?thesis using s'(1) by (meson converse_rtranclp_into_rtranclp)
  qed blast
qed

lemma timing_finish_said:
  assumes "length xs = 20"
  shows "\<exists>st b'. summarise xs = Some st \<and> said b (timing_report st) b' \<and> timing_finish busy xs b = Some (sim_pass b')"
proof -
  obtain st where st: "summarise xs = Some st" using summarise_spec[OF assms] by blast
  obtain b' where "say busy (timing_report st) b = Some b'" "said b (timing_report st) b'"
    using say_said[OF timing_report_ok] by blast
  with st show ?thesis unfolding timing_finish_def by auto
qed




section \<open>Examples\<close>



lemma unat_12: "unat (w :: ee_u32) = 12 \<Longrightarrow> w = 12"
  by (simp add: word_unat_eq_iff)

definition ramp :: "sample list" where
  "ramp = map (\<lambda>i. zero_sample\<lparr>lat_irq := of_nat i, resp_end_to_end := of_nat (2 * i)\<rparr>) [3..<23]"


end
