(* ===== verification/Rtos_Smoke.thy ===== *)
theory Rtos_Smoke
  imports Rtos_Kernel
begin

text \<open>
  The functionality test \<^verbatim>\<open>rtos/app/test_smoke.c\<close>: a master task creates the tasks of each phase, waits for
  them to do their part and reports what they left in the shared variables.

  Every task is a step function.  A schedule is a list of actions (a task makes a step, the timer ticks, a
  wait of the synchronisation task runs out); a step needs a task that no ready task of a higher
  priority keeps from running.  What the program prints is kept as the list of its console calls.
\<close>

section \<open>State\<close>

datatype actor = Master | Sync | Reg | High | Low | Ping | Pong

datatype a_label = A_Start | A_Low | A_High | A_Preempted | A_Regs | A_Regs_Done | A_Sync | A_Give_Binary | A_Send
  | A_Give_Counting | A_Notify | A_Queue_Done | A_Sem_Done | A_Delay | A_Delayed | A_Delay_Done | A_Memory
  | A_Ping | A_Pong | A_Ping_Pong_Done | A_Passed | A_Spins | A_Nap nat a_label

datatype y_label = Y_Take | Y_Receive | Y_Fifo | Y_Count | Y_Tokens | Y_Note | Y_Delete
datatype reg_label = R_Load | R_Check
datatype h_label = H_Start | H_Woken

text \<open>The variables of the file, the locals of the tasks, where each task is, and what has been printed.\<close>

record ('q, 's, 'n) smoke =
  xTestQueue :: 'q
  xBinarySem :: 's
  xCountingSem :: 's
  sync_notes :: 'n
  g_phase2_preempt_done :: ee_s32
  g_phase3_reg_ok :: ee_s32
  g_phase4_queue_ok :: ee_s32
  g_phase5_sem_ok :: ee_s32
  g_phase7_memory_ok :: ee_s32
  g_phase8_pingpong_done :: ee_s32
  g_lp_counter :: ee_s32
  g_hp_preempt_verified :: ee_s32
  g_ping_count :: ee_s32
  g_pong_count :: ee_s32
  malloc_failures :: ee_u32
  a_i :: nat
  t1 :: ticks
  delay_ok :: bool
  y_i :: nat
  fifo_ok :: bool
  y_tokens :: ee_s32
  saved :: "ee_u32 list"
  ping_i :: nat
  pong_i :: nat
  master :: "a_label thread"
  sync :: "y_label thread"
  reg :: "reg_label thread"
  high :: "h_label thread"
  low :: "unit thread"
  ping :: "unit thread"
  pong :: "unit thread"
  tick :: nat
  printed :: "piece list"
  tohost_word :: "ee_u32 option"

text \<open>What else of the kernel the test depends on: whether a task can be created, what a context switch makes
  of the registers, whether the heap has a block of a size, and how much stack was left.\<close>

record env =
  creates :: "actor \<Rightarrow> bool"
  context_switch :: "ee_u32 list \<Rightarrow> ee_u32 list"
  pvPortMalloc :: "ee_u32 \<Rightarrow> bool"
  stack_high_water :: ee_u32

definition test_queue_len :: nat where
  "test_queue_len = 4"

definition ping_pong_cycles :: nat where
  "ping_pong_cycles = 20"

abbreviation now :: "('q, 's, 'n) smoke \<Rightarrow> ticks" where
  "now s \<equiv> of_nat (tick s)"

definition prints :: "('q, 's, 'n) smoke \<Rightarrow> piece list \<Rightarrow> ('q, 's, 'n) smoke" where
  "prints s ps = s\<lparr>printed := printed s @ ps\<rparr>"

lemma smoke_prints [simp]:
  "xTestQueue (prints s ps) = xTestQueue s" "xBinarySem (prints s ps) = xBinarySem s"
  "xCountingSem (prints s ps) = xCountingSem s" "sync_notes (prints s ps) = sync_notes s"
  "g_phase2_preempt_done (prints s ps) = g_phase2_preempt_done s" "g_phase3_reg_ok (prints s ps) = g_phase3_reg_ok s"
  "g_phase4_queue_ok (prints s ps) = g_phase4_queue_ok s" "g_phase5_sem_ok (prints s ps) = g_phase5_sem_ok s"
  "g_phase7_memory_ok (prints s ps) = g_phase7_memory_ok s"
  "g_phase8_pingpong_done (prints s ps) = g_phase8_pingpong_done s" "g_lp_counter (prints s ps) = g_lp_counter s"
  "g_hp_preempt_verified (prints s ps) = g_hp_preempt_verified s" "g_ping_count (prints s ps) = g_ping_count s"
  "g_pong_count (prints s ps) = g_pong_count s" "malloc_failures (prints s ps) = malloc_failures s"
  "a_i (prints s ps) = a_i s" "t1 (prints s ps) = t1 s" "delay_ok (prints s ps) = delay_ok s"
  "y_i (prints s ps) = y_i s" "fifo_ok (prints s ps) = fifo_ok s" "y_tokens (prints s ps) = y_tokens s"
  "saved (prints s ps) = saved s" "ping_i (prints s ps) = ping_i s" "pong_i (prints s ps) = pong_i s"
  "master (prints s ps) = master s" "sync (prints s ps) = sync s" "reg (prints s ps) = reg s"
  "high (prints s ps) = high s" "low (prints s ps) = low s" "ping (prints s ps) = ping s" "pong (prints s ps) = pong s"
  "tick (prints s ps) = tick s" "tohost_word (prints s ps) = tohost_word s"
  by (simp_all add: prints_def)

section \<open>Tasks\<close>

definition report_test :: "string \<Rightarrow> bool \<Rightarrow> a_label \<Rightarrow> ('q, 's, 'n) smoke \<Rightarrow> ('q, 's, 'n) smoke" where
  "report_test name pass next s = (let s = prints s [Puts ''[TEST] '', Puts name] in
     if pass then (prints s [Puts ('': PASS'' @ nl)])\<lparr>master := Run next\<rparr>
     else (prints s [Puts ('': FAIL'' @ nl)])\<lparr>tohost_word := Some 2, master := Run A_Spins\<rparr>)"

text \<open>\<open>vSyncTask\<close>; the second function is the end of a wait whose time runs out.\<close>

fun sync_at :: "('q, 's) kernel \<Rightarrow> 'n notifier \<Rightarrow> y_label \<Rightarrow> ('q, 's, 'n) smoke \<Rightarrow> ('q, 's, 'n) smoke option" where
  "sync_at K N Y_Take s = (case xSemaphoreTake K (xBinarySem s) of None \<Rightarrow> None
       | Some x \<Rightarrow> Some ((prints s [Puts (''  - binary sem ok'' @ nl)])\<lparr>xBinarySem := x,
           g_phase5_sem_ok := g_phase5_sem_ok s + 1, y_i := 0, fifo_ok := True, sync := Run Y_Receive\<rparr>))"
| "sync_at K N Y_Receive s = (if y_i s < test_queue_len then
         (case xQueueReceive K (xTestQueue s) of None \<Rightarrow> None
         | Some (val, q) \<Rightarrow> Some (s\<lparr>xTestQueue := q, fifo_ok := (if val \<noteq> 100 + of_nat (y_i s) then False else fifo_ok s),
             y_i := y_i s + 1\<rparr>))
       else Some (s\<lparr>sync := Run Y_Fifo\<rparr>))"
| "sync_at K N Y_Fifo s = Some (if fifo_ok s
       then (prints s [Puts (''  - queue ok'' @ nl)])\<lparr>g_phase4_queue_ok := 1, y_tokens := 0, sync := Run Y_Count\<rparr>
       else (prints s [Puts (''  - queue failed'' @ nl)])\<lparr>y_tokens := 0, sync := Run Y_Count\<rparr>)"
| "sync_at K N Y_Count s = (case xSemaphoreTake K (xCountingSem s) of
         Some x \<Rightarrow> Some (s\<lparr>xCountingSem := x, y_tokens := y_tokens s + 1\<rparr>)
       | None \<Rightarrow> Some (s\<lparr>sync := Run Y_Tokens\<rparr>))"
| "sync_at K N Y_Tokens s = Some (if y_tokens s = 3
       then (prints s [Puts (''  - counting sem ok'' @ nl)])\<lparr>g_phase5_sem_ok := g_phase5_sem_ok s + 1, sync := Run Y_Note\<rparr>
       else (prints s [Puts ''  - counting sem failed, tokens='', Putdec (y_tokens s), Putc 10])\<lparr>sync := Run Y_Note\<rparr>)"
| "sync_at K N Y_Note s = (case notify_take N (sync_notes s) of None \<Rightarrow> None
       | Some (note_val, n) \<Rightarrow> Some (if note_val \<ge> 1
           then (prints s [Puts (''  - notify ok'' @ nl)])\<lparr>sync_notes := n, g_phase5_sem_ok := g_phase5_sem_ok s + 1, sync := Run Y_Delete\<rparr>
           else (prints s [Puts ''  - notify failed, val='', Putdec note_val, Putc 10])\<lparr>sync_notes := n, sync := Run Y_Delete\<rparr>))"
| "sync_at K N Y_Delete s = Some (s\<lparr>sync := Gone\<rparr>)"

fun_cases sync_atE: "sync_at K N l s = Some s'"

definition sync_step :: "('q, 's) kernel \<Rightarrow> 'n notifier \<Rightarrow> ('q, 's, 'n) smoke \<Rightarrow> ('q, 's, 'n) smoke option" where
  "sync_step K N s = (case sync s of Run l \<Rightarrow> sync_at K N l s | _ \<Rightarrow> None)"

definition sync_expires :: "('q, 's) kernel \<Rightarrow> 'n notifier \<Rightarrow> ('q, 's, 'n) smoke \<Rightarrow> ('q, 's, 'n) smoke option" where
  "sync_expires K N s = (case sync s of
     Run Y_Take \<Rightarrow> if xSemaphoreTake K (xBinarySem s) = None
       then Some ((prints s [Puts (''  - binary sem failed'' @ nl)])\<lparr>y_i := 0, fifo_ok := True, sync := Run Y_Receive\<rparr>) else None
   | Run Y_Receive \<Rightarrow> if y_i s < test_queue_len \<and> xQueueReceive K (xTestQueue s) = None
       then Some (s\<lparr>fifo_ok := False, y_i := y_i s + 1\<rparr>) else None
   | Run Y_Note \<Rightarrow> if notify_take N (sync_notes s) = None
       then Some ((prints s [Puts ''  - notify failed, val='', Putdec 0, Putc 10])\<lparr>sync := Run Y_Delete\<rparr>) else None
   | _ \<Rightarrow> None)"

text \<open>\<open>vRegCheckTask\<close>: \<open>saved\<close> are the registers \<open>s0\<close> to \<open>s11\<close> of the task while it sleeps.\<close>

definition reg_patterns :: "ee_u32 list" where
  "reg_patterns = [0x11111111, 0x22222222, 0x33333333, 0x44444444, 0x55555555, 0x66666666, 0x77777777, 0x88888888,
     0x99999999, 0xAAAAAAAA, 0xBBBBBBBB, 0xCCCCCCCC]"

definition reg_step :: "env \<Rightarrow> ('q, 's, 'n) smoke \<Rightarrow> ('q, 's, 'n) smoke option" where
  "reg_step E s = (case reg s of
     Run R_Load \<Rightarrow> Some (s\<lparr>saved := context_switch E reg_patterns, reg := Sleep (now s) (pd_ms_to_ticks 4) R_Check\<rparr>)
   | Run R_Check \<Rightarrow> Some (if saved s = reg_patterns then s\<lparr>g_phase3_reg_ok := 1, reg := Gone\<rparr>
       else (prints s [Puts (''[ERR] Register corruption detected!'' @ nl)])\<lparr>reg := Gone\<rparr>)
   | _ \<Rightarrow> None)"

text \<open>\<open>vHighPriorityTask\<close> and \<open>vLowPriorityTask\<close>.\<close>

definition high_step :: "('q, 's, 'n) smoke \<Rightarrow> ('q, 's, 'n) smoke option" where
  "high_step s = (case high s of
     Run H_Start \<Rightarrow> Some (s\<lparr>high := Sleep (now s) (pd_ms_to_ticks 2) H_Woken\<rparr>)
   | Run H_Woken \<Rightarrow> Some (s\<lparr>g_hp_preempt_verified :=
         (if 0 < sint (g_lp_counter s) \<and> sint (g_lp_counter s) < 1000000 then 1 else g_hp_preempt_verified s),
       g_phase2_preempt_done := 1, high := Gone\<rparr>)
   | _ \<Rightarrow> None)"

definition low_step :: "('q, 's, 'n) smoke \<Rightarrow> ('q, 's, 'n) smoke option" where
  "low_step s = (case low s of
     Run _ \<Rightarrow> Some (if g_phase2_preempt_done s = 0 then s\<lparr>g_lp_counter := g_lp_counter s + 1\<rparr> else s\<lparr>low := Gone\<rparr>)
   | _ \<Rightarrow> None)"

text \<open>\<open>vPingTask\<close> and \<open>vPongTask\<close>; \<open>taskYIELD()\<close> ends a step.\<close>

definition ping_step :: "('q, 's, 'n) smoke \<Rightarrow> ('q, 's, 'n) smoke option" where
  "ping_step s = (case ping s of
     Run _ \<Rightarrow> Some (if ping_i s < ping_pong_cycles then s\<lparr>g_ping_count := g_ping_count s + 1, ping_i := ping_i s + 1\<rparr>
       else s\<lparr>ping := Gone\<rparr>)
   | _ \<Rightarrow> None)"

definition pong_step :: "('q, 's, 'n) smoke \<Rightarrow> ('q, 's, 'n) smoke option" where
  "pong_step s = (case pong s of
     Run _ \<Rightarrow> Some (if pong_i s < ping_pong_cycles then s\<lparr>g_pong_count := g_pong_count s + 1, pong_i := pong_i s + 1\<rparr>
       else s\<lparr>g_phase8_pingpong_done := 1, pong := Gone\<rparr>)
   | _ \<Rightarrow> None)"

text \<open>\<open>pvPortMalloc\<close> as the master task calls it: without a block it runs the hook of the support package.\<close>

definition malloc :: "env \<Rightarrow> ee_u32 \<Rightarrow> ('q, 's, 'n) smoke \<Rightarrow> bool \<times> ('q, 's, 'n) smoke" where
  "malloc E n s = (if pvPortMalloc E n then (True, s)
     else (False, (prints s [Puts (''[HOOK] malloc failed'' @ nl)])\<lparr>malloc_failures := malloc_failures s + 1\<rparr>))"

abbreviation created :: "env \<Rightarrow> actor \<Rightarrow> 'l \<Rightarrow> 'l thread" where
  "created E a l \<equiv> (if creates E a then Run l else Absent)"

text \<open>\<open>vMasterTask\<close>.  The block that the memory test fills with \<open>0xA5\<close> is freed at once and not part of the
  state.\<close>

fun master_at :: "env \<Rightarrow> ('q, 's) kernel \<Rightarrow> 'n notifier \<Rightarrow> a_label \<Rightarrow> ('q, 's, 'n) smoke \<Rightarrow> ('q, 's, 'n) smoke option" where
  "master_at E K N A_Start s = Some (report_test ''Kernel Startup and Task Creation'' True A_Low
       (prints s [Puts (''[SMOKE] Master controller started'' @ nl)]))"
| "master_at E K N A_Low s = Some (s\<lparr>low := created E Low (), master := Run A_High\<rparr>)"
| "master_at E K N A_High s = Some (s\<lparr>high := created E High H_Start, master := Run (A_Nap 6 A_Preempted)\<rparr>)"
| "master_at E K N A_Preempted s = Some (report_test ''Priority Preemption'' (g_hp_preempt_verified s \<noteq> 0) A_Regs s)"
| "master_at E K N A_Regs s = Some (s\<lparr>reg := created E Reg R_Load, master := Run (A_Nap 6 A_Regs_Done)\<rparr>)"
| "master_at E K N A_Regs_Done s = Some (report_test ''Register State Preservation (s0-s11)'' (g_phase3_reg_ok s \<noteq> 0) A_Sync s)"
| "master_at E K N A_Sync s = Some (s\<lparr>sync := created E Sync Y_Take, master := Run A_Give_Binary\<rparr>)"
| "master_at E K N A_Give_Binary s = Some (s\<lparr>xBinarySem := (case xSemaphoreGive K (xBinarySem s) of None \<Rightarrow> xBinarySem s | Some x \<Rightarrow> x),
       a_i := 0, master := Run A_Send\<rparr>)"
| "master_at E K N A_Send s = (if a_i s < test_queue_len then
         (case xQueueSend K (xTestQueue s) (100 + of_nat (a_i s)) of None \<Rightarrow> None
         | Some q \<Rightarrow> Some (s\<lparr>xTestQueue := q, a_i := a_i s + 1\<rparr>))
       else Some (s\<lparr>a_i := 0, master := Run A_Give_Counting\<rparr>))"
| "master_at E K N A_Give_Counting s = Some (if a_i s < 3
       then s\<lparr>xCountingSem := (case xSemaphoreGive K (xCountingSem s) of None \<Rightarrow> xCountingSem s | Some x \<Rightarrow> x), a_i := a_i s + 1\<rparr>
       else s\<lparr>master := Run A_Notify\<rparr>)"
| "master_at E K N A_Notify s = Some (s\<lparr>sync_notes := (if creates E Sync then notify_give N (sync_notes s) else sync_notes s),
       master := Run (A_Nap 6 A_Queue_Done)\<rparr>)"
| "master_at E K N A_Queue_Done s = Some (report_test ''Queue FIFO Communication'' (g_phase4_queue_ok s \<noteq> 0) A_Sem_Done s)"
| "master_at E K N A_Sem_Done s = Some (report_test ''Semaphore and Notification Sync'' (g_phase5_sem_ok s = 3) A_Delay s)"
| "master_at E K N A_Delay s = Some (s\<lparr>t1 := now s, master := Run (A_Nap 10 A_Delayed)\<rparr>)"
| "master_at E K N A_Delayed s = Some (s\<lparr>delay_ok := (now s \<ge> t1 s + pd_ms_to_ticks 10), master := Run A_Delay_Done\<rparr>)"
| "master_at E K N A_Delay_Done s = Some (report_test ''Tick Progression and Task Delay'' (delay_ok s) A_Memory s)"
| "master_at E K N A_Memory s =
       (let (huge, s) = malloc E (1024 * 1024) s;
            malloc_safely_rejected = (\<not> huge \<and> 0 < malloc_failures s);
            (small_ok, s) = malloc E 64 s;
            stack_ok = (20 < stack_high_water E);
            ok = (malloc_safely_rejected \<and> small_ok \<and> stack_ok)
        in Some (report_test ''Heap and Stack Boundary Handling'' ok A_Ping
             (s\<lparr>g_phase7_memory_ok := (if ok then 1 else 0)\<rparr>)))"
| "master_at E K N A_Ping s = Some (s\<lparr>ping := created E Ping (), master := Run A_Pong\<rparr>)"
| "master_at E K N A_Pong s = Some (s\<lparr>pong := created E Pong (), master := Run (A_Nap 15 A_Ping_Pong_Done)\<rparr>)"
| "master_at E K N A_Ping_Pong_Done s = Some (report_test ''Repeated Rapid Task Switching''
       (g_ping_count s = of_nat ping_pong_cycles \<and> g_pong_count s = of_nat ping_pong_cycles) A_Passed s)"
| "master_at E K N A_Passed s = Some ((prints s [Puts (nl @ ''[SMOKE] ALL STAGE 2 TESTS PASSED SUCCESSFULLY!'' @ nl)])\<lparr>
       tohost_word := Some 1, master := Run A_Spins\<rparr>)"
| "master_at E K N A_Spins s = Some s"
| "master_at E K N (A_Nap ms l) s = Some (s\<lparr>master := Sleep (now s) (pd_ms_to_ticks ms) l\<rparr>)"

definition master_step :: "env \<Rightarrow> ('q, 's) kernel \<Rightarrow> 'n notifier \<Rightarrow> ('q, 's, 'n) smoke \<Rightarrow> ('q, 's, 'n) smoke option" where
  "master_step E K N s = (case master s of Run l \<Rightarrow> master_at E K N l s | _ \<Rightarrow> None)"

section \<open>Schedules\<close>

fun actor_step :: "env \<Rightarrow> ('q, 's) kernel \<Rightarrow> 'n notifier \<Rightarrow> actor \<Rightarrow> ('q, 's, 'n) smoke \<Rightarrow> ('q, 's, 'n) smoke option" where
  "actor_step E K N Master s = master_step E K N s"
| "actor_step E K N Sync s = sync_step K N s"
| "actor_step E K N Reg s = reg_step E s"
| "actor_step E K N High s = high_step s"
| "actor_step E K N Low s = low_step s"
| "actor_step E K N Ping s = ping_step s"
| "actor_step E K N Pong s = pong_step s"

fun priority :: "actor \<Rightarrow> nat" where
  "priority High = 3"
| "priority Low = 1"
| "priority _ = 2"

definition may_run :: "env \<Rightarrow> ('q, 's) kernel \<Rightarrow> 'n notifier \<Rightarrow> actor \<Rightarrow> ('q, 's, 'n) smoke \<Rightarrow> bool" where
  "may_run E K N a s \<longleftrightarrow>
     list_all (\<lambda>b. priority a < priority b \<longrightarrow> actor_step E K N b s = None) [Master, Sync, Reg, High, Low, Ping, Pong]"

definition smoke_tick :: "('q, 's) kernel \<Rightarrow> ('q, 's, 'n) smoke \<Rightarrow> ('q, 's, 'n) smoke" where
  "smoke_tick K s = (let t = tick s + 1; w = of_nat t in s\<lparr>tick := t, master := wake (delay_ends K) w (master s),
     reg := wake (delay_ends K) w (reg s), high := wake (delay_ends K) w (high s)\<rparr>)"

datatype action = Acts actor | Ticks | Expires

fun smoke_step :: "env \<Rightarrow> ('q, 's) kernel \<Rightarrow> 'n notifier \<Rightarrow> action \<Rightarrow> ('q, 's, 'n) smoke \<Rightarrow> ('q, 's, 'n) smoke option" where
  "smoke_step E K N (Acts a) s = (if may_run E K N a s then actor_step E K N a s else None)"
| "smoke_step E K N Ticks s = Some (smoke_tick K s)"
| "smoke_step E K N Expires s = sync_expires K N s"

fun smoke_run :: "env \<Rightarrow> ('q, 's) kernel \<Rightarrow> 'n notifier \<Rightarrow> action list \<Rightarrow> ('q, 's, 'n) smoke \<Rightarrow> ('q, 's, 'n) smoke option" where
  "smoke_run E K N [] s = Some s"
| "smoke_run E K N (x # xs) s = do { s \<leftarrow> smoke_step E K N x s; smoke_run E K N xs s }"

text \<open>\<open>main\<close>, up to the start of the scheduler.\<close>

definition smoke_start :: "env \<Rightarrow> 'q \<Rightarrow> 's \<Rightarrow> 's \<Rightarrow> 'n \<Rightarrow> ('q, 's, 'n) smoke" where
  "smoke_start E q b c n = \<lparr>xTestQueue = q, xBinarySem = b, xCountingSem = c, sync_notes = n,
     g_phase2_preempt_done = 0, g_phase3_reg_ok = 0, g_phase4_queue_ok = 0, g_phase5_sem_ok = 0, g_phase7_memory_ok = 0,
     g_phase8_pingpong_done = 0, g_lp_counter = 0, g_hp_preempt_verified = 0, g_ping_count = 0, g_pong_count = 0,
     malloc_failures = 0, a_i = 0, t1 = 0, delay_ok = True, y_i = 0, fifo_ok = True, y_tokens = 0, saved = [], ping_i = 0, pong_i = 0,
     master = (if creates E Master then Run A_Start else Absent), sync = Absent, reg = Absent, high = Absent, low = Absent, ping = Absent, pong = Absent,
     tick = 0, printed = [], tohost_word = None\<rparr>"

definition smoke_main :: "(nat \<Rightarrow> nat) \<Rightarrow> env \<Rightarrow> ('q, 's) kernel \<Rightarrow> 'n \<Rightarrow> bool \<Rightarrow> ee_u8 list \<Rightarrow> board \<Rightarrow> (fate + board \<times> ('q, 's, 'n) smoke) option" where
  "smoke_main busy E K n starts file b = do {
     b \<leftarrow> say busy [Puts (''[BOOT] FreeRTOS Smoke Test Suite'' @ nl)] (uart_init b);
     let q = xQueueCreate K test_queue_len;
     let bin = xSemaphoreCreateBinary K;
     let cnt = xSemaphoreCreateCounting K 5 0;
     case q of None \<Rightarrow> map_option Inl (vAssertCalled busy file 371 b) | Some q \<Rightarrow>
     case bin of None \<Rightarrow> map_option Inl (vAssertCalled busy file 372 b) | Some bin \<Rightarrow>
     case cnt of None \<Rightarrow> map_option Inl (vAssertCalled busy file 373 b) | Some cnt \<Rightarrow>
     if starts then Some (Inr (b, smoke_start E q bin cnt n))
     else do {
       b \<leftarrow> say busy [Puts (''[FATAL] Scheduler exited unexpectedly'' @ nl)] b;
       Some (Inl (sim_fail b)) } }"

end
