(* ===== verification/Smoke_Spec.thy ===== *)
theory Smoke_Spec
  imports Rtos_Smoke
begin

text \<open>What the functionality test of \<^verbatim>\<open>Rtos_Smoke\<close> checks, for every schedule.\<close>

section \<open>Where the master is\<close>

fun rank :: "a_label \<Rightarrow> nat" where
  "rank A_Start = 0"
| "rank A_Low = 1"
| "rank A_High = 2"
| "rank A_Preempted = 3"
| "rank A_Regs = 4"
| "rank A_Regs_Done = 5"
| "rank A_Sync = 6"
| "rank A_Give_Binary = 7"
| "rank A_Send = 8"
| "rank A_Give_Counting = 9"
| "rank A_Notify = 10"
| "rank A_Queue_Done = 11"
| "rank A_Sem_Done = 12"
| "rank A_Delay = 13"
| "rank A_Delayed = 14"
| "rank A_Delay_Done = 15"
| "rank A_Memory = 16"
| "rank A_Ping = 17"
| "rank A_Pong = 18"
| "rank A_Ping_Pong_Done = 19"
| "rank A_Passed = 20"
| "rank A_Spins = 21"
| "rank (A_Nap ms l) = rank l"

fun place :: "a_label thread \<Rightarrow> nat" where
  "place Absent = 0"
| "place (Run l) = rank l"
| "place (Sleep since d l) = rank l"
| "place Gone = 21"

lemma place_wake [simp]: "place (wake ends w t) = place t"
  by (cases t) auto

lemmas task_steps = reg_step_def high_step_def low_step_def ping_step_def pong_step_def

lemmas task_splits = thread.splits reg_label.splits h_label.splits option.splits prod.splits if_splits

text \<open>What a report and an allocation leave alone.\<close>

lemma report_test_fields [simp]:
  "master (report_test name pass l s) = Run (if pass then l else A_Spins)"
  "tohost_word (report_test name pass l s) = (if pass then tohost_word s else Some 2)"
  "xTestQueue (report_test name pass l s) = xTestQueue s" "a_i (report_test name pass l s) = a_i s"
  "y_i (report_test name pass l s) = y_i s" "fifo_ok (report_test name pass l s) = fifo_ok s"
  "g_hp_preempt_verified (report_test name pass l s) = g_hp_preempt_verified s"
  "g_phase3_reg_ok (report_test name pass l s) = g_phase3_reg_ok s"
  "g_phase4_queue_ok (report_test name pass l s) = g_phase4_queue_ok s"
  "g_phase5_sem_ok (report_test name pass l s) = g_phase5_sem_ok s"
  "g_ping_count (report_test name pass l s) = g_ping_count s" "g_pong_count (report_test name pass l s) = g_pong_count s"
  "ping_i (report_test name pass l s) = ping_i s" "pong_i (report_test name pass l s) = pong_i s"
  "tick (report_test name pass l s) = tick s" "t1 (report_test name pass l s) = t1 s" "delay_ok (report_test name pass l s) = delay_ok s"
  "sync (report_test name pass l s) = sync s" "reg (report_test name pass l s) = reg s" "saved (report_test name pass l s) = saved s"
  by (simp_all add: report_test_def Let_def)

lemmas master_defs = malloc_def Let_def

lemma master_stepE:
  assumes "master_step E K N s = Some s'"
  obtains l where "master s = Run l" "master_at E K N l s = Some s'"
  using assms by (auto simp: master_step_def split: thread.splits)

lemma sync_stepE:
  assumes "sync_step K N s = Some s'"
  obtains l where "sync s = Run l" "sync_at K N l s = Some s'"
  using assms by (auto simp: sync_step_def split: thread.splits)

section \<open>The queue\<close>

text \<open>The master has sent \<open>n\<close> items, of which the synchronisation task has received \<open>r\<close>.\<close>

fun received :: "y_label thread \<Rightarrow> nat \<Rightarrow> nat \<Rightarrow> bool" where
  "received Absent i r \<longleftrightarrow> r = 0"
| "received (Run Y_Take) i r \<longleftrightarrow> r = 0"
| "received (Run Y_Receive) i r \<longleftrightarrow> r = i"
| "received (Sleep since d l) i r \<longleftrightarrow> False"
| "received _ i r \<longleftrightarrow> r = 4"

fun checked :: "y_label thread \<Rightarrow> bool" where
  "checked Absent \<longleftrightarrow> False"
| "checked (Run Y_Take) \<longleftrightarrow> False"
| "checked (Run Y_Receive) \<longleftrightarrow> False"
| "checked (Run Y_Fifo) \<longleftrightarrow> False"
| "checked _ \<longleftrightarrow> True"

definition sent :: "nat \<Rightarrow> nat \<Rightarrow> nat \<Rightarrow> bool" where
  "sent p i n \<longleftrightarrow> n \<le> 4 \<and> (p \<le> 7 \<longrightarrow> n = 0) \<and> (p = 8 \<longrightarrow> n = i) \<and> (9 \<le> p \<and> p \<le> 20 \<longrightarrow> n = 4)"

definition flow :: "('q \<Rightarrow> ee_s32 list) \<Rightarrow> ('q \<Rightarrow> nat) \<Rightarrow> nat \<Rightarrow> nat \<Rightarrow> ('q, 's, 'n) smoke \<Rightarrow> bool" where
  "flow items room n r s \<longleftrightarrow> sent (place (master s)) (a_i s) n \<and> received (sync s) (y_i s) r \<and> r \<le> n \<and>
     items (xTestQueue s) = map (\<lambda>j. 100 + of_nat j) [r..<n] \<and> room (xTestQueue s) = 4 \<and>
     fifo_ok s \<and> (place (master s) \<le> 6 \<longrightarrow> sync s = Absent) \<and> (checked (sync s) \<longrightarrow> g_phase4_queue_ok s = 1)"

lemma other_flow:
  assumes "actor_step E K N a s = Some s'" "a \<noteq> Master" "a \<noteq> Sync"
  shows "xTestQueue s' = xTestQueue s \<and> master s' = master s \<and> sync s' = sync s \<and> a_i s' = a_i s \<and> y_i s' = y_i s \<and>
    fifo_ok s' = fifo_ok s \<and> g_phase4_queue_ok s' = g_phase4_queue_ok s \<and> g_phase5_sem_ok s' = g_phase5_sem_ok s \<and>
    tohost_word s' = tohost_word s \<and> g_phase7_memory_ok s' = g_phase7_memory_ok s \<and> delay_ok s' = delay_ok s \<and> t1 s' = t1 s \<and>
    tick s' = tick s"
  using assms by (cases a) (auto simp: task_steps split: task_splits)

lemma sync_flow:
  assumes ok: "queue_ok K items room" and step: "sync_step K N s = Some s'" and inv: "flow items room n r s"
  shows "\<exists>r'. flow items room n r' s'"
proof (cases "sync s = Run Y_Receive \<and> y_i s < 4")
  case True
  then obtain val q where q: "xQueueReceive K (xTestQueue s) = Some (val, q)"
    and s': "s' = s\<lparr>xTestQueue := q, fifo_ok := (if val \<noteq> 100 + of_nat (y_i s) then False else fifo_ok s), y_i := y_i s + 1\<rparr>"
    using step by (auto simp: sync_step_def test_queue_len_def split: option.splits)
  have it: "items (xTestQueue s) = val # items q" "room q = room (xTestQueue s)" using queue_cases(2)[OF ok q] by auto
  moreover have r: "r = y_i s" "items (xTestQueue s) = map (\<lambda>j. 100 + of_nat j) [r..<n]"
    using inv True by (auto simp: flow_def)
  ultimately have "r < n" by (cases "r < n") auto
  then have "[r..<n] = r # [Suc r..<n]" by (rule upt_conv_Cons)
  then have "val = 100 + of_nat r" "items q = map (\<lambda>j. 100 + of_nat j) [Suc r..<n]" using it(1) r(2) by simp_all
  then have "flow items room n (Suc r) s'"
    using inv True r(1) \<open>r < n\<close> it(2) unfolding s' flow_def by auto
  then show ?thesis by blast
next
  case False
  obtain l where l: "sync s = Run l" "sync_at K N l s = Some s'" using step by (rule sync_stepE)
  have n: "n \<le> 4" "r \<le> n" "received (Run l) (y_i s) r" "checked (Run l) \<longrightarrow> g_phase4_queue_ok s = 1" "fifo_ok s"
    using inv l(1) by (auto simp: flow_def sent_def)
  have "xTestQueue s' = xTestQueue s \<and> master s' = master s \<and> a_i s' = a_i s \<and> fifo_ok s' \<and> received (sync s') (y_i s') r \<and>
      (checked (sync s') \<longrightarrow> g_phase4_queue_ok s' = 1)"
    using n False l by (cases l) (auto simp: test_queue_len_def split: option.splits if_splits)
  then have "flow items room n r s'" using inv l(1) unfolding flow_def by auto
  then show ?thesis by blast
qed

lemma master_frame:
  assumes "master_step E K N s = Some s'"
  shows "y_i s' = y_i s \<and> fifo_ok s' = fifo_ok s \<and> g_phase4_queue_ok s' = g_phase4_queue_ok s \<and>
    g_phase5_sem_ok s' = g_phase5_sem_ok s \<and> g_phase3_reg_ok s' = g_phase3_reg_ok s \<and>
    g_hp_preempt_verified s' = g_hp_preempt_verified s \<and> g_ping_count s' = g_ping_count s \<and> g_pong_count s' = g_pong_count s \<and>
    ping_i s' = ping_i s \<and> pong_i s' = pong_i s \<and> tick s' = tick s"
proof -
  obtain l where "master s = Run l" "master_at E K N l s = Some s'" using assms by (rule master_stepE)
  then show ?thesis by (cases l; auto simp: master_defs split: option.splits if_splits)
qed

lemma master_sync:
  assumes "master_step E K N s = Some s'"
  shows "sync s' = sync s \<or> master s = Run A_Sync \<and> master s' = Run A_Give_Binary \<and> (sync s' = Absent \<or> sync s' = Run Y_Take)"
proof -
  obtain l where "master s = Run l" "master_at E K N l s = Some s'" using assms by (rule master_stepE)
  then show ?thesis by (cases l; auto simp: master_defs split: option.splits if_splits)
qed

lemma master_moves:
  assumes "master_step E K N s = Some s'" "master s \<noteq> Run A_Send \<or> \<not> a_i s < 4"
  shows "xTestQueue s' = xTestQueue s" "sent (place (master s)) (a_i s) n \<Longrightarrow> sent (place (master s')) (a_i s') n"
    "place (master s) \<le> place (master s')"
proof -
  obtain l where l: "master s = Run l" "master_at E K N l s = Some s'" using assms(1) by (rule master_stepE)
  show "xTestQueue s' = xTestQueue s" "place (master s) \<le> place (master s')"
    using l assms(2) by (cases l; auto simp: master_defs test_queue_len_def split: option.splits if_splits)+
  show "sent (place (master s)) (a_i s) n \<Longrightarrow> sent (place (master s')) (a_i s') n"
    using l assms(2) by (cases l; auto simp: master_defs test_queue_len_def sent_def split: option.splits if_splits)
qed

lemma master_flow:
  assumes ok: "queue_ok K items room" and step: "master_step E K N s = Some s'" and inv: "flow items room n r s"
  shows "\<exists>n'. flow items room n' r s'"
proof (cases "master s = Run A_Send \<and> a_i s < 4")
  case True
  then obtain q where q: "xQueueSend K (xTestQueue s) (100 + of_nat (a_i s)) = Some q"
    and s': "s' = s\<lparr>xTestQueue := q, a_i := a_i s + 1\<rparr>"
    using step by (auto simp: master_step_def test_queue_len_def split: option.splits)
  have n: "n = a_i s" "r \<le> n" using inv True by (auto simp: flow_def sent_def)
  then have "[r..<Suc n] = [r..<n] @ [n]" by simp
  then have "flow items room (Suc n) r s'"
    using inv True n queue_cases(4)[OF ok q] unfolding s' flow_def sent_def by auto
  then show ?thesis by blast
next
  case False
  then have m: "master s \<noteq> Run A_Send \<or> \<not> a_i s < 4" by simp
  note moves = master_moves[OF step m]
  have "received (sync s') (y_i s') r \<and> (place (master s') \<le> 6 \<longrightarrow> sync s' = Absent) \<and>
      (checked (sync s') \<longrightarrow> g_phase4_queue_ok s' = 1)"
    using master_sync[OF step]
  proof (elim disjE conjE)
    assume "sync s' = sync s"
    then show ?thesis using inv moves(3) master_frame[OF step] by (auto simp: flow_def)
  next
    assume "master s = Run A_Sync" "master s' = Run A_Give_Binary" "sync s' = Absent"
    then show ?thesis using inv by (auto simp: flow_def)
  next
    assume "master s = Run A_Sync" "master s' = Run A_Give_Binary" "sync s' = Run Y_Take"
    then show ?thesis using inv by (auto simp: flow_def)
  qed
  then have "flow items room n r s'"
    using inv moves(1,2) master_frame[OF step] by (simp add: flow_def)
  then show ?thesis by blast
qed

lemma smoke_run_inv:
  assumes "smoke_run E K N xs s = Some s'" "P s"
    and "\<And>x s s'. x \<in> set xs \<Longrightarrow> P s \<Longrightarrow> smoke_step E K N x s = Some s' \<Longrightarrow> P s'"
  shows "P s'"
  using assms
proof (induction xs arbitrary: s)
  case (Cons x xs)
  then obtain t where "smoke_step E K N x s = Some t" "smoke_run E K N xs t = Some s'" by (auto split: bind_splits)
  with Cons show ?case by auto
qed simp

lemma smoke_flow:
  assumes ok: "queue_ok K items room" and q: "xQueueCreate K test_queue_len = Some q"
    and run: "smoke_run E K N xs (smoke_start E q b c n) = Some s" "Expires \<notin> set xs"
  shows "\<exists>n r. flow items room n r s"
proof (rule smoke_run_inv[OF run(1), where P = "\<lambda>s. \<exists>n r. flow items room n r s"])
  have "items q = []" "room q = 4" using ok q by (auto simp: queue_ok_def test_queue_len_def)
  then show "\<exists>n' r. flow items room n' r (smoke_start E q b c n)"
    by (intro exI[of _ 0]) (simp add: flow_def smoke_start_def sent_def)
next
  fix x s s' assume x: "x \<in> set xs" "\<exists>n r. flow items room n r s" "smoke_step E K N x s = Some s'"
  then obtain m r where inv: "flow items room m r s" by blast
  show "\<exists>n r. flow items room n r s'"
  proof (cases x)
    case (Acts a)
    then have step: "actor_step E K N a s = Some s'" using x(3) by (simp split: if_splits)
    consider "a = Master" | "a = Sync" | "a \<noteq> Master" "a \<noteq> Sync" by blast
    then show ?thesis
    proof cases
      case 3
      have "flow items room m r s'" using inv other_flow[OF step 3] unfolding flow_def by simp
      then show ?thesis by blast
    next
      case 1
      then obtain k where "flow items room k r s'" using step inv master_flow[OF ok] by fastforce
      then show ?thesis by blast
    next
      case 2
      then obtain k where "flow items room m k s'" using step inv sync_flow[OF ok] by fastforce
      then show ?thesis by blast
    qed
  next
    case Ticks
    then have "s' = smoke_tick K s" using x(3) by simp
    then have "flow items room m r s'" using inv by (auto simp: flow_def smoke_tick_def Let_def)
    then show ?thesis by blast
  next
    case Expires
    then show ?thesis using x(1) run(2) by simp
  qed
qed

section \<open>The delay\<close>

text \<open>The delay that the master measures: from \<open>n\<close>, the tick at \<open>t1\<close>, until it is due.\<close>

fun naps :: "a_label \<Rightarrow> bool" where
  "naps (A_Nap ms l) \<longleftrightarrow> True"
| "naps _ \<longleftrightarrow> False"

fun nap_run :: "a_label \<Rightarrow> ticks \<Rightarrow> nat \<Rightarrow> bool" where
  "nap_run (A_Nap ms l) t m \<longleftrightarrow> \<not> naps l \<and> (l = A_Delayed \<longrightarrow> ms = 10 \<and> (\<exists>n \<le> m. t = of_nat n))"
| "nap_run A_Delayed t m \<longleftrightarrow> (\<exists>n. n + 10 \<le> m \<and> t = of_nat n)"
| "nap_run _ t m \<longleftrightarrow> True"

definition asleep :: "ticks \<Rightarrow> ticks \<Rightarrow> ticks \<Rightarrow> nat \<Rightarrow> bool" where
  "asleep since d t m \<longleftrightarrow> d = 10 \<and> (\<exists>n j. n \<le> j \<and> j \<le> m \<and> t = of_nat n \<and> since = of_nat j)"

fun nap_ok :: "a_label thread \<Rightarrow> ticks \<Rightarrow> nat \<Rightarrow> bool" where
  "nap_ok (Run l) t m \<longleftrightarrow> nap_run l t m"
| "nap_ok (Sleep since d l) t m \<longleftrightarrow> \<not> naps l \<and> (l = A_Delayed \<longrightarrow> asleep since d t m)"
| "nap_ok _ t m \<longleftrightarrow> True"

lemma nap_run_other: "\<not> naps l \<Longrightarrow> l \<noteq> A_Delayed \<Longrightarrow> nap_run l t m"
  by (cases l) auto

lemma nap_run_later: "nap_run l t m \<Longrightarrow> nap_run l t (Suc m)"
proof (cases l)
  case A_Delayed
  assume "nap_run l t m"
  then obtain n where "n + 10 \<le> m" "t = of_nat n" using A_Delayed by auto
  then show ?thesis unfolding A_Delayed nap_run.simps by (intro exI[of _ n]) simp
qed (auto intro: le_SucI)

lemma nap_step:
  assumes step: "master_step E K N s = Some s'" and inv: "nap_ok (master s) (t1 s) (tick s)" "delay_ok s" and fits: "tick s < 2 ^ 32"
  shows "nap_ok (master s') (t1 s') (tick s') \<and> delay_ok s'"
proof -
  obtain l where l: "master s = Run l" "master_at E K N l s = Some s'" using step by (rule master_stepE)
  consider "l = A_Delayed" | ms l' where "l = A_Nap ms l'" | "l \<noteq> A_Delayed" "\<not> naps l" by (cases l) auto
  then show ?thesis
  proof cases
    case 1
    then obtain n where n: "n + 10 \<le> tick s" "t1 s = of_nat n" using inv l(1) by auto
    then have "(of_nat n :: ticks) + 10 \<le> of_nat (tick s)" using delay_passed[of n 10] fits by simp
    then show ?thesis using l 1 n by (auto simp: pd_ms_to_ticks_def)
  next
    case (2 ms l')
    then have "\<not> naps l'" "l' = A_Delayed \<longrightarrow> asleep (now s) (pd_ms_to_ticks ms) (t1 s) (tick s)"
      using inv(1) l(1) by (auto simp: asleep_def pd_ms_to_ticks_def)
    then show ?thesis using l inv(2) 2 by auto
  next
    case 3
    then show ?thesis using l inv by (cases l; auto simp: master_defs split: option.splits if_splits)
  qed
qed

lemma nap_tick:
  assumes ends: "\<And>since d now. delay_ends K since d now = (now = since + d)"
    and inv: "nap_ok t w m" and fits: "Suc m < 2 ^ 32"
  shows "nap_ok (wake (delay_ends K) (of_nat (Suc m)) t) w (Suc m)"
proof (cases t)
  case (Sleep since d l)
  show ?thesis
  proof (cases "l = A_Delayed")
    case True
    then obtain n j where j: "d = 10" "n \<le> j" "j \<le> m" "w = of_nat n" "since = of_nat j" using inv Sleep by (auto simp: asleep_def)
    have "n + 10 \<le> Suc m" if "of_nat (Suc m) = (of_nat j :: ticks) + 10"
      using delay_due[of m j 10] that j(2,3) fits by simp
    then have "of_nat (Suc m) = since + 10 \<Longrightarrow> nap_run A_Delayed w (Suc m)" using j(4,5) by auto
    moreover have "asleep since 10 w (Suc m)"
      unfolding asleep_def using j(2-5) by (intro conjI exI[of _ n] exI[of _ j]) auto
    ultimately show ?thesis unfolding Sleep True j(1) wake.simps ends by (simp del: nap_run.simps of_nat_Suc)
  next
    case False
    then show ?thesis using inv Sleep nap_run_other[of l] by simp
  qed
next
  case (Run l)
  then show ?thesis using inv nap_run_later by simp
qed simp_all

lemma delay_never_short:
  assumes ends: "\<And>since d now. delay_ends K since d now = (now = since + d)"
    and run: "smoke_run E K N xs (smoke_start E q b c n) = Some s" and fits: "tick s < 2 ^ 32"
  shows "delay_ok s"
proof -
  let ?P = "\<lambda>s. tick s < 2 ^ 32 \<longrightarrow> nap_ok (master s) (t1 s) (tick s) \<and> delay_ok s"
  have "?P s"
  proof (rule smoke_run_inv[OF run, where P = ?P])
    show "?P (smoke_start E q b c n)" by (simp add: smoke_start_def)
  next
    fix x s s' assume x: "?P s" "smoke_step E K N x s = Some s'"
    show "?P s'"
    proof (cases x)
      case (Acts a)
      then have step: "actor_step E K N a s = Some s'" using x(2) by (simp split: if_splits)
      show ?thesis
      proof (cases "a = Master")
        case True
        then have "master_step E K N s = Some s'" using step by simp
        moreover from this have "tick s' = tick s" using master_frame by blast
        ultimately show ?thesis using x(1) nap_step by metis
      next
        case False
        have "master s' = master s \<and> t1 s' = t1 s \<and> tick s' = tick s \<and> delay_ok s' = delay_ok s"
        proof (cases "a = Sync")
          case True
          then show ?thesis using step by (auto elim!: sync_stepE sync_atE split: option.splits if_splits)
        qed (use other_flow[OF step False] in blast)
        then show ?thesis using x(1) by simp
      qed
    next
      case Ticks
      then show ?thesis using x nap_tick[OF ends] by (auto simp: smoke_tick_def Let_def)
    next
      case Expires
      then have "master s' = master s \<and> t1 s' = t1 s \<and> tick s' = tick s \<and> delay_ok s' = delay_ok s"
        using x(2) by (auto simp: sync_expires_def split: task_splits y_label.splits)
      then show ?thesis using x(1) by simp
    qed
  qed
  then show ?thesis using fits by blast
qed

section \<open>The verdict\<close>

text \<open>How many marks the synchronisation task can still give.\<close>

fun marks_left :: "y_label thread \<Rightarrow> nat" where
  "marks_left Absent = 3"
| "marks_left (Run Y_Take) = 3"
| "marks_left (Run Y_Note) = 1"
| "marks_left (Run Y_Delete) = 0"
| "marks_left (Run _) = 2"
| "marks_left _ = 0"

fun reg_loaded :: "reg_label thread \<Rightarrow> bool" where
  "reg_loaded (Run R_Check) \<longleftrightarrow> True"
| "reg_loaded (Sleep since d l) \<longleftrightarrow> l = R_Check"
| "reg_loaded _ \<longleftrightarrow> False"

definition reported :: "env \<Rightarrow> nat \<Rightarrow> ('q, 's, 'n) smoke \<Rightarrow> bool" where
  "reported E p s \<longleftrightarrow> (3 < p \<longrightarrow> g_hp_preempt_verified s \<noteq> 0) \<and>
     (5 < p \<longrightarrow> g_phase3_reg_ok s \<noteq> 0) \<and>
     (11 < p \<longrightarrow> g_phase4_queue_ok s \<noteq> 0) \<and> (12 < p \<longrightarrow> g_phase5_sem_ok s = 3) \<and> (15 < p \<longrightarrow> delay_ok s) \<and>
     (16 < p \<longrightarrow> \<not> pvPortMalloc E (1024 * 1024) \<and> pvPortMalloc E 64 \<and> 20 < stack_high_water E) \<and>
     (19 < p \<longrightarrow> g_ping_count s = 20 \<and> g_pong_count s = 20)"

definition regs_ok :: "env \<Rightarrow> ('q, 's, 'n) smoke \<Rightarrow> bool" where
  "regs_ok E s \<longleftrightarrow> (g_phase3_reg_ok s \<noteq> 0 \<longrightarrow> context_switch E reg_patterns = reg_patterns) \<and>
     (reg_loaded (reg s) \<longrightarrow> saved s = context_switch E reg_patterns)"

definition pings_ok :: "('q, 's, 'n) smoke \<Rightarrow> bool" where
  "pings_ok s \<longleftrightarrow> g_ping_count s = of_nat (ping_i s) \<and> ping_i s \<le> 20 \<and> g_pong_count s = of_nat (pong_i s) \<and> pong_i s \<le> 20"

definition marks_ok :: "('q, 's, 'n) smoke \<Rightarrow> bool" where
  "marks_ok s \<longleftrightarrow> (\<exists>k. g_phase5_sem_ok s = of_nat k \<and> k + marks_left (sync s) \<le> 3)"

definition line_ok :: "('q, 's, 'n) smoke \<Rightarrow> bool" where
  "line_ok s \<longleftrightarrow> (place (master s) \<le> 6 \<longrightarrow> sync s = Absent) \<and>
     (place (master s) = 21 \<longleftrightarrow> tohost_word s \<noteq> None) \<and> place (master s) \<le> 21"

definition judged :: "env \<Rightarrow> ('q, 's, 'n) smoke \<Rightarrow> bool" where
  "judged E s \<longleftrightarrow> regs_ok E s \<and> pings_ok s \<and> marks_ok s \<and> line_ok s \<and>
     (tohost_word s \<noteq> Some 2 \<longrightarrow> reported E (place (master s)) s)"

text \<open>The flags are never taken back.\<close>

definition kept :: "('q, 's, 'n) smoke \<Rightarrow> ('q, 's, 'n) smoke \<Rightarrow> bool" where
  "kept s s' \<longleftrightarrow> (g_hp_preempt_verified s \<noteq> 0 \<longrightarrow> g_hp_preempt_verified s' \<noteq> 0) \<and>
     (g_phase3_reg_ok s \<noteq> 0 \<longrightarrow> g_phase3_reg_ok s' \<noteq> 0) \<and> (g_phase4_queue_ok s \<noteq> 0 \<longrightarrow> g_phase4_queue_ok s' \<noteq> 0) \<and>
     (g_phase5_sem_ok s = 3 \<longrightarrow> g_phase5_sem_ok s' = 3) \<and> (delay_ok s \<longrightarrow> delay_ok s') \<and>
     (g_ping_count s = 20 \<longrightarrow> g_ping_count s' = 20) \<and> (g_pong_count s = 20 \<longrightarrow> g_pong_count s' = 20)"

lemma reported_kept: "kept s s' \<Longrightarrow> reported E p s \<Longrightarrow> reported E p s'"
  unfolding kept_def reported_def by blast

lemma three_marks: "of_nat k = (3 :: ee_s32) \<Longrightarrow> k \<le> 3 \<Longrightarrow> k = 3"
  by (cases "k \<in> {0, 1, 2}") auto

lemma twenty:
  assumes "of_nat k = (20 :: ee_s32)" "k \<le> 20"
  shows "k = 20"
proof -
  have "unat (of_nat k :: ee_s32) = k" using assms(2) by (simp add: unsigned_of_nat take_bit_eq_mod)
  then show ?thesis unfolding assms(1) by simp
qed

lemma pings_kept:
  assumes "pings_ok s" "pings_ok s'" "ping_i s \<le> ping_i s'" "pong_i s \<le> pong_i s'"
  shows "(g_ping_count s = 20 \<longrightarrow> g_ping_count s' = 20) \<and> (g_pong_count s = 20 \<longrightarrow> g_pong_count s' = 20)"
proof (intro conjI impI)
  assume "g_ping_count s = 20"
  then have "ping_i s = 20" using assms(1) twenty unfolding pings_ok_def by auto
  then show "g_ping_count s' = 20" using assms(2,3) unfolding pings_ok_def by auto
next
  assume "g_pong_count s = 20"
  then have "pong_i s = 20" using assms(1) twenty unfolding pings_ok_def by auto
  then show "g_pong_count s' = 20" using assms(2,4) unfolding pings_ok_def by auto
qed

lemma judged_other:
  assumes step: "actor_step E K N a s = Some s'" and a: "a \<noteq> Master" "a \<noteq> Sync" and inv: "judged E s"
  shows "judged E s'"
proof -
  note same = other_flow[OF step a]
  have "regs_ok E s" "pings_ok s" using inv by (simp_all add: judged_def)
  have regs: "regs_ok E s'"
    using step a \<open>regs_ok E s\<close> by (cases a; auto simp: regs_ok_def task_steps split: task_splits)
  have pings: "pings_ok s' \<and> ping_i s \<le> ping_i s' \<and> pong_i s \<le> pong_i s'"
    using step a \<open>pings_ok s\<close> by (cases a; auto simp: pings_ok_def task_steps ping_pong_cycles_def split: task_splits)
  have "(g_hp_preempt_verified s \<noteq> 0 \<longrightarrow> g_hp_preempt_verified s' \<noteq> 0) \<and> (g_phase3_reg_ok s \<noteq> 0 \<longrightarrow> g_phase3_reg_ok s' \<noteq> 0)"
    using step a by (cases a; auto simp: task_steps split: task_splits)
  moreover have "(g_ping_count s = 20 \<longrightarrow> g_ping_count s' = 20) \<and> (g_pong_count s = 20 \<longrightarrow> g_pong_count s' = 20)"
    using pings_kept[OF \<open>pings_ok s\<close>] pings by blast
  ultimately have "kept s s'" using same unfolding kept_def by simp
  moreover have "marks_ok s' = marks_ok s" "line_ok s' = line_ok s" using same by (simp_all add: marks_ok_def line_ok_def)
  ultimately show ?thesis using inv same regs pings reported_kept unfolding judged_def by metis
qed

lemma sync_frame:
  assumes "sync_step K N s = Some s' \<or> sync_expires K N s = Some s'"
  shows "master s' = master s \<and> ping_i s' = ping_i s \<and> pong_i s' = pong_i s \<and> g_ping_count s' = g_ping_count s \<and>
      g_pong_count s' = g_pong_count s \<and> g_phase3_reg_ok s' = g_phase3_reg_ok s \<and> reg s' = reg s \<and> saved s' = saved s \<and>
      tohost_word s' = tohost_word s \<and> g_hp_preempt_verified s' = g_hp_preempt_verified s \<and> delay_ok s' = delay_ok s \<and>
      (g_phase4_queue_ok s \<noteq> 0 \<longrightarrow> g_phase4_queue_ok s' \<noteq> 0) \<and> sync s \<noteq> Absent"
  using assms
proof
  assume "sync_step K N s = Some s'"
  then obtain l where "sync s = Run l" "sync_at K N l s = Some s'" by (rule sync_stepE)
  then show ?thesis by (cases l; auto split: option.splits if_splits)
next
  assume "sync_expires K N s = Some s'"
  then show ?thesis by (auto simp: sync_expires_def split: task_splits y_label.splits)
qed

lemma sync_marks:
  assumes step: "sync_step K N s = Some s' \<or> sync_expires K N s = Some s'"
    and k: "g_phase5_sem_ok s = of_nat k" "k + marks_left (sync s) \<le> 3"
  shows "\<exists>k'. g_phase5_sem_ok s' = of_nat k' \<and> k' + marks_left (sync s') \<le> 3 \<and> k \<le> k'"
  using step
proof
  assume "sync_step K N s = Some s'"
  then obtain l where l: "sync s = Run l" "sync_at K N l s = Some s'" by (rule sync_stepE)
  have "(g_phase5_sem_ok s' = of_nat k \<and> k + marks_left (sync s') \<le> 3) \<or>
      (g_phase5_sem_ok s' = of_nat (Suc k) \<and> Suc k + marks_left (sync s') \<le> 3)"
    using k l by (cases l; auto split: option.splits if_splits)
  then show ?thesis by (metis le_SucI order_refl)
next
  assume "sync_expires K N s = Some s'"
  then have "g_phase5_sem_ok s' = of_nat k \<and> k + marks_left (sync s') \<le> 3"
    using k by (auto simp: sync_expires_def split: task_splits y_label.splits)
  then show ?thesis by blast
qed

lemma judged_sync:
  assumes step: "sync_step K N s = Some s' \<or> sync_expires K N s = Some s'" and inv: "judged E s"
  shows "judged E s'"
proof -
  note same = sync_frame[OF step]
  obtain k where k: "g_phase5_sem_ok s = of_nat k" "k + marks_left (sync s) \<le> 3"
    using inv unfolding judged_def marks_ok_def by auto
  obtain k' where k': "g_phase5_sem_ok s' = of_nat k'" "k' + marks_left (sync s') \<le> 3" "k \<le> k'"
    using sync_marks[OF step k] by blast
  have "g_phase5_sem_ok s = 3 \<longrightarrow> g_phase5_sem_ok s' = 3"
  proof
    assume "g_phase5_sem_ok s = 3"
    then have "k = 3" using k three_marks by simp
    then have "k' = 3" using k'(2,3) by simp
    then show "g_phase5_sem_ok s' = 3" using k'(1) by simp
  qed
  then have "kept s s'" using same unfolding kept_def by simp
  moreover have "marks_ok s'" using k' unfolding marks_ok_def by blast
  moreover have "regs_ok E s' = regs_ok E s" "pings_ok s' = pings_ok s" using same by (simp_all add: regs_ok_def pings_ok_def)
  moreover have "line_ok s \<Longrightarrow> line_ok s'" using same by (simp add: line_ok_def)
  ultimately show ?thesis using inv same reported_kept unfolding judged_def by metis
qed

lemma master_reported:
  assumes "master s = Run l" "master_at E K N l s = Some s'" "tohost_word s' \<noteq> Some 2" "reported E (rank l) s"
  shows "reported E (place (master s')) s'"
proof (cases "\<exists>ms l'. l = A_Nap ms l'")
  case True
  then have "kept s s'" "place (master s') = rank l" using assms(2) by (auto simp: kept_def)
  then show ?thesis using assms(4) reported_kept by metis
next
  case False
  then show ?thesis
    using assms unfolding reported_def by (cases l; auto simp: master_defs ping_pong_cycles_def split: option.splits if_splits)
qed

lemma master_line:
  assumes l: "master s = Run l" "master_at E K N l s = Some s'" and inv: "line_ok s"
  shows "line_ok s' \<and> (tohost_word s = Some 2 \<longrightarrow> tohost_word s' = Some 2)"
  using assms by (cases l; auto simp: line_ok_def master_defs split: option.splits if_splits)

lemma judged_master:
  assumes step: "master_step E K N s = Some s'" and inv: "judged E s"
  shows "judged E s'"
proof -
  obtain l where l: "master s = Run l" "master_at E K N l s = Some s'" using step by (rule master_stepE)
  have old: "regs_ok E s" "pings_ok s" "marks_ok s" "line_ok s" using inv by (simp_all add: judged_def)
  have "reg s' = reg s \<and> saved s' = saved s \<or> \<not> reg_loaded (reg s')"
    using l by (cases l; auto simp: master_defs split: option.splits if_splits)
  then have "regs_ok E s'" using old(1) master_frame[OF step] by (auto simp: regs_ok_def)
  moreover have "pings_ok s'" using old(2) master_frame[OF step] by (simp add: pings_ok_def)
  moreover have "marks_left (sync s') \<le> marks_left (sync s)"
    using old(4) l(1) master_sync[OF step] by (auto simp: line_ok_def)
  then have "marks_ok s'" using old(3) master_frame[OF step] unfolding marks_ok_def by fastforce
  moreover note master_line[OF l old(4)] master_reported[OF l]
  ultimately show ?thesis using inv l(1) unfolding judged_def by auto
qed

lemma smoke_judged:
  assumes run: "smoke_run E K N xs (smoke_start E q b c n) = Some s"
  shows "judged E s"
proof (rule smoke_run_inv[OF run, where P = "judged E"])
  show "judged E (smoke_start E q b c n)" by (auto simp: judged_def reported_def regs_ok_def pings_ok_def marks_ok_def line_ok_def smoke_start_def intro: exI[of _ 0])
next
  fix x s s' assume x: "judged E s" "smoke_step E K N x s = Some s'"
  show "judged E s'"
  proof (cases x)
    case (Acts a)
    then have "actor_step E K N a s = Some s'" using x(2) by (simp split: if_splits)
    then show ?thesis using x(1) judged_other judged_sync judged_master by (cases "a = Master"; cases "a = Sync"; fastforce)
  next
    case Ticks
    have "reg_loaded (wake ends w t) \<Longrightarrow> reg_loaded t" for ends w t
      by (cases t; cases "\<exists>a b. t = Sleep a b R_Check"; auto split: if_splits elim: reg_loaded.elims)
    moreover have "s' = smoke_tick K s" using x(2) Ticks by simp
    ultimately have "regs_ok E s \<Longrightarrow> regs_ok E s'" "pings_ok s' = pings_ok s" "marks_ok s' = marks_ok s" "line_ok s' = line_ok s"
      "reported E p s' = reported E p s" "tohost_word s' = tohost_word s" "place (master s') = place (master s)" for p
      by (auto simp: reported_def regs_ok_def pings_ok_def marks_ok_def line_ok_def smoke_tick_def Let_def)
    then show ?thesis using x(1) by (auto simp: judged_def)
  next
    case Expires
    then show ?thesis using x judged_sync by fastforce
  qed
qed

section \<open>What the test shows\<close>



section \<open>Examples\<close>

definition ideal :: env where
  "ideal = \<lparr>creates = (\<lambda>a. True), context_switch = (\<lambda>xs. xs), pvPortMalloc = (\<lambda>n. n \<le> 0x4000), stack_high_water = 100\<rparr>"

abbreviation ideal_start :: "(ee_s32 list \<times> nat, nat \<times> nat, ee_u32) smoke" where
  "ideal_start \<equiv> smoke_start ideal ([], 4) (0, 1) (0, 5) 0"

abbreviation ideal_run :: "action list \<Rightarrow> (ee_s32 list \<times> nat, nat \<times> nat, ee_u32) smoke option" where
  "ideal_run xs \<equiv> smoke_run ideal list_kernel counter_notifier xs ideal_start"

text \<open>The phases before the synchronisation, its parts, and the phases after it.\<close>

definition first_phases :: "action list" where
  "first_phases = replicate 3 (Acts Master) @ [Acts High, Acts Master, Acts Low, Ticks, Acts Low, Ticks, Acts High, Acts Low] @ replicate 4 Ticks @
     replicate 3 (Acts Master) @ [Acts Reg] @ replicate 4 Ticks @ [Acts Reg] @ replicate 2 Ticks @ replicate 8 (Acts Master)"

definition last_phases :: "action list" where
  "last_phases = replicate 6 Ticks @ replicate 4 (Acts Master) @ replicate 10 Ticks @ replicate 6 (Acts Master) @
     concat (replicate 21 [Acts Ping, Acts Pong]) @ replicate 15 Ticks @ replicate 2 (Acts Master)"

text \<open>A schedule in which the synchronisation task starts when the master sleeps.\<close>

definition calm :: "action list" where
  "calm = first_phases @ replicate 6 (Acts Master) @ replicate 14 (Acts Sync) @ last_phases"

text \<open>A schedule in which a tick hands the processor to it when the items are in the queue and no token is
  given yet.\<close>

definition hasty :: "action list" where
  "hasty = first_phases @ [Ticks] @ replicate 9 (Acts Sync) @ replicate 6 (Acts Master) @ replicate 2 (Acts Sync) @ replicate 6 Ticks @
     replicate 2 (Acts Master)"

lemma calm_run: "map_option (\<lambda>s. (tohost_word s, sync s, g_phase4_queue_ok s, tick s)) (ideal_run calm) = Some (Some 1, Gone, 1, 43)"
  by code_simp

lemma hasty_run: "map_option (\<lambda>s. (tohost_word s, g_phase4_queue_ok s, g_phase5_sem_ok s)) (ideal_run hasty) = Some (Some 2, 1, 2)"
  by code_simp




end
