(* ===== verification/Rtos_Stress.thy ===== *)
theory Rtos_Stress
  imports Rtos_Kernel
begin

text \<open>
  The stress test \<^verbatim>\<open>rtos/app/test_stress.c\<close>: two periodic tasks compete for a mutex over a background task; each
  measures whether its jobs take longer than their deadline, and a master reports after a while.

  The program is a function over schedules as in the functionality test.  \<open>neg\<close> is the build with
  \<open>NEG_OVERLOAD\<close>.
\<close>

section \<open>State\<close>

datatype actor = Task1 | Task2 | Task3 | Master

datatype j_label = J_Start | J_Loop | J_Take | J_Work | J_Give | J_Finish | J_Until
datatype z_label = Z_Start | Z_Delay | Z_Done | Z_Report | Z_Spins

text \<open>A periodic task: the count of its releases, its local variables, where it is; and its jobs so far, each with
  the time it was due to start at and the true ticks at which it started and finished.\<close>

record periodic =
  releases :: ee_s32
  xNextWakeTime :: ticks
  release_tick :: ticks
  thread :: "j_label thread"
  started :: nat
  jobs :: "(ticks \<times> nat \<times> nat) list"

record 'm stress =
  xSharedMutex :: 'm
  job1 :: periodic
  job2 :: periodic
  background :: "unit thread"
  master :: "z_label thread"
  g_deadline_misses :: ee_s32
  g_stress_done :: ee_s32
  g_bg_counter :: ee_u32
  tick :: nat
  printed :: "piece list"
  tohost_word :: "ee_u32 option"

abbreviation now :: "'m stress \<Rightarrow> ticks" where
  "now s \<equiv> of_nat (tick s)"

definition prints :: "'m stress \<Rightarrow> piece list \<Rightarrow> 'm stress" where
  "prints s ps = s\<lparr>printed := printed s @ ps\<rparr>"

lemma stress_prints [simp]:
  "xSharedMutex (prints s ps) = xSharedMutex s" "job1 (prints s ps) = job1 s" "job2 (prints s ps) = job2 s"
  "background (prints s ps) = background s" "master (prints s ps) = master s"
  "g_deadline_misses (prints s ps) = g_deadline_misses s" "g_stress_done (prints s ps) = g_stress_done s"
  "g_bg_counter (prints s ps) = g_bg_counter s" "tick (prints s ps) = tick s"
  "tohost_word (prints s ps) = tohost_word s"
  by (simp_all add: prints_def)

section \<open>Tasks\<close>

definition do_work :: "nat \<Rightarrow> ee_u32 option" where
  "do_work iterations = for_loop 0 iterations (\<lambda>i acc. Some ((acc * 1103515245 + 12345) XOR of_nat i)) 0x55AA55AA"

text \<open>One step of a periodic task with its period, deadline, work and message.\<close>

fun periodic_at :: "(actor, 'm) mutexes \<Rightarrow> actor \<Rightarrow> ticks \<Rightarrow> ticks \<Rightarrow> nat \<Rightarrow> string \<Rightarrow> j_label \<Rightarrow> periodic \<Rightarrow> 'm stress \<Rightarrow>
    (periodic \<times> 'm stress) option" where
  "periodic_at K t period deadline iterations text J_Start p s = Some (p\<lparr>xNextWakeTime := now s, thread := Run J_Loop\<rparr>, s)"
| "periodic_at K t period deadline iterations text J_Loop p s = Some (if g_stress_done s = 0
     then (p\<lparr>release_tick := now s, releases := releases p + 1, thread := Run J_Take, started := tick s\<rparr>, s)
     else (p\<lparr>thread := Gone\<rparr>, s))"
| "periodic_at K t period deadline iterations text J_Take p s = (case mutex_take K t (xSharedMutex s) of None \<Rightarrow> None
     | Some m \<Rightarrow> Some (p\<lparr>thread := Run J_Work\<rparr>, s\<lparr>xSharedMutex := m\<rparr>))"
| "periodic_at K t period deadline iterations text J_Work p s = do {
     acc \<leftarrow> do_work iterations;
     Some (p\<lparr>thread := Run J_Give\<rparr>, s) }"
| "periodic_at K t period deadline iterations text J_Give p s =
     Some (p\<lparr>thread := Run J_Finish\<rparr>, s\<lparr>xSharedMutex := mutex_give K t (xSharedMutex s)\<rparr>)"
| "periodic_at K t period deadline iterations text J_Finish p s = (let finish_tick = now s in
     Some (p\<lparr>thread := Run J_Until, jobs := jobs p @ [(xNextWakeTime p, started p, tick s)]\<rparr>,
       if finish_tick - release_tick p > deadline
       then (prints s [Puts text])\<lparr>g_deadline_misses := g_deadline_misses s + 1\<rparr> else s))"
| "periodic_at K t period deadline iterations text J_Until p s = (let last = xNextWakeTime p in
     Some (p\<lparr>xNextWakeTime := last + period,
       thread := (if until_blocks K last period (now s) then Sleep last period J_Loop else Run J_Loop)\<rparr>, s))"

text \<open>\<open>vTask1_High\<close>, \<open>vTask2_Med\<close> and \<open>vTask3_Low\<close>.\<close>

definition task1_step :: "bool \<Rightarrow> (actor, 'm) mutexes \<Rightarrow> 'm stress \<Rightarrow> 'm stress option" where
  "task1_step neg K s = (case thread (job1 s) of
     Run l \<Rightarrow> map_option (\<lambda>(p, s). s\<lparr>job1 := p\<rparr>)
       (periodic_at K Task1 (pd_ms_to_ticks 10) (pd_ms_to_ticks 10) (if neg then 3500 else 50)
         (''[DEADLINE MISS] Task 1 exceeded deadline!'' @ nl) l (job1 s) s)
   | _ \<Rightarrow> None)"

definition task2_step :: "(actor, 'm) mutexes \<Rightarrow> 'm stress \<Rightarrow> 'm stress option" where
  "task2_step K s = (case thread (job2 s) of
     Run l \<Rightarrow> map_option (\<lambda>(p, s). s\<lparr>job2 := p\<rparr>)
       (periodic_at K Task2 (pd_ms_to_ticks 25) (pd_ms_to_ticks 25) 100
         (''[DEADLINE MISS] Task 2 exceeded deadline!'' @ nl) l (job2 s) s)
   | _ \<Rightarrow> None)"

definition task3_step :: "'m stress \<Rightarrow> 'm stress option" where
  "task3_step s = (case background s of
     Run _ \<Rightarrow> if g_stress_done s = 0 then do {
         acc \<leftarrow> do_work 20;
         Some (s\<lparr>g_bg_counter := g_bg_counter s + 1\<rparr>) }
       else Some (s\<lparr>background := Gone\<rparr>)
   | _ \<Rightarrow> None)"

text \<open>\<open>vStressMasterTask\<close>.\<close>

definition results :: "'m stress \<Rightarrow> piece list" where
  "results s = [Puts (nl @ ''================ STRESS TEST RESULTS ================'' @ nl),
     Puts ''Task 1 Releases (T=10ms) : '', Putdec (releases (job1 s)), Putc 10,
     Puts ''Task 2 Releases (T=25ms) : '', Putdec (releases (job2 s)), Putc 10,
     Puts ''Background Cycles Burned : '', Putdec (g_bg_counter s), Putc 10,
     Puts ''Deadline Misses Detected : '', Putdec (g_deadline_misses s), Putc 10]"

definition stress_verdict :: "bool \<Rightarrow> 'm stress \<Rightarrow> bool" where
  "stress_verdict neg s = (if neg then 0 < sint (g_deadline_misses s)
     else g_deadline_misses s = 0 \<and> 6 \<le> sint (releases (job1 s)) \<and> 2 \<le> sint (releases (job2 s)) \<and> 0 < g_bg_counter s)"

definition closing_line :: "bool \<Rightarrow> bool \<Rightarrow> string" where
  "closing_line neg ok = (if neg
     then if ok then ''[STRESS_NEG] PASS: Deadline miss successfully caught as designed!'' @ nl
       else ''[STRESS_NEG] FAIL: Overload was not detected!'' @ nl
     else if ok then ''[STRESS] ALL SCHEDULED TASKS MET DEADLINES: PASS'' @ nl
       else ''[STRESS] FAIL: Deadline misses or insufficient releases'' @ nl)"

fun master_at :: "bool \<Rightarrow> z_label \<Rightarrow> 'm stress \<Rightarrow> 'm stress option" where
  "master_at neg Z_Start s = Some ((prints s ([Puts (''[STRESS] Starting Deterministic Stress & Schedulability Workload'' @ nl)] @
     (if neg then [Puts (''[STRESS] Negative control: Deliberate overload injected'' @ nl)] else [])))\<lparr>master := Run Z_Delay\<rparr>)"
| "master_at neg Z_Delay s = Some (s\<lparr>master := Sleep (now s) (pd_ms_to_ticks 80) Z_Done\<rparr>)"
| "master_at neg Z_Done s = Some (s\<lparr>g_stress_done := 1, master := Run Z_Report\<rparr>)"
| "master_at neg Z_Report s = (let ok = stress_verdict neg s in
     Some ((prints s (results s @ [Puts (closing_line neg ok)]))\<lparr>tohost_word := Some (if ok then 1 else 2), master := Run Z_Spins\<rparr>))"
| "master_at neg Z_Spins s = Some s"

definition master_step :: "bool \<Rightarrow> 'm stress \<Rightarrow> 'm stress option" where
  "master_step neg s = (case master s of Run l \<Rightarrow> master_at neg l s | _ \<Rightarrow> None)"

section \<open>Schedules\<close>

fun actor_step :: "bool \<Rightarrow> (actor, 'm) mutexes \<Rightarrow> actor \<Rightarrow> 'm stress \<Rightarrow> 'm stress option" where
  "actor_step neg K Task1 s = task1_step neg K s"
| "actor_step neg K Task2 s = task2_step K s"
| "actor_step neg K Task3 s = task3_step s"
| "actor_step neg K Master s = master_step neg s"

text \<open>The priorities; that a task which holds the mutex inherits a higher one makes no difference here, since
  no task has a priority between those of the two that use it.\<close>

fun priority :: "actor \<Rightarrow> nat" where
  "priority Task1 = 3"
| "priority Task2 = 2"
| "priority Task3 = 1"
| "priority Master = 4"

definition may_run :: "bool \<Rightarrow> (actor, 'm) mutexes \<Rightarrow> actor \<Rightarrow> 'm stress \<Rightarrow> bool" where
  "may_run neg K a s \<longleftrightarrow> list_all (\<lambda>b. priority a < priority b \<longrightarrow> actor_step neg K b s = None) [Task1, Task2, Task3, Master]"

definition stress_tick :: "(actor, 'm) mutexes \<Rightarrow> 'm stress \<Rightarrow> 'm stress" where
  "stress_tick K s = (let t = tick s + 1; w = of_nat t in s\<lparr>tick := t, master := wake (until_ends K) w (master s),
     job1 := (job1 s)\<lparr>thread := wake (until_ends K) w (thread (job1 s))\<rparr>,
     job2 := (job2 s)\<lparr>thread := wake (until_ends K) w (thread (job2 s))\<rparr>\<rparr>)"

datatype action = Acts actor | Ticks

fun stress_step :: "bool \<Rightarrow> (actor, 'm) mutexes \<Rightarrow> action \<Rightarrow> 'm stress \<Rightarrow> 'm stress option" where
  "stress_step neg K (Acts a) s = (if may_run neg K a s then actor_step neg K a s else None)"
| "stress_step neg K Ticks s = Some (stress_tick K s)"

fun stress_run :: "bool \<Rightarrow> (actor, 'm) mutexes \<Rightarrow> action list \<Rightarrow> 'm stress \<Rightarrow> 'm stress option" where
  "stress_run neg K [] s = Some s"
| "stress_run neg K (x # xs) s = do { s \<leftarrow> stress_step neg K x s; stress_run neg K xs s }"

text \<open>\<open>main\<close>, up to the start of the scheduler; \<open>creates\<close> says which tasks could be created.\<close>

definition new_job :: "bool \<Rightarrow> periodic" where
  "new_job ok = \<lparr>releases = 0, xNextWakeTime = 0, release_tick = 0, thread = (if ok then Run J_Start else Absent),
     started = 0, jobs = []\<rparr>"

definition stress_start :: "(actor \<Rightarrow> bool) \<Rightarrow> 'm \<Rightarrow> 'm stress" where
  "stress_start creates m = \<lparr>xSharedMutex = m, job1 = new_job (creates Task1), job2 = new_job (creates Task2),
     background = (if creates Task3 then Run () else Absent), master = (if creates Master then Run Z_Start else Absent),
     g_deadline_misses = 0, g_stress_done = 0, g_bg_counter = 0, tick = 0, printed = [], tohost_word = None\<rparr>"

definition stress_main :: "(nat \<Rightarrow> nat) \<Rightarrow> (actor \<Rightarrow> bool) \<Rightarrow> (actor, 'm) mutexes \<Rightarrow> bool \<Rightarrow> ee_u8 list \<Rightarrow> board \<Rightarrow> (fate + board \<times> 'm stress) option" where
  "stress_main busy creates K starts file b = do {
     b \<leftarrow> say busy [Puts (''[BOOT] FreeRTOS Stress Test Suite'' @ nl)] (uart_init b);
     case xSemaphoreCreateMutex K of None \<Rightarrow> map_option Inl (vAssertCalled busy file 182 b) | Some m \<Rightarrow>
     if starts then Some (Inr (b, stress_start creates m))
     else do {
       b \<leftarrow> say busy [Puts (''[FATAL] Scheduler returned'' @ nl)] b;
       Some (Inl (sim_fail b)) } }"

end
