(* ===== verification/Stress_Spec.thy ===== *)
theory Stress_Spec
  imports Rtos_Stress
begin

text \<open>What the stress test of \<^verbatim>\<open>Rtos_Stress\<close> measures, for every schedule.\<close>

section \<open>Invariants of a run\<close>

lemma stress_run_inv:
  assumes "stress_run neg K xs s = Some s'" "P s"
    and "\<And>a s s'. P s \<Longrightarrow> may_run neg K a s \<Longrightarrow> actor_step neg K a s = Some s' \<Longrightarrow> P s'"
    and "\<And>s. P s \<Longrightarrow> P (stress_tick K s)"
  shows "P s'"
  using assms(1,2)
proof (induction xs arbitrary: s)
  case (Cons x xs)
  then obtain t where t: "stress_step neg K x s = Some t" "stress_run neg K xs t = Some s'" by (auto split: bind_splits)
  have "P t" using t(1) Cons.prems(2) assms(3,4) by (cases x) (auto split: if_splits)
  with t(2) Cons.IH show ?case by blast
qed simp

text \<open>The work always ends; evaluation skips it, since its result is not used.\<close>

lemma do_work_some: "\<exists>v. do_work n = Some v"
  using for_loop_fold[of 0 n "\<lambda>i acc. Some ((acc * 1103515245 + 12345) XOR of_nat i)"
      "\<lambda>i acc. (acc * 1103515245 + 12345) XOR of_nat i :: ee_u32"] by (simp add: do_work_def)

lemma periodic_at_work: "periodic_at K t period deadline n text J_Work p s = Some (p\<lparr>thread := Run J_Give\<rparr>, s)"
  using do_work_some[of n] by auto

lemmas periodic_at_code [code] = periodic_at.simps(1-3) periodic_at_work periodic_at.simps(5-7)

lemma task3_step_code [code]:
  "task3_step s = (case background s of
     Run _ \<Rightarrow> Some (if g_stress_done s = 0 then s\<lparr>g_bg_counter := g_bg_counter s + 1\<rparr> else s\<lparr>background := Gone\<rparr>)
   | _ \<Rightarrow> None)"
  using do_work_some[of 20] by (auto simp: task3_step_def split: thread.split)

text \<open>A step of either periodic task.\<close>

lemma task1_stepE:
  assumes "task1_step neg K s = Some s'"
  obtains l p u where "thread (job1 s) = Run l" "s' = u\<lparr>job1 := p\<rparr>"
    "periodic_at K Task1 10 10 (if neg then 3500 else 50) (''[DEADLINE MISS] Task 1 exceeded deadline!'' @ nl) l (job1 s) s = Some (p, u)"
  using assms by (auto simp: task1_step_def pd_ms_to_ticks_eq split: thread.splits)

lemma task2_stepE:
  assumes "task2_step K s = Some s'"
  obtains l p u where "thread (job2 s) = Run l" "s' = u\<lparr>job2 := p\<rparr>"
    "periodic_at K Task2 25 25 100 (''[DEADLINE MISS] Task 2 exceeded deadline!'' @ nl) l (job2 s) s = Some (p, u)"
  using assms by (auto simp: task2_step_def pd_ms_to_ticks_eq split: thread.splits)

text \<open>What it leaves alone.\<close>

lemma periodic_frame:
  assumes "periodic_at K t period deadline n text l p s = Some (p', u)"
  shows "job1 u = job1 s \<and> job2 u = job2 s \<and> background u = background s \<and> master u = master s \<and>
    g_stress_done u = g_stress_done s \<and> g_bg_counter u = g_bg_counter s \<and> tick u = tick s \<and> tohost_word u = tohost_word s"
  using assms by (cases l) (auto simp: Let_def split: bind_splits option.splits if_splits)

lemma task3_frame:
  assumes "task3_step s = Some s'"
  shows "job1 s' = job1 s \<and> job2 s' = job2 s \<and> xSharedMutex s' = xSharedMutex s \<and> master s' = master s \<and> tick s' = tick s \<and>
    g_deadline_misses s' = g_deadline_misses s \<and> tohost_word s' = tohost_word s"
  using assms by (auto simp: task3_step_def split: thread.splits bind_splits if_splits)

lemma stress_master_frame:
  assumes "master_step neg s = Some s'"
  shows "job1 s' = job1 s \<and> job2 s' = job2 s \<and> xSharedMutex s' = xSharedMutex s \<and> tick s' = tick s \<and>
    g_deadline_misses s' = g_deadline_misses s \<and> g_bg_counter s' = g_bg_counter s"
  using assms unfolding master_step_def
  by (cases "master s") (auto simp: Let_def elim!: master_at.elims)

section \<open>The mutex\<close>

fun holds :: "j_label thread \<Rightarrow> bool" where
  "holds (Run J_Work) \<longleftrightarrow> True"
| "holds (Run J_Give) \<longleftrightarrow> True"
| "holds (Sleep since d l) \<longleftrightarrow> l = J_Work \<or> l = J_Give"
| "holds _ \<longleftrightarrow> False"

lemma holds_wake [simp]: "holds (wake ends w t) = holds t"
  by (cases t; cases "\<exists>a b. t = Sleep a b J_Work"; cases "\<exists>a b. t = Sleep a b J_Give"; auto elim: holds.elims)

definition mutex_inv :: "('m \<Rightarrow> actor option) \<Rightarrow> 'm stress \<Rightarrow> bool" where
  "mutex_inv holder s \<longleftrightarrow> (holds (thread (job1 s)) \<longleftrightarrow> holder (xSharedMutex s) = Some Task1) \<and>
     (holds (thread (job2 s)) \<longleftrightarrow> holder (xSharedMutex s) = Some Task2)"

lemma periodic_holds:
  assumes ok: "mutex_ok K holder" and step: "periodic_at K t period deadline n text l p s = Some (p', u)"
    and p: "thread p = Run l" "holds (thread p) \<longleftrightarrow> holder (xSharedMutex s) = Some t"
  shows "(holds (thread p') \<longleftrightarrow> holder (xSharedMutex u) = Some t) \<and>
    (t' \<noteq> t \<longrightarrow> (holder (xSharedMutex u) = Some t' \<longleftrightarrow> holder (xSharedMutex s) = Some t'))"
proof (cases l)
  case J_Take
  then obtain m where "mutex_take K t (xSharedMutex s) = Some m" "p' = p\<lparr>thread := Run J_Work\<rparr>" "u = s\<lparr>xSharedMutex := m\<rparr>"
    using step by (auto split: option.splits)
  then show ?thesis using mutex_cases(2)[OF ok] by fastforce
next
  case J_Give
  then have "holder (xSharedMutex s) = Some t" using p by simp
  then show ?thesis using step J_Give mutex_cases(3)[OF ok] by auto
qed (use step p in \<open>auto simp: Let_def split: bind_splits if_splits\<close>)

lemma stress_mutex:
  assumes ok: "mutex_ok K holder" and m: "xSemaphoreCreateMutex K = Some m"
    and run: "stress_run neg K xs (stress_start creates m) = Some s"
  shows "mutex_inv holder s"
proof (rule stress_run_inv[OF run, where P = "mutex_inv holder"])
  have "holder m = None" using ok m by (simp add: mutex_ok_def)
  then show "mutex_inv holder (stress_start creates m)" by (simp add: mutex_inv_def stress_start_def new_job_def)
next
  fix a s s' assume inv: "mutex_inv holder s" and step: "actor_step neg K a s = Some s'"
  show "mutex_inv holder s'"
  proof (cases a)
    case Task1
    then obtain l p u where l: "thread (job1 s) = Run l" "s' = u\<lparr>job1 := p\<rparr>"
      "periodic_at K Task1 10 10 (if neg then 3500 else 50) (''[DEADLINE MISS] Task 1 exceeded deadline!'' @ nl) l (job1 s) s = Some (p, u)"
      using step task1_stepE by (metis actor_step.simps(1))
    then show ?thesis using inv periodic_holds[OF ok l(3,1), of Task2] periodic_frame[OF l(3)] by (auto simp: mutex_inv_def)
  next
    case Task2
    then obtain l p u where l: "thread (job2 s) = Run l" "s' = u\<lparr>job2 := p\<rparr>"
      "periodic_at K Task2 25 25 100 (''[DEADLINE MISS] Task 2 exceeded deadline!'' @ nl) l (job2 s) s = Some (p, u)"
      using step task2_stepE by (metis actor_step.simps(2))
    then show ?thesis using inv periodic_holds[OF ok l(3,1), of Task1] periodic_frame[OF l(3)] by (auto simp: mutex_inv_def)
  qed (use step inv task3_frame stress_master_frame in \<open>fastforce simp: mutex_inv_def\<close>)+
next
  fix s assume "mutex_inv holder s"
  then show "mutex_inv holder (stress_tick K s)" by (simp add: mutex_inv_def stress_tick_def Let_def)
qed

section \<open>Jobs\<close>

definition late :: "ticks \<Rightarrow> periodic \<Rightarrow> nat" where
  "late d p = length (filter (\<lambda>(due, r, f). d < (of_nat f - of_nat r :: ticks)) (jobs p))"

fun in_job :: "j_label thread \<Rightarrow> bool" where
  "in_job (Run l) \<longleftrightarrow> l \<in> {J_Take, J_Work, J_Give, J_Finish}"
| "in_job (Sleep since d l) \<longleftrightarrow> l \<in> {J_Take, J_Work, J_Give, J_Finish}"
| "in_job _ \<longleftrightarrow> False"

lemma in_job_wake [simp]: "in_job (wake ends w t) = in_job t"
  by (cases t) auto

definition job_ok :: "nat \<Rightarrow> periodic \<Rightarrow> bool" where
  "job_ok m p \<longleftrightarrow> (in_job (thread p) \<longrightarrow> release_tick p = of_nat (started p)) \<and> started p \<le> m \<and>
     (\<forall>(due, r, f) \<in> set (jobs p). r \<le> f \<and> f \<le> m) \<and>
     releases p = of_nat (length (jobs p) + (if in_job (thread p) then 1 else 0))"

lemma job_ok_later: "job_ok m p \<Longrightarrow> job_ok (Suc m) p"
  by (auto simp: job_ok_def)

lemma job_ok_thread: "in_job t = in_job (thread p) \<Longrightarrow> job_ok m (p\<lparr>thread := t\<rparr>) = job_ok m p"
  by (simp add: job_ok_def)

lemma periodic_job:
  assumes step: "periodic_at K t period deadline n text l p s = Some (p', u)"
    and p: "thread p = Run l" "job_ok (tick s) p"
  shows "job_ok (tick s) p' \<and> (\<exists>k. late deadline p' = late deadline p + k \<and> g_deadline_misses u = g_deadline_misses s + of_nat k)"
proof (cases l)
  case J_Finish
  have "release_tick p = of_nat (started p)" using p J_Finish by (simp add: job_ok_def)
  then show ?thesis using step p J_Finish by (auto simp: job_ok_def late_def Let_def)
qed (use step p in \<open>auto simp: job_ok_def late_def Let_def split: bind_splits option.splits if_splits\<close>)

definition jobs_inv :: "'m stress \<Rightarrow> bool" where
  "jobs_inv s \<longleftrightarrow> job_ok (tick s) (job1 s) \<and> job_ok (tick s) (job2 s) \<and>
     g_deadline_misses s = of_nat (late 10 (job1 s) + late 25 (job2 s))"

lemma stress_jobs:
  fixes K :: "(actor, 'm) mutexes"
  assumes run: "stress_run neg K xs (stress_start creates m) = Some s"
  shows "jobs_inv s"
proof (rule stress_run_inv[OF run, where P = jobs_inv])
  show "jobs_inv (stress_start creates m)" by (simp add: jobs_inv_def job_ok_def late_def stress_start_def new_job_def)
next
  fix a s s' assume inv: "jobs_inv s" and step: "actor_step neg K a s = Some s'"
  show "jobs_inv s'"
  proof (cases a)
    case Task1
    then obtain l p u where l: "thread (job1 s) = Run l" "s' = u\<lparr>job1 := p\<rparr>"
      "periodic_at K Task1 10 10 (if neg then 3500 else 50) (''[DEADLINE MISS] Task 1 exceeded deadline!'' @ nl) l (job1 s) s = Some (p, u)"
      using step task1_stepE by (metis actor_step.simps(1))
    then show ?thesis using inv periodic_job[OF l(3,1)] periodic_frame[OF l(3)] by (auto simp: jobs_inv_def)
  next
    case Task2
    then obtain l p u where l: "thread (job2 s) = Run l" "s' = u\<lparr>job2 := p\<rparr>"
      "periodic_at K Task2 25 25 100 (''[DEADLINE MISS] Task 2 exceeded deadline!'' @ nl) l (job2 s) s = Some (p, u)"
      using step task2_stepE by (metis actor_step.simps(2))
    then show ?thesis using inv periodic_job[OF l(3,1)] periodic_frame[OF l(3)] by (auto simp: jobs_inv_def)
  qed (use step inv task3_frame stress_master_frame in \<open>fastforce simp: jobs_inv_def\<close>)+
next
  fix s :: "'m stress" assume inv: "jobs_inv s"
  have "late d (p\<lparr>thread := t\<rparr>) = late d p" for d p t by (simp add: late_def)
  then show "jobs_inv (stress_tick K s)"
    using inv job_ok_later by (auto simp: jobs_inv_def stress_tick_def Let_def job_ok_thread)
qed

section \<open>The verdict\<close>

definition verdict_inv :: "bool \<Rightarrow> 'm stress \<Rightarrow> bool" where
  "verdict_inv neg s \<longleftrightarrow> (case master s of Sleep since d l \<Rightarrow> l = Z_Done | _ \<Rightarrow> True) \<and>
     (master s = Run Z_Spins \<longleftrightarrow> tohost_word s \<noteq> None) \<and>
     (tohost_word s \<noteq> None \<longrightarrow> tohost_word s = Some (if stress_verdict neg s then 1 else 2))"

lemma stress_verdict_kept:
  fixes K :: "(actor, 'm) mutexes"
  assumes run: "stress_run neg K xs (stress_start creates m) = Some s"
  shows "verdict_inv neg s"
proof (rule stress_run_inv[OF run, where P = "verdict_inv neg"])
  show "verdict_inv neg (stress_start creates m)" by (simp add: verdict_inv_def stress_start_def)
next
  fix a s s' assume inv: "verdict_inv neg s" and may: "may_run neg K a s" and step: "actor_step neg K a s = Some s'"
  show "verdict_inv neg s'"
  proof (cases "a = Master")
    case True
    then obtain l where l: "master s = Run l" "master_at neg l s = Some s'"
      using step by (auto simp: master_step_def split: thread.splits)
    then show ?thesis using inv by (cases l; auto simp: verdict_inv_def stress_verdict_def Let_def)
  next
    case False
    then have "master_step neg s = None" using may by (cases a) (auto simp: may_run_def)
    then have no: "master s \<noteq> Run Z_Spins" by (auto simp: master_step_def)
    have "master s' = master s" "tohost_word s' = tohost_word s"
      using step False by (cases a; auto elim!: task1_stepE task2_stepE dest: periodic_frame task3_frame)+
    then show ?thesis using inv no by (simp add: verdict_inv_def)
  qed
next
  fix s :: "'m stress" assume "verdict_inv neg s"
  then show "verdict_inv neg (stress_tick K s)"
    by (cases "master s") (auto simp: verdict_inv_def stress_tick_def stress_verdict_def Let_def)
qed

section \<open>What the test shows\<close>

lemma late_iff:
  assumes "job_ok m p" "m < 2 ^ 32"
  shows "late d p = length (filter (\<lambda>(due, r, f). unat d < f - r) (jobs p))"
proof -
  have "(d < (of_nat f - of_nat r :: ticks)) = (unat d < f - r)" if "(due, r, f) \<in> set (jobs p)" for due r f
  proof -
    have r: "r \<le> f" "f - r < 2 ^ 32" using that assms by (auto simp: job_ok_def)
    then have "(of_nat f - of_nat r :: ticks) = of_nat (f - r)" by (simp add: of_nat_diff)
    then show ?thesis using r(2) by (simp add: word_less_nat_alt unsigned_of_nat take_bit_eq_mod)
  qed
  then show ?thesis unfolding late_def by (intro arg_cong[where f = length] filter_cong) auto
qed

text \<open>The two periodic tasks are never at work under the mutex at the same time.\<close>

theorem stress_mutual_exclusion:
  assumes "mutex_ok K holder" "xSemaphoreCreateMutex K = Some m" "stress_run neg K xs (stress_start creates m) = Some s"
  shows "\<not> (thread (job1 s) \<in> {Run J_Work, Run J_Give} \<and> thread (job2 s) \<in> {Run J_Work, Run J_Give})"
  using stress_mutex[OF assms] by (auto simp: mutex_inv_def)



section \<open>Examples\<close>

abbreviation holder_run :: "action list \<Rightarrow> actor option stress option" where
  "holder_run xs \<equiv> stress_run False holder_mutexes xs (stress_start (\<lambda>_. True) None)"

definition job :: "actor \<Rightarrow> action list" where
  "job t = replicate 6 (Acts t)"

definition slow_job :: "action list" where
  "slow_job = replicate 2 (Acts Task1) @ replicate 10 Ticks @ replicate 4 (Acts Task1)"

text \<open>The first task takes ten ticks for each of three jobs, and the job of the second that is due at tick 25 starts at tick 51.\<close>

definition crowded :: "action list" where
  "crowded = replicate 2 (Acts Master) @ [Acts Task1] @ job Task1 @ [Acts Task2] @ job Task2 @ [Acts Task3] @ replicate 10 Ticks @
     job Task1 @ replicate 10 Ticks @ slow_job @ slow_job @ slow_job @ job Task1 @ [Ticks] @ job Task2 @ job Task2 @
     replicate 9 Ticks @ job Task1 @ replicate 10 Ticks @ job Task1 @ replicate 10 Ticks @ replicate 2 (Acts Master)"

lemma crowded_run:
  "map_option (\<lambda>s. (tohost_word s, jobs (job2 s), length (jobs (job1 s)), tick s)) (holder_run crowded) =
     Some (Some 1, [(0, 0, 0), (25, 51, 51), (50, 51, 51)], 8, 80)"
  by code_simp


lemma stress_mutual_exclusion_witness:
  "\<exists>s. holder_run crowded = Some s \<and> \<not> (thread (job1 s) \<in> {Run J_Work, Run J_Give} \<and> thread (job2 s) \<in> {Run J_Work, Run J_Give})"
proof -
  obtain s where s: "holder_run crowded = Some s" using crowded_run by auto
  have "xSemaphoreCreateMutex holder_mutexes = Some None" by (simp add: holder_mutexes_def)
  from stress_mutual_exclusion[OF holder_mutexes_ok this s] s show ?thesis by blast
qed



end
