(* ===== verification/Rtos_Interrupt.thy ===== *)
theory Rtos_Interrupt
  imports Rtos_Kernel
begin

text \<open>
  The interrupt test \<^verbatim>\<open>rtos/app/test_interrupt.c\<close>: a master task checks the timer, the accuracy of delays and
  that every software interrupt that is raised is handled and wakes the task that waits for it.

  The program is a function over schedules as in the functionality test, with two more actions: the
  software interrupt is taken, and cycles pass.
\<close>

section \<open>State\<close>

datatype actor = Master | Fidelity | Soft_Irq

datatype i_label = I_Start | I_Time | I_Burn | I_Timer_Done | I_Fidelity | I_Wakes_Done | I_Soft_Irq | I_Count_Done
  | I_Notified_Done | I_Arm | I_Target | I_Raise | I_Wait | I_Competing_Done | I_Passed | I_Spins | I_Nap nat i_label

datatype f_label = F_Loop | F_Nap | F_Check
datatype q_label = Q_Start | Q_Loop | Q_Wait | Q_Spins

record 'n irq_test =
  clint_msip :: ee_u32
  msie :: bool
  xNotifiedTask :: "actor option"
  g_sw_irq_count :: ee_s32
  g_sw_irq_notified :: ee_s32
  g_wake_tick_errors :: ee_s32
  irq_notes :: 'n
  master_notes :: 'n
  master :: "i_label thread"
  t_start :: ee_u32
  mtime_advances :: bool
  k :: nat
  competing_ok :: bool
  fidelity :: "f_label thread"
  f_i :: nat
  before :: ticks
  soft_irq :: "q_label thread"
  q_i :: nat
  tick :: nat
  mtime :: nat
  printed :: "piece list"
  tohost_word :: "ee_u32 option"

abbreviation now :: "'n irq_test \<Rightarrow> ticks" where
  "now s \<equiv> of_nat (tick s)"

definition prints :: "'n irq_test \<Rightarrow> piece list \<Rightarrow> 'n irq_test" where
  "prints s ps = s\<lparr>printed := printed s @ ps\<rparr>"

lemma irq_test_prints [simp]:
  "clint_msip (prints s ps) = clint_msip s" "msie (prints s ps) = msie s"
  "xNotifiedTask (prints s ps) = xNotifiedTask s" "g_sw_irq_count (prints s ps) = g_sw_irq_count s"
  "g_sw_irq_notified (prints s ps) = g_sw_irq_notified s" "g_wake_tick_errors (prints s ps) = g_wake_tick_errors s"
  "irq_notes (prints s ps) = irq_notes s" "master_notes (prints s ps) = master_notes s"
  "master (prints s ps) = master s" "t_start (prints s ps) = t_start s"
  "mtime_advances (prints s ps) = mtime_advances s" "k (prints s ps) = k s"
  "competing_ok (prints s ps) = competing_ok s" "fidelity (prints s ps) = fidelity s" "f_i (prints s ps) = f_i s"
  "before (prints s ps) = before s" "soft_irq (prints s ps) = soft_irq s" "q_i (prints s ps) = q_i s"
  "tick (prints s ps) = tick s" "mtime (prints s ps) = mtime s" "tohost_word (prints s ps) = tohost_word s"
  by (simp_all add: prints_def)

section \<open>Code\<close>

definition report_test :: "string \<Rightarrow> bool \<Rightarrow> i_label \<Rightarrow> 'n irq_test \<Rightarrow> 'n irq_test" where
  "report_test name pass next s = (let s = prints s [Puts ''[TEST] '', Puts name] in
     if pass then (prints s [Puts ('': PASS'' @ nl)])\<lparr>master := Run next\<rparr>
     else (prints s [Puts ('': FAIL'' @ nl)])\<lparr>tohost_word := Some 2, master := Run I_Spins\<rparr>)"

text \<open>The interrupt handler.  On another cause it ends in \<open>sim_fail\<close>, which spins.\<close>

definition irq_handler :: "'n notifier \<Rightarrow> ee_u32 \<Rightarrow> 'n irq_test \<Rightarrow> 'n irq_test" where
  "irq_handler N mcause s = (if mcause = 0x80000003
     then (let s = s\<lparr>g_sw_irq_count := g_sw_irq_count s + 1, clint_msip := 0\<rparr>
       in case xNotifiedTask s of None \<Rightarrow> s
         | Some t \<Rightarrow> (if t = Master then s\<lparr>master_notes := notify_give N (master_notes s)\<rparr>
             else s\<lparr>irq_notes := notify_give N (irq_notes s)\<rparr>)\<lparr>g_sw_irq_notified := g_sw_irq_notified s + 1\<rparr>)
     else (prints s [Puts ''[ERR] Unexpected interrupt cause: '', Puthex mcause, Putc 10])\<lparr>tohost_word := Some 2\<rparr>)"

text \<open>\<open>vTimerFidelityTask\<close>.\<close>

fun fidelity_at :: "f_label \<Rightarrow> 'n irq_test \<Rightarrow> 'n irq_test" where
  "fidelity_at F_Loop s = (if f_i s < 6 then s\<lparr>before := now s, fidelity := Run F_Nap\<rparr> else s\<lparr>fidelity := Gone\<rparr>)"
| "fidelity_at F_Nap s = s\<lparr>fidelity := Sleep (now s) 5 F_Check\<rparr>"
| "fidelity_at F_Check s = (let after = now s in
     s\<lparr>g_wake_tick_errors := (if after < before s + 5 then g_wake_tick_errors s + 1 else g_wake_tick_errors s),
       f_i := f_i s + 1, fidelity := Run F_Loop\<rparr>)"

text \<open>\<open>vSoftwareIrqTask\<close>; its wait ends with the value of a notification, or with zero when the time runs out.\<close>

definition irq_waited :: "ee_u32 \<Rightarrow> 'n irq_test \<Rightarrow> 'n irq_test" where
  "irq_waited notes s = (if notes = 0
     then (prints s [Puts (''[ERR] Timeout waiting for ISR notification'' @ nl)])\<lparr>tohost_word := Some 2, soft_irq := Run Q_Spins\<rparr>
     else s\<lparr>q_i := q_i s + 1, soft_irq := Run Q_Loop\<rparr>)"

fun soft_irq_at :: "'n notifier \<Rightarrow> q_label \<Rightarrow> 'n irq_test \<Rightarrow> 'n irq_test option" where
  "soft_irq_at N Q_Start s = Some (s\<lparr>xNotifiedTask := Some Soft_Irq, msie := True, q_i := 0, soft_irq := Run Q_Loop\<rparr>)"
| "soft_irq_at N Q_Loop s = Some (if q_i s < 5 then s\<lparr>clint_msip := 1, soft_irq := Run Q_Wait\<rparr>
     else s\<lparr>msie := False, soft_irq := Gone\<rparr>)"
| "soft_irq_at N Q_Wait s = (case notify_take N (irq_notes s) of None \<Rightarrow> None
     | Some (notes, n) \<Rightarrow> Some (irq_waited notes (s\<lparr>irq_notes := n\<rparr>)))"
| "soft_irq_at N Q_Spins s = Some s"

text \<open>\<open>vMasterInterruptTest\<close>.\<close>

definition master_waited :: "ee_u32 \<Rightarrow> 'n irq_test \<Rightarrow> 'n irq_test" where
  "master_waited n s = s\<lparr>competing_ok := (if n = 0 then False else competing_ok s), k := k s + 1, master := Run I_Raise\<rparr>"

fun master_at :: "(actor \<Rightarrow> bool) \<Rightarrow> 'n notifier \<Rightarrow> i_label \<Rightarrow> 'n irq_test \<Rightarrow> 'n irq_test option" where
  "master_at creates N I_Start s =
     Some ((prints s [Puts (''[INTERRUPT] Starting Timer and Interrupt Verification Suite'' @ nl)])\<lparr>master := Run I_Time\<rparr>)"
| "master_at creates N I_Time s = Some (s\<lparr>t_start := of_nat (mtime s), master := Run I_Burn\<rparr>)"
| "master_at creates N I_Burn s = (let t_end = of_nat (mtime s) in
     Some (s\<lparr>mtime_advances := (t_end > t_start s), master := Run I_Timer_Done\<rparr>))"
| "master_at creates N I_Timer_Done s = Some (report_test ''CLINT mtime hardware progression'' (mtime_advances s) I_Fidelity s)"
| "master_at creates N I_Fidelity s =
     Some (s\<lparr>fidelity := (if creates Fidelity then Run F_Loop else Absent), f_i := 0, master := Run (I_Nap 35 I_Wakes_Done)\<rparr>)"
| "master_at creates N I_Wakes_Done s =
     Some (report_test ''Timer Interrupt Wake Fidelity (vTaskDelay)'' (g_wake_tick_errors s = 0) I_Soft_Irq s)"
| "master_at creates N I_Soft_Irq s =
     Some (s\<lparr>soft_irq := (if creates Soft_Irq then Run Q_Start else Absent), master := Run (I_Nap 25 I_Count_Done)\<rparr>)"
| "master_at creates N I_Count_Done s =
     Some (report_test ''Software Interrupt (MSIP) Handling & Clearing'' (g_sw_irq_count s = 5) I_Notified_Done s)"
| "master_at creates N I_Notified_Done s =
     Some (report_test ''ISR-Driven Task Notification (vTaskNotifyGiveFromISR)'' (g_sw_irq_notified s = 5) I_Arm s)"
| "master_at creates N I_Arm s = Some (s\<lparr>msie := True, master := Run I_Target\<rparr>)"
| "master_at creates N I_Target s = Some (s\<lparr>xNotifiedTask := Some Master, competing_ok := True, k := 0, master := Run I_Raise\<rparr>)"
| "master_at creates N I_Raise s = Some (if k s < 10 then s\<lparr>clint_msip := 1, master := Run I_Wait\<rparr>
     else s\<lparr>msie := False, master := Run I_Competing_Done\<rparr>)"
| "master_at creates N I_Wait s = (case notify_take N (master_notes s) of None \<Rightarrow> None
     | Some (v, n) \<Rightarrow> Some (master_waited v (s\<lparr>master_notes := n\<rparr>)))"
| "master_at creates N I_Competing_Done s =
     Some (report_test ''Competing Interrupts and State Preservation'' (competing_ok s) I_Passed s)"
| "master_at creates N I_Passed s = Some ((prints s [Puts (nl @ ''[INTERRUPT] ALL STAGE 3 TESTS PASSED SUCCESSFULLY!'' @ nl)])\<lparr>
     tohost_word := Some 1, master := Run I_Spins\<rparr>)"
| "master_at creates N I_Spins s = Some s"
| "master_at creates N (I_Nap ms l) s = Some (s\<lparr>master := Sleep (now s) (pd_ms_to_ticks ms) l\<rparr>)"

section \<open>Schedules\<close>

fun actor_step :: "(actor \<Rightarrow> bool) \<Rightarrow> 'n notifier \<Rightarrow> actor \<Rightarrow> 'n irq_test \<Rightarrow> 'n irq_test option" where
  "actor_step creates N Master s = (case master s of Run l \<Rightarrow> master_at creates N l s | _ \<Rightarrow> None)"
| "actor_step creates N Fidelity s = (case fidelity s of Run l \<Rightarrow> Some (fidelity_at l s) | _ \<Rightarrow> None)"
| "actor_step creates N Soft_Irq s = (case soft_irq s of Run l \<Rightarrow> soft_irq_at N l s | _ \<Rightarrow> None)"

text \<open>The end of a wait whose time runs out.\<close>

fun expires :: "'n notifier \<Rightarrow> actor \<Rightarrow> 'n irq_test \<Rightarrow> 'n irq_test option" where
  "expires N Master s = (if master s = Run I_Wait \<and> notify_take N (master_notes s) = None then Some (master_waited 0 s) else None)"
| "expires N Soft_Irq s = (if soft_irq s = Run Q_Wait \<and> notify_take N (irq_notes s) = None then Some (irq_waited 0 s) else None)"
| "expires N Fidelity s = None"

fun priority :: "actor \<Rightarrow> nat" where
  "priority Master = 3"
| "priority _ = 2"

definition may_run :: "(actor \<Rightarrow> bool) \<Rightarrow> 'n notifier \<Rightarrow> actor \<Rightarrow> 'n irq_test \<Rightarrow> bool" where
  "may_run creates N a s \<longleftrightarrow> list_all (\<lambda>b. priority a < priority b \<longrightarrow> actor_step creates N b s = None) [Master, Fidelity, Soft_Irq]"

definition irq_tick :: "(ticks \<Rightarrow> ticks \<Rightarrow> ticks \<Rightarrow> bool) \<Rightarrow> 'n irq_test \<Rightarrow> 'n irq_test" where
  "irq_tick ends s = (let t = tick s + 1; w = of_nat t in s\<lparr>tick := t, master := wake ends w (master s),
     fidelity := wake ends w (fidelity s)\<rparr>)"

datatype action = Acts actor | Interrupt | Ticks | Cycles nat | Expires actor

fun irq_step :: "(actor \<Rightarrow> bool) \<Rightarrow> 'n notifier \<Rightarrow> (ticks \<Rightarrow> ticks \<Rightarrow> ticks \<Rightarrow> bool) \<Rightarrow> action \<Rightarrow> 'n irq_test \<Rightarrow> 'n irq_test option" where
  "irq_step creates N ends (Acts a) s = (if may_run creates N a s then actor_step creates N a s else None)"
| "irq_step creates N ends Interrupt s = (if clint_msip s = 1 \<and> msie s then Some (irq_handler N 0x80000003 s) else None)"
| "irq_step creates N ends Ticks s = Some (irq_tick ends s)"
| "irq_step creates N ends (Cycles d) s = Some (s\<lparr>mtime := mtime s + d\<rparr>)"
| "irq_step creates N ends (Expires a) s = expires N a s"

fun irq_run :: "(actor \<Rightarrow> bool) \<Rightarrow> 'n notifier \<Rightarrow> (ticks \<Rightarrow> ticks \<Rightarrow> ticks \<Rightarrow> bool) \<Rightarrow> action list \<Rightarrow> 'n irq_test \<Rightarrow> 'n irq_test option" where
  "irq_run creates N ends [] s = Some s"
| "irq_run creates N ends (x # xs) s = do { s \<leftarrow> irq_step creates N ends x s; irq_run creates N ends xs s }"

text \<open>\<open>main\<close>, up to the start of the scheduler.\<close>

definition irq_start :: "(actor \<Rightarrow> bool) \<Rightarrow> 'n \<Rightarrow> 'n \<Rightarrow> 'n irq_test" where
  "irq_start creates q m = \<lparr>clint_msip = 0, msie = False, xNotifiedTask = None, g_sw_irq_count = 0, g_sw_irq_notified = 0,
     g_wake_tick_errors = 0, irq_notes = q, master_notes = m, master = (if creates Master then Run I_Start else Absent),
     t_start = 0, mtime_advances = False, k = 0, competing_ok = True, fidelity = Absent, f_i = 0, before = 0,
     soft_irq = Absent, q_i = 0, tick = 0, mtime = 0, printed = [], tohost_word = None\<rparr>"

definition irq_main :: "(nat \<Rightarrow> nat) \<Rightarrow> (actor \<Rightarrow> bool) \<Rightarrow> 'n \<Rightarrow> 'n \<Rightarrow> bool \<Rightarrow> board \<Rightarrow> (fate + board \<times> 'n irq_test) option" where
  "irq_main busy creates q m starts b = do {
     b \<leftarrow> say busy [Puts (''[BOOT] Timer and Interrupt Test Suite'' @ nl)] (uart_init b);
     if starts then Some (Inr (b, irq_start creates q m))
     else do {
       b \<leftarrow> say busy [Puts (''[FATAL] Scheduler exited unexpectedly'' @ nl)] b;
       Some (Inl (sim_fail b)) } }"

end
