(* ===== verification/Interrupt_Spec.thy ===== *)
theory Interrupt_Spec
  imports Rtos_Interrupt
begin

text \<open>What the interrupt test of \<^verbatim>\<open>Rtos_Interrupt\<close> counts, for every schedule.\<close>

lemma irq_run_inv:
  assumes "irq_run creates N ends xs s = Some s'" "P s"
    and "\<And>x s s'. x \<in> set xs \<Longrightarrow> P s \<Longrightarrow> irq_step creates N ends x s = Some s' \<Longrightarrow> P s'"
  shows "P s'"
  using assms
proof (induction xs arbitrary: s)
  case (Cons x xs)
  then obtain t where "irq_step creates N ends x s = Some t" "irq_run creates N ends xs t = Some s'" by (auto split: bind_splits)
  with Cons show ?case by auto
qed simp

section \<open>Counting interrupts\<close>

fun rank :: "i_label \<Rightarrow> nat" where
  "rank I_Start = 0"
| "rank I_Time = 1"
| "rank I_Burn = 2"
| "rank I_Timer_Done = 3"
| "rank I_Fidelity = 4"
| "rank I_Wakes_Done = 5"
| "rank I_Soft_Irq = 6"
| "rank I_Count_Done = 7"
| "rank I_Notified_Done = 8"
| "rank I_Arm = 9"
| "rank I_Target = 10"
| "rank I_Raise = 11"
| "rank I_Wait = 12"
| "rank I_Competing_Done = 13"
| "rank I_Passed = 14"
| "rank I_Spins = 15"
| "rank (I_Nap ms l) = rank l"

fun place :: "i_label thread \<Rightarrow> nat" where
  "place Absent = 0"
| "place (Run l) = rank l"
| "place (Sleep since d l) = rank l"
| "place Gone = 15"

lemma irq_place_wake [simp]: "place (wake ends w t) = place t"
  by (cases t) auto

text \<open>The task that raises five interrupts: where it is, its loop index, the pending interrupt, its notifications, and the number
  of interrupts handled.\<close>

inductive own :: "q_label thread \<Rightarrow> nat \<Rightarrow> ee_u32 \<Rightarrow> ee_u32 \<Rightarrow> nat \<Rightarrow> bool" where
  absent: "own Absent i 0 0 0"
| start: "own (Run Q_Start) i 0 0 0"
| loop: "i \<le> 5 \<Longrightarrow> own (Run Q_Loop) i 0 0 i"
| raised: "i < 5 \<Longrightarrow> own (Run Q_Wait) i 1 0 i"
| handled: "i < 5 \<Longrightarrow> own (Run Q_Wait) i 0 1 (Suc i)"
| gone: "own Gone i 0 0 5"

inductive_simps own_simps [simp]: "own Absent i p w h" "own (Run Q_Start) i p w h" "own (Run Q_Loop) i p w h"
  "own (Run Q_Wait) i p w h" "own (Run Q_Spins) i p w h" "own Gone i p w h" "own (Sleep since d l) i p w h"

text \<open>The master while it raises ten more.\<close>

inductive turn :: "i_label thread \<Rightarrow> nat \<Rightarrow> ee_u32 \<Rightarrow> ee_u32 \<Rightarrow> nat \<Rightarrow> bool" where
  raise: "j \<le> 10 \<Longrightarrow> turn (Run I_Raise) j 0 0 j"
| raised: "j < 10 \<Longrightarrow> turn (Run I_Wait) j 1 0 j"
| handled: "j < 10 \<Longrightarrow> turn (Run I_Wait) j 0 1 (Suc j)"
| ended: "l \<in> {I_Competing_Done, I_Passed, I_Spins} \<Longrightarrow> turn (Run l) j 0 0 10"

inductive_simps turn_simps: "turn (Run l) j p w g"

definition phase_a :: "('n \<Rightarrow> ee_u32) \<Rightarrow> nat \<Rightarrow> 'n irq_test \<Rightarrow> bool" where
  "phase_a noted h s \<longleftrightarrow> own (soft_irq s) (q_i s) (clint_msip s) (noted (irq_notes s)) h \<and> noted (master_notes s) = 0 \<and>
     g_sw_irq_count s = of_nat h \<and> (xNotifiedTask s = Some Soft_Irq \<or> soft_irq s \<in> {Absent, Run Q_Start}) \<and>
     (place (master s) \<le> 6 \<longrightarrow> soft_irq s = Absent) \<and> (8 \<le> place (master s) \<and> place (master s) \<le> 10 \<longrightarrow> h = 5) \<and>
     (if place (master s) \<le> 10 then tohost_word s = None else tohost_word s = Some 2 \<and> master s = Run I_Spins)"

definition phase_b :: "('n \<Rightarrow> ee_u32) \<Rightarrow> nat \<Rightarrow> 'n irq_test \<Rightarrow> bool" where
  "phase_b noted g s \<longleftrightarrow> own (soft_irq s) (q_i s) 0 (noted (irq_notes s)) 5 \<and>
     turn (master s) (k s) (clint_msip s) (noted (master_notes s)) g \<and> g_sw_irq_count s = of_nat (5 + g) \<and>
     xNotifiedTask s = Some Master \<and> competing_ok s \<and> tohost_word s \<noteq> Some 2 \<and> (tohost_word s = Some 1 \<longrightarrow> master s = Run I_Spins)"

definition counted :: "('n \<Rightarrow> ee_u32) \<Rightarrow> 'n irq_test \<Rightarrow> bool" where
  "counted noted s \<longleftrightarrow> g_sw_irq_notified s = g_sw_irq_count s \<and> ((\<exists>h. phase_a noted h s) \<or> (\<exists>g. phase_b noted g s))"

lemma own_at_most: "own t i p w h \<Longrightarrow> h \<le> 5"
  by (auto elim: own.cases)

lemma turn_at_most: "turn t j p w g \<Longrightarrow> g \<le> 10"
  by (auto elim: turn.cases)

lemma turn_awake: "turn t j p w g \<Longrightarrow> wake ends x t = t"
  by (auto elim: turn.cases)

lemma five: "of_nat h = (5 :: ee_s32) \<Longrightarrow> h \<le> 5 \<Longrightarrow> h = 5"
  by (cases "h \<in> {0, 1, 2, 3, 4}") auto

lemma irq_report_fields [simp]:
  "master (report_test name pass l s) = Run (if pass then l else I_Spins)"
  "tohost_word (report_test name pass l s) = (if pass then tohost_word s else Some 2)"
  "clint_msip (report_test name pass l s) = clint_msip s" "xNotifiedTask (report_test name pass l s) = xNotifiedTask s"
  "g_sw_irq_count (report_test name pass l s) = g_sw_irq_count s" "g_sw_irq_notified (report_test name pass l s) = g_sw_irq_notified s"
  "g_wake_tick_errors (report_test name pass l s) = g_wake_tick_errors s" "irq_notes (report_test name pass l s) = irq_notes s"
  "master_notes (report_test name pass l s) = master_notes s" "k (report_test name pass l s) = k s"
  "competing_ok (report_test name pass l s) = competing_ok s" "soft_irq (report_test name pass l s) = soft_irq s"
  "q_i (report_test name pass l s) = q_i s" "tick (report_test name pass l s) = tick s" "fidelity (report_test name pass l s) = fidelity s"
  "before (report_test name pass l s) = before s" "msie (report_test name pass l s) = msie s"
  by (simp_all add: report_test_def Let_def)

lemma counted_interrupt:
  assumes ok: "notify_ok N noted" and inv: "counted noted s" and pending: "clint_msip s = 1"
  shows "counted noted (irq_handler N 0x80000003 s)"
proof -
  note give = notify_cases(1)[OF ok]
  from inv consider h where "phase_a noted h s" | g where "phase_b noted g s" unfolding counted_def by blast
  then show ?thesis
  proof cases
    case 1
    then have q: "soft_irq s = Run Q_Wait" "xNotifiedTask s = Some Soft_Irq" "q_i s < 5" "h = q_i s" "noted (irq_notes s) = 0"
      using pending by (auto simp: phase_a_def elim: own.cases)
    then have "phase_a noted (Suc h) (irq_handler N 0x80000003 s)"
      using 1 give by (auto simp: phase_a_def irq_handler_def Let_def)
    then show ?thesis using inv q by (auto simp: counted_def irq_handler_def Let_def)
  next
    case 2
    then have q: "master s = Run I_Wait" "xNotifiedTask s = Some Master" "k s < 10" "g = k s" "noted (master_notes s) = 0"
      using pending by (auto simp: phase_b_def elim: turn.cases)
    then have "phase_b noted (Suc g) (irq_handler N 0x80000003 s)"
      using 2 give by (auto simp: phase_b_def irq_handler_def Let_def turn_simps)
    then show ?thesis using inv q by (auto simp: counted_def irq_handler_def Let_def)
  qed
qed

lemma soft_irq_frame:
  assumes "soft_irq_at N l s = Some s'"
  shows "g_sw_irq_notified s' = g_sw_irq_notified s \<and> g_sw_irq_count s' = g_sw_irq_count s \<and> master s' = master s \<and>
    master_notes s' = master_notes s \<and> k s' = k s \<and> competing_ok s' = competing_ok s \<and>
    xNotifiedTask s' = (if l = Q_Start then Some Soft_Irq else xNotifiedTask s) \<and>
    g_wake_tick_errors s' = g_wake_tick_errors s \<and> tick s' = tick s \<and> fidelity s' = fidelity s \<and> before s' = before s"
  using assms by (cases l; auto simp: irq_waited_def split: option.splits if_splits)

lemma own_step:
  assumes ok: "notify_ok N noted" and step: "soft_irq_at N l s = Some s'"
    and own: "own (Run l) (q_i s) p (noted (irq_notes s)) h"
  shows "tohost_word s' = tohost_word s \<and> soft_irq s' \<noteq> Absent \<and> soft_irq s' \<noteq> Run Q_Start \<and>
    own (soft_irq s') (q_i s') (if l = Q_Loop \<and> q_i s < 5 then 1 else p) (noted (irq_notes s')) h \<and>
    clint_msip s' = (if l = Q_Loop \<and> q_i s < 5 then 1 else clint_msip s)"
proof -
  note take = notify_cases(3)[OF ok]
  show ?thesis using step own by (cases l; auto simp: irq_waited_def dest!: take split: option.splits if_splits)
qed

lemma counted_soft_irq:
  assumes ok: "notify_ok N noted" and inv: "counted noted s" and l: "soft_irq s = Run l" "soft_irq_at N l s = Some s'"
  shows "counted noted s'"
proof -
  note same = soft_irq_frame[OF l(2)]
  from inv consider h where "phase_a noted h s" | g where "phase_b noted g s" unfolding counted_def by blast
  then show ?thesis
  proof cases
    case 1
    then have own: "own (Run l) (q_i s) (clint_msip s) (noted (irq_notes s)) h" "6 < place (master s)"
        "xNotifiedTask s = Some Soft_Irq \<or> l = Q_Start"
      using l(1) by (auto simp: phase_a_def)
    have "phase_a noted h s'" using 1 same own_step[OF ok l(2) own(1)] own(2,3) by (auto simp: phase_a_def)
    then show ?thesis using inv same unfolding counted_def by auto
  next
    case 2
    then have own: "own (Run l) (q_i s) 0 (noted (irq_notes s)) 5" "l \<noteq> Q_Start" "\<not> (l = Q_Loop \<and> q_i s < 5)"
      using l(1) by (auto simp: phase_b_def)
    have "phase_b noted g s'" using 2 same own_step[OF ok l(2) own(1)] own(2,3) by (auto simp: phase_b_def)
    then show ?thesis using inv same unfolding counted_def by auto
  qed
qed

lemma irq_master_frame:
  assumes "master_at creates N l s = Some s'"
  shows "g_sw_irq_notified s' = g_sw_irq_notified s \<and> g_sw_irq_count s' = g_sw_irq_count s \<and> q_i s' = q_i s \<and>
    irq_notes s' = irq_notes s \<and> g_wake_tick_errors s' = g_wake_tick_errors s \<and> tick s' = tick s \<and> before s' = before s"
  using assms by (cases l; auto simp: master_waited_def Let_def split: option.splits if_splits)

text \<open>The master before its own interrupts.\<close>

lemma master_early:
  assumes "master_at creates N l s = Some s'" "rank l \<le> 9 \<or> l = I_Spins" "master s = Run l"
  shows "clint_msip s' = clint_msip s \<and> master_notes s' = master_notes s \<and> xNotifiedTask s' = xNotifiedTask s \<and>
    (soft_irq s' = soft_irq s \<or> l = I_Soft_Irq \<and> soft_irq s' \<in> {Absent, Run Q_Start}) \<and>
    (if place (master s') \<le> 10 then tohost_word s' = tohost_word s
     else master s' = Run I_Spins \<and> (if l = I_Spins then tohost_word s' = tohost_word s else tohost_word s' = Some 2)) \<and>
    (place (master s') \<le> 6 \<longrightarrow> rank l \<le> 6 \<and> l \<noteq> I_Soft_Irq) \<and>
    (8 \<le> place (master s') \<and> place (master s') \<le> 10 \<longrightarrow> g_sw_irq_count s = 5 \<or> 8 \<le> rank l \<and> rank l \<le> 10)"
  using assms by (cases l; auto simp: Let_def split: if_splits)

lemma counted_master:
  assumes ok: "notify_ok N noted" and inv: "counted noted s" and step: "master s = Run l" "master_at creates N l s = Some s'"
  shows "counted noted s'"
proof -
  note take = notify_cases(3)[OF ok]
  note same = irq_master_frame[OF step(2)]
  from inv consider h where "phase_a noted h s" | g where "phase_b noted g s" unfolding counted_def by blast
  then have "(\<exists>h. phase_a noted h s') \<or> (\<exists>g. phase_b noted g s')"
  proof cases
    case 1
    note a = 1
    show ?thesis
    proof (cases "l = I_Target")
      case True
      then have "own (soft_irq s) (q_i s) (clint_msip s) (noted (irq_notes s)) 5" "h = 5" using a step(1) by (auto simp: phase_a_def)
      moreover from this have "clint_msip s = 0" by (auto elim: own.cases)
      ultimately have "phase_b noted 0 s'" using a step True by (auto simp: phase_a_def phase_b_def turn_simps)
      then show ?thesis by blast
    next
      case False
      then have l: "rank l \<le> 9 \<or> l = I_Spins" if "\<And>ms l'. l \<noteq> I_Nap ms l'"
        using a step(1) that by (cases l) (auto simp: phase_a_def split: if_splits)
      show ?thesis
      proof (cases "\<exists>ms l'. l = I_Nap ms l'")
        case True
        then have "phase_a noted h s'" using a step by (auto simp: phase_a_def split: if_splits)
        then show ?thesis by blast
      next
        case no_nap: False
        have l': "rank l \<le> 9 \<or> l = I_Spins" using l no_nap by blast
        note early = master_early[OF step(2) l' step(1)]
        have h: "h \<le> 5" "g_sw_irq_count s = of_nat h" using a own_at_most by (auto simp: phase_a_def)
        have "8 \<le> place (master s') \<and> place (master s') \<le> 10 \<longrightarrow> h = 5"
        proof
          assume "8 \<le> place (master s') \<and> place (master s') \<le> 10"
          then have "g_sw_irq_count s = 5 \<or> 8 \<le> place (master s) \<and> place (master s) \<le> 10" using early step(1) by simp
          then show "h = 5" using h five a by (auto simp: phase_a_def)
        qed
        moreover have "own (soft_irq s') (q_i s') (clint_msip s') (noted (irq_notes s')) h"
        proof (cases "soft_irq s' = soft_irq s")
          case True
          then show ?thesis using a early same by (auto simp: phase_a_def)
        next
          case False
          then have new: "l = I_Soft_Irq" "soft_irq s' \<in> {Absent, Run Q_Start}" using early by auto
          then have "soft_irq s = Absent" using a step(1) by (simp add: phase_a_def)
          then show ?thesis using new a early same by (auto simp: phase_a_def)
        qed
        moreover have "xNotifiedTask s' = Some Soft_Irq \<or> soft_irq s' \<in> {Absent, Run Q_Start}"
          using a early by (auto simp: phase_a_def)
        moreover have "place (master s') \<le> 6 \<longrightarrow> soft_irq s' = Absent"
          using a early step(1) by (auto simp: phase_a_def)
        moreover have "if place (master s') \<le> 10 then tohost_word s' = None else tohost_word s' = Some 2 \<and> master s' = Run I_Spins"
        proof (cases "l = I_Spins")
          case True
          then show ?thesis using a step by (simp add: phase_a_def)
        next
          case False
          then have "place (master s) \<le> 10" using l' step(1) by simp
          then have "tohost_word s = None" using a by (simp add: phase_a_def)
          then show ?thesis using early False by auto
        qed
        moreover have "noted (master_notes s') = 0" "g_sw_irq_count s' = of_nat h" using a early same h by (simp_all add: phase_a_def)
        ultimately have "phase_a noted h s'" unfolding phase_a_def by blast
        then show ?thesis by blast
      qed
    qed
  next
    case 2
    note b = 2
    then have l: "l \<in> {I_Raise, I_Wait, I_Competing_Done, I_Passed, I_Spins}" using step(1) by (auto simp: phase_b_def elim: turn.cases)
    have "phase_b noted g s'"
      using b step l by (cases l; auto simp: phase_b_def turn_simps master_waited_def dest!: take split: option.splits if_splits)
    then show ?thesis by blast
  qed
  then show ?thesis using inv same unfolding counted_def by auto
qed

lemma irq_counted:
  assumes ok: "notify_ok N noted" "noted q = 0" "noted m = 0"
    and run: "irq_run creates N ends xs (irq_start creates q m) = Some s" "\<forall>a. Expires a \<notin> set xs"
  shows "counted noted s"
proof (rule irq_run_inv[OF run(1), where P = "counted noted"])
  have "phase_a noted 0 (irq_start creates q m)" using ok by (auto simp: phase_a_def irq_start_def)
  then show "counted noted (irq_start creates q m)" by (auto simp: counted_def irq_start_def)
next
  fix x s s' assume x: "x \<in> set xs" "counted noted s" "irq_step creates N ends x s = Some s'"
  show "counted noted s'"
  proof (cases x)
    case (Acts a)
    then have step: "actor_step creates N a s = Some s'" using x(3) by (simp split: if_splits)
    show ?thesis
    proof (cases a)
      case Master
      then show ?thesis using step counted_master[OF ok(1) x(2)] by (auto split: thread.splits)
    next
      case Soft_Irq
      then show ?thesis using step counted_soft_irq[OF ok(1) x(2)] by (auto split: thread.splits)
    next
      case Fidelity
      then obtain l where "s' = fidelity_at l s" using step by (auto split: thread.splits)
      then show ?thesis using x(2) by (cases l; auto simp: counted_def phase_a_def phase_b_def Let_def)
    qed
  next
    case Interrupt
    then show ?thesis using x(3) counted_interrupt[OF ok(1) x(2)] by (auto split: if_splits)
  next
    case Ticks
    have "phase_a noted h s \<Longrightarrow> phase_a noted h (irq_tick ends s)" "phase_b noted g s \<Longrightarrow> phase_b noted g (irq_tick ends s)" for h g
      by (auto simp: phase_a_def phase_b_def irq_tick_def Let_def turn_awake split: if_splits)
    then show ?thesis using x Ticks by (auto simp: counted_def irq_tick_def Let_def)
  next
    case (Cycles d)
    then show ?thesis using x by (auto simp: counted_def phase_a_def phase_b_def)
  next
    case (Expires a)
    then show ?thesis using x(1) run(2) by simp
  qed
qed

section \<open>Waking on time\<close>

text \<open>The delay that the fidelity task measures, from the tick \<open>n\<close> at which it reads the clock.\<close>

fun delay_inv :: "f_label thread \<Rightarrow> ticks \<Rightarrow> nat \<Rightarrow> bool" where
  "delay_inv (Run F_Nap) b m \<longleftrightarrow> (\<exists>n \<le> m. b = of_nat n)"
| "delay_inv (Sleep since d l) b m \<longleftrightarrow> l = F_Check \<and> d = 5 \<and> (\<exists>n j. n \<le> j \<and> j \<le> m \<and> b = of_nat n \<and> since = of_nat j)"
| "delay_inv (Run F_Check) b m \<longleftrightarrow> (\<exists>n. n + 5 \<le> m \<and> b = of_nat n)"
| "delay_inv _ b m \<longleftrightarrow> True"

definition on_time :: "'n irq_test \<Rightarrow> bool" where
  "on_time s \<longleftrightarrow> g_wake_tick_errors s = 0 \<and> delay_inv (fidelity s) (before s) (tick s)"

lemma on_time_step:
  assumes inv: "on_time s" and fits: "tick s < 2 ^ 32" and l: "fidelity s = Run l"
  shows "on_time (fidelity_at l s)"
proof (cases l)
  case F_Check
  then obtain n where "n + 5 \<le> tick s" "before s = of_nat n" using inv l by (auto simp: on_time_def)
  then have "before s + 5 \<le> now s" using delay_passed[of n 5 "tick s"] fits by simp
  then show ?thesis using inv F_Check by (simp add: on_time_def Let_def)
next
  case F_Nap
  then obtain n where "n \<le> tick s" "before s = of_nat n" using inv l by (auto simp: on_time_def)
  then have "delay_inv (Sleep (now s) 5 F_Check) (before s) (tick s)" by auto
  then show ?thesis using inv F_Nap by (simp add: on_time_def del: delay_inv.simps)
next
  case F_Loop
  have "delay_inv (Run F_Nap) (now s) (tick s)" by auto
  then show ?thesis using inv F_Loop by (simp add: on_time_def del: delay_inv.simps(1))
qed

lemma delay_inv_tick:
  assumes ends: "\<And>since d t. ends since d t = (t = since + d)" and inv: "delay_inv t b m" and fits: "Suc m < 2 ^ 32"
  shows "delay_inv (wake ends (of_nat (Suc m)) t) b (Suc m)"
proof (cases t)
  case (Sleep since d l)
  then obtain n j where j: "l = F_Check" "d = 5" "n \<le> j" "j \<le> m" "b = of_nat n" "since = of_nat j" using inv by auto
  have "delay_inv (Run F_Check) b (Suc m)" if "of_nat (Suc m) = (of_nat j :: ticks) + 5"
  proof -
    have "j + 5 \<le> Suc m" using delay_due[of m j 5] that j(4) fits by simp
    then show ?thesis unfolding delay_inv.simps using j(3,5) by (intro exI[of _ n]) simp
  qed
  moreover have "delay_inv (Sleep since 5 F_Check) b (Suc m)"
    unfolding delay_inv.simps using j(3-6) by (intro conjI exI[of _ n] exI[of _ j]) auto
  ultimately show ?thesis unfolding Sleep j(1,2,6) wake.simps ends by (simp del: delay_inv.simps of_nat_Suc)
next
  case (Run l)
  have "delay_inv (Run l) b (Suc m)"
  proof (cases l)
    case F_Check
    then obtain n where "n + 5 \<le> m" "b = of_nat n" using inv Run by auto
    then show ?thesis unfolding F_Check delay_inv.simps by (intro exI[of _ n]) simp
  next
    case F_Nap
    then obtain n where "n \<le> m" "b = of_nat n" using inv Run by auto
    then show ?thesis unfolding F_Nap delay_inv.simps by (intro exI[of _ n]) simp
  qed simp
  then show ?thesis using Run by simp
qed simp_all

lemma irq_on_time:
  assumes ends: "\<And>since d t. ends since d t = (t = since + d)"
    and run: "irq_run creates N ends xs (irq_start creates q m) = Some s"
  shows "tick s < 2 ^ 32 \<longrightarrow> on_time s"
proof (rule irq_run_inv[OF run, where P = "\<lambda>s. tick s < 2 ^ 32 \<longrightarrow> on_time s"])
  show "tick (irq_start creates q m) < 2 ^ 32 \<longrightarrow> on_time (irq_start creates q m)" by (simp add: on_time_def irq_start_def)
next
  fix x s s' assume x: "tick s < 2 ^ 32 \<longrightarrow> on_time s" "irq_step creates N ends x s = Some s'"
  show "tick s' < 2 ^ 32 \<longrightarrow> on_time s'"
  proof (cases x)
    case (Acts a)
    then have step: "actor_step creates N a s = Some s'" using x(2) by (simp split: if_splits)
    show ?thesis
    proof (cases a)
      case Master
      then obtain l where l: "master_at creates N l s = Some s'" using step by (auto split: thread.splits)
      then have "fidelity s' = fidelity s \<or> fidelity s' = Absent \<or> fidelity s' = Run F_Loop"
        by (cases l; auto simp: master_waited_def Let_def split: option.splits if_splits)
      then show ?thesis using x(1) irq_master_frame[OF l] by (auto simp: on_time_def)
    next
      case Soft_Irq
      then obtain l where l: "soft_irq_at N l s = Some s'" using step by (auto split: thread.splits)
      then show ?thesis using x(1) soft_irq_frame[OF l] by (auto simp: on_time_def)
    next
      case Fidelity
      then obtain l where l: "fidelity s = Run l" "s' = fidelity_at l s" using step by (auto split: thread.splits)
      moreover have "tick (fidelity_at l s) = tick s" by (cases l) (auto simp: Let_def)
      ultimately show ?thesis using x(1) on_time_step by metis
    qed
  next
    case Interrupt
    then show ?thesis using x by (auto simp: on_time_def irq_handler_def Let_def split: if_splits option.splits)
  next
    case Ticks
    then show ?thesis using x delay_inv_tick[OF ends] by (auto simp: on_time_def irq_tick_def Let_def simp del: of_nat_Suc)
  next
    case (Cycles d)
    then show ?thesis using x by (auto simp: on_time_def)
  next
    case (Expires a)
    then show ?thesis using x by (cases a) (auto simp: on_time_def master_waited_def irq_waited_def split: if_splits)
  qed
qed

section \<open>What the test shows\<close>


text \<open>C36. On a kernel whose delays last as long as they should, the fidelity task never counts an error, as long as the
  tick counter has not wrapped.\<close>

theorem irq_wakes_on_time:
  assumes "\<And>since d t. ends since d t = (t = since + d)"
    and "irq_run creates N ends xs (irq_start creates q m) = Some s" "tick s < 2 ^ 32"
  shows "g_wake_tick_errors s = 0"
  using irq_on_time[OF assms(1,2)] assms(3) by (simp add: on_time_def)

section \<open>Examples\<close>

definition calm :: "action list" where
  "calm = replicate 2 (Acts Master) @ [Cycles 6] @ replicate 4 (Acts Master) @
     concat (replicate 6 (replicate 2 (Acts Fidelity) @ replicate 5 Ticks @ [Acts Fidelity])) @ [Acts Fidelity] @ replicate 5 Ticks @
     replicate 3 (Acts Master) @ [Acts Soft_Irq] @ concat (replicate 5 [Acts Soft_Irq, Interrupt, Acts Soft_Irq]) @ [Acts Soft_Irq] @
     replicate 25 Ticks @ replicate 4 (Acts Master) @ concat (replicate 10 [Acts Master, Interrupt, Acts Master]) @ replicate 3 (Acts Master)"

abbreviation calm_run :: "ee_u32 irq_test option" where
  "calm_run \<equiv> irq_run (\<lambda>_. True) counter_notifier (\<lambda>since d t. t = since + d) calm (irq_start (\<lambda>_. True) 0 0)"

lemma calm_passes: "map_option (\<lambda>s. (tohost_word s, f_i s, fidelity s, tick s)) calm_run = Some (Some 1, 6, Gone, 60)"
  by code_simp


lemma irq_wakes_on_time_witness:
  "\<exists>s. calm_run = Some s \<and> f_i s = 6 \<and> g_wake_tick_errors s = 0"
proof -
  obtain s where s: "calm_run = Some s" "f_i s = 6" "tick s = 60" using calm_passes by auto
  from irq_wakes_on_time[OF _ s(1)] s show ?thesis by auto
qed

end
