(* ===== verification/Ee_Number.thy ===== *)
theory Ee_Number
  imports Uart
begin

text \<open>
  The field writers of the bare-metal template's \<^verbatim>\<open>ee_printf\<close>
  (\<^verbatim>\<open>coremark/src/barebones/ee_printf.c\<close>): \<open>strnlen\<close>, \<open>skip_atoi\<close>, \<open>number\<close>, \<open>eaddr\<close> and
  \<open>iaddr\<close>, and the texts they write.

  \<open>int\<close>, \<open>long\<close>, \<open>size_t\<close> and pointers have 32 bits.  \<open>str\<close> is the text written so far: the code only
  ever writes at the pointer of that name and advances it.  Memory behind a \<open>char *\<close> is the list of
  the bytes from there to the end of their object, so reading past its end is \<open>None\<close>.
\<close>

type_synonym c_int = "32 word"

section \<open>Flags\<close>

definition ZEROPAD :: c_int where "ZEROPAD = push_bit 0 1"
definition SIGN :: c_int where "SIGN = push_bit 1 1"
definition PLUS :: c_int where "PLUS = push_bit 2 1"
definition SPACE :: c_int where "SPACE = push_bit 3 1"
definition LEFT :: c_int where "LEFT = push_bit 4 1"
definition HEX_PREP :: c_int where "HEX_PREP = push_bit 5 1"
definition UPPERCASE :: c_int where "UPPERCASE = push_bit 6 1"

definition has :: "c_int \<Rightarrow> c_int \<Rightarrow> bool" where
  "has flags f \<longleftrightarrow> flags AND f \<noteq> 0"

lemma has_bit:
  "has fl ZEROPAD = bit fl 0" "has fl SIGN = bit fl 1" "has fl PLUS = bit fl 2" "has fl SPACE = bit fl 3"
  "has fl LEFT = bit fl 4" "has fl HEX_PREP = bit fl 5" "has fl UPPERCASE = bit fl 6"
  by (simp_all only: has_def ZEROPAD_def SIGN_def PLUS_def SPACE_def LEFT_def HEX_PREP_def UPPERCASE_def
      push_bit_of_1 and_exp_eq_0_iff_not_bit not_not)

lemma has_or: "has (a OR b) f \<longleftrightarrow> has a f \<or> has b f"
  by (auto simp: has_def bit_eq_iff bit_simps)

lemma has_or_flag: "has fl (f OR g) \<longleftrightarrow> has fl f \<or> has fl g"
  by (auto simp: has_def bit_eq_iff bit_simps)

lemma has_flags [simp]:
  "has 0 f = False"
  "has UPPERCASE LEFT = False" "has ZEROPAD LEFT = False" "has ZEROPAD ZEROPAD = True"
  "has SIGN SIGN = True" "has (fl AND NOT ZEROPAD) ZEROPAD = False"
  "has (fl AND NOT ZEROPAD) LEFT = has fl LEFT" "has (fl AND NOT ZEROPAD) SIGN = has fl SIGN"
  "has (fl AND NOT ZEROPAD) PLUS = has fl PLUS" "has (fl AND NOT ZEROPAD) SPACE = has fl SPACE"
  "has (fl AND NOT ZEROPAD) HEX_PREP = has fl HEX_PREP"
  by (simp_all add: has_bit) (simp_all add: ZEROPAD_def SIGN_def UPPERCASE_def has_def bit_simps)

section \<open>Characters and strings\<close>

definition is_digit :: "ee_u8 \<Rightarrow> bool" where
  "is_digit c \<longleftrightarrow> 48 \<le> c \<and> c \<le> 57"

text \<open>The tables \<open>digits\<close> and \<open>upper_digits\<close>.\<close>

definition lower_digits :: "ee_u8 list" where
  "lower_digits = bytes ''0123456789abcdefghijklmnopqrstuvwxyz'' @ [0]"

definition upper_digits :: "ee_u8 list" where
  "upper_digits = bytes ''0123456789ABCDEFGHIJKLMNOPQRSTUVWXYZ'' @ [0]"

definition digit_of :: "ee_u8 list \<Rightarrow> c_int \<Rightarrow> ee_u8 option" where
  "digit_of dig d = aread dig (unat d)"

text \<open>\<open>for (sc = s; *sc != '\0' && count--; ++sc) ;\<close>\<close>

fun strnlen :: "ee_u8 list \<Rightarrow> c_int \<Rightarrow> nat option" where
  "strnlen [] n = None"
| "strnlen (c # s) n = (if c = 0 \<or> n = 0 then Some 0 else map_option Suc (strnlen s (n - 1)))"

text \<open>\<open>while (is_digit(**s)) i = i * 10 + *((*s)++) - '0';\<close>\<close>

fun skip_atoi :: "c_int \<Rightarrow> ee_u8 list \<Rightarrow> (c_int \<times> ee_u8 list) option" where
  "skip_atoi i [] = None"
| "skip_atoi i (c # s) = (if is_digit c then skip_atoi (i * 10 + ucast c - 48) s else Some (i, c # s))"

lemma strnlen_eq:
  "strnlen s n = (if 0 \<in> set s \<or> unat n < length s
     then Some (min (unat n) (length (takeWhile (\<lambda>c. c \<noteq> 0) s))) else None)"
proof (induction s n rule: strnlen.induct)
  case (2 c s n)
  show ?case
  proof (cases "c = 0 \<or> n = 0")
    case False
    then have "0 < unat n" by (simp add: unat_gt_0)
    moreover have "unat (n - 1) = unat n - 1" using False by (simp add: unat_minus_one)
    ultimately show ?thesis using 2 False by (auto simp: min_def)
  qed auto
qed simp

section \<open>Padding loops\<close>

lemma sint_diff [fits]:
  assumes "- (2 ^ (LENGTH('a) - 1)) \<le> sint a - sint b" "sint a - sint b < 2 ^ (LENGTH('a) - 1)"
  shows "sint (a - b :: 'a::len word) = sint a - sint b"
  using assms by (simp add: sint_word_ariths signed_take_bit_int_eq_self_iff)

lemma sint_dec: "b < sint (n :: c_int) \<Longrightarrow> -(2 ^ 31) \<le> b \<Longrightarrow> sint (n - 1) = sint n - 1"
  using sint_lt[of n] by (subst sint_diff) simp_all

text \<open>\<open>while (bound < n--) *str++ = c;\<close>: the bytes written and the last value of \<open>n\<close>.\<close>

function pad :: "ee_u8 \<Rightarrow> c_int \<Rightarrow> c_int \<Rightarrow> ee_u8 list \<times> c_int" where
  "pad c bound n = (if sint bound < sint n then let (out, m) = pad c bound (n - 1) in (c # out, m) else ([], n - 1))"
  by pat_completeness auto
termination
proof (relation "measure (\<lambda>(c, bound, n). nat (sint n - sint bound))")
  fix c and bound n :: c_int
  assume *: "sint bound < sint n"
  then have "sint (n - 1) = sint n - 1" using sint_ge[of bound] by (intro sint_dec) simp_all
  with * show "((c, bound, n - 1), c, bound, n) \<in> measure (\<lambda>(c, bound, n). nat (sint n - sint bound))" by simp
qed simp

text \<open>\<open>while (--n > 0) *str++ = c;\<close>\<close>

function pad_before :: "ee_u8 \<Rightarrow> c_int \<Rightarrow> ee_u8 list \<times> c_int" where
  "pad_before c n = (if 0 < sint (n - 1) then let (out, m) = pad_before c (n - 1) in (c # out, m) else ([], n - 1))"
  by pat_completeness auto
termination
proof (relation "measure (\<lambda>(c, n). nat (sint (n - 1)))")
  fix c :: ee_u8 and n :: c_int
  assume *: "0 < sint (n - 1)"
  then have "sint (n - 1 - 1) = sint (n - 1) - 1" by (intro sint_dec[of 0]) simp_all
  with * show "((c, n - 1), c, n) \<in> measure (\<lambda>(c, n). nat (sint (n - 1)))" by simp
qed simp

declare pad.simps [simp del] pad_before.simps [simp del]

section \<open>\<open>number\<close>\<close>

text \<open>\<open>while (i-- > 0) *str++ = tmp[i];\<close>\<close>

fun take_back :: "buffer \<Rightarrow> nat \<Rightarrow> ee_u8 list option" where
  "take_back b 0 = Some []"
| "take_back b (Suc i) = do { c \<leftarrow> bget b i; cs \<leftarrow> take_back b i; Some (c # cs) }"

text \<open>The part of \<open>number\<close> that decides on the sign: the sign character or \<open>0\<close>, the number and the
  width that are left.\<close>

definition sign_of :: "c_int \<Rightarrow> c_int \<Rightarrow> c_int \<Rightarrow> ee_u8 \<times> c_int \<times> c_int" where
  "sign_of type num width =
     (if has type SIGN then
        if sint num < 0 then (45, - num, width - 1)
        else if has type PLUS then (43, num, width - 1)
        else if has type SPACE then (32, num, width - 1)
        else (0, num, width)
      else (0, num, width))"

text \<open>The digits, least significant first, in \<open>tmp[66]\<close>, and their number.\<close>

definition to_digits :: "ee_u8 list \<Rightarrow> c_int \<Rightarrow> c_int \<Rightarrow> (buffer \<times> nat) option" where
  "to_digits dig base num =
     (if num = 0 then do { tmp \<leftarrow> bput (replicate 66 None) 0 48; Some (tmp, 1) }
      else do { (tmp, i, _) \<leftarrow> digit_loop (digit_of dig) base (replicate 66 None, 0, num); Some (tmp, i) })"

text \<open>\<open>number\<close> returns the null pointer (the inner \<open>None\<close>) for a base that it does not know.\<close>

definition number :: "ee_u8 list \<Rightarrow> c_int \<Rightarrow> c_int \<Rightarrow> c_int \<Rightarrow> c_int \<Rightarrow> c_int \<Rightarrow> ee_u8 list option option" where
  "number str num base width precision type =
     (let dig = (if has type UPPERCASE then upper_digits else lower_digits);
          type = (if has type LEFT then type AND NOT ZEROPAD else type) in
      if sint base < 2 \<or> 36 < sint base then Some None
      else
        let c = (if has type ZEROPAD then 48 else 32);
            (sign, num, width) = sign_of type num width;
            width = (if has type HEX_PREP
                    then if base = 16 then width - 2 else if base = 8 then width - 1 else width
                    else width) in do {
        (tmp, i) \<leftarrow> to_digits dig base num;
        x \<leftarrow> aread lower_digits 33;
        let precision = (if sint precision < int i then of_nat i else precision);
        let width = width - precision;
        let (blanks, width) = (if has type (ZEROPAD OR LEFT) then ([], width) else pad 32 0 width);
        let str = str @ blanks;
        let str = (if sign \<noteq> 0 then str @ [sign] else str);
        let str = (if has type HEX_PREP
                   then if base = 8 then str @ [48] else if base = 16 then str @ [48, x] else str
                   else str);
        let (fill, width) = (if has type LEFT then ([], width) else pad c 0 width);
        let (zeros, _) = pad 48 (of_nat i) precision;
        ds \<leftarrow> take_back tmp i;
        let (trail, _) = pad 32 0 width;
        Some (Some (str @ fill @ zeros @ ds @ trail)) })"

section \<open>\<open>eaddr\<close> and \<open>iaddr\<close>\<close>

text \<open>\<open>tmp[len++] = c\<close>\<close>

definition bpush :: "ee_u8 \<Rightarrow> buffer \<times> nat \<Rightarrow> (buffer \<times> nat) option" where
  "bpush c = (\<lambda>(tmp, len). map_option (\<lambda>tmp. (tmp, len + 1)) (bput tmp len c))"

definition eaddr_body :: "ee_u8 list \<Rightarrow> ee_u8 list \<Rightarrow> nat \<Rightarrow> buffer \<times> nat \<Rightarrow> (buffer \<times> nat) option" where
  "eaddr_body dig addr i t = do {
     t \<leftarrow> (if i \<noteq> 0 then bpush 58 t else Some t);
     a \<leftarrow> aread addr i;
     h \<leftarrow> aread dig (unat (drop_bit 4 a));
     t \<leftarrow> bpush h t;
     l \<leftarrow> aread dig (unat (a AND 0x0F));
     bpush l t }"

text \<open>The common end of both functions: the text in \<open>tmp\<close>, in a field of the given width.\<close>

definition put_field :: "ee_u8 list \<Rightarrow> buffer \<times> nat \<Rightarrow> c_int \<Rightarrow> c_int \<Rightarrow> ee_u8 list option" where
  "put_field str t width type = (case t of (tmp, len) \<Rightarrow>
     let (blanks, width) = (if has type LEFT then ([], width) else pad 32 (of_nat len) width) in do {
     str \<leftarrow> for_loop 0 len (\<lambda>i str. map_option (\<lambda>c. str @ [c]) (bget tmp i)) (str @ blanks);
     Some (str @ fst (pad 32 (of_nat len) width)) })"

definition eaddr :: "ee_u8 list \<Rightarrow> ee_u8 list \<Rightarrow> c_int \<Rightarrow> c_int \<Rightarrow> c_int \<Rightarrow> ee_u8 list option" where
  "eaddr str addr width precision type = do {
     let dig = (if has type UPPERCASE then upper_digits else lower_digits);
     t \<leftarrow> for_loop 0 6 (eaddr_body dig addr) (replicate 24 None, 0);
     put_field str t width type }"

definition iaddr_body :: "ee_u8 list \<Rightarrow> nat \<Rightarrow> buffer \<times> nat \<Rightarrow> (buffer \<times> nat) option" where
  "iaddr_body addr i t = do {
     t \<leftarrow> (if i \<noteq> 0 then bpush 46 t else Some t);
     a \<leftarrow> aread addr i;
     let n = (ucast a :: c_int);
     if n = 0 then do { d \<leftarrow> digit_of lower_digits 0; bpush d t }
     else do {
       (n, t) \<leftarrow>
         (if 100 \<le> n then do {
            d \<leftarrow> digit_of lower_digits (n div 100);
            t \<leftarrow> bpush d t;
            let n = n mod 100;
            d \<leftarrow> digit_of lower_digits (n div 10);
            t \<leftarrow> bpush d t;
            Some (n mod 10, t) }
          else if 10 \<le> n then do {
            d \<leftarrow> digit_of lower_digits (n div 10);
            t \<leftarrow> bpush d t;
            Some (n mod 10, t) }
          else Some (n, t));
       d \<leftarrow> digit_of lower_digits n;
       bpush d t } }"

definition iaddr :: "ee_u8 list \<Rightarrow> ee_u8 list \<Rightarrow> c_int \<Rightarrow> c_int \<Rightarrow> c_int \<Rightarrow> ee_u8 list option" where
  "iaddr str addr width precision type = do {
     t \<leftarrow> for_loop 0 4 (iaddr_body addr) (replicate 24 None, 0);
     put_field str t width type }"

section \<open>The texts\<close>

text \<open>A field: what precedes the digits, the digits, and the padding that brings them to the width.\<close>

definition field :: "c_int \<Rightarrow> int \<Rightarrow> ee_u8 list \<Rightarrow> ee_u8 list \<Rightarrow> ee_u8 list" where
  "field type width head body =
     (let n = nat (width - int (length head + length body)) in
      if has type LEFT then head @ body @ replicate n 32
      else if has type ZEROPAD then head @ replicate n 48 @ body
      else replicate n 32 @ head @ body)"

definition magnitude :: "c_int \<Rightarrow> c_int \<Rightarrow> nat" where
  "magnitude type num = (if has type SIGN then nat \<bar>sint num\<bar> else unat num)"

definition sign_text :: "c_int \<Rightarrow> c_int \<Rightarrow> ee_u8 list" where
  "sign_text type num =
     (if \<not> has type SIGN then []
      else if sint num < 0 then [45]
      else if has type PLUS then [43]
      else if has type SPACE then [32]
      else [])"

definition prefix_text :: "c_int \<Rightarrow> c_int \<Rightarrow> ee_u8 list" where
  "prefix_text type base =
     (if \<not> has type HEX_PREP then [] else if base = 16 then [48, 120] else if base = 8 then [48] else [])"

definition digit_char :: "c_int \<Rightarrow> nat \<Rightarrow> ee_u8" where
  "digit_char type d = (if has type UPPERCASE then upper_digits else lower_digits) ! d"

definition digits_text :: "c_int \<Rightarrow> c_int \<Rightarrow> c_int \<Rightarrow> int \<Rightarrow> ee_u8 list" where
  "digits_text type num base precision =
     (let ds = numeral_text (digit_char type) (unat base) (magnitude type num) in
      replicate (nat (precision - int (length ds))) 48 @ ds)"

definition number_text :: "c_int \<Rightarrow> c_int \<Rightarrow> c_int \<Rightarrow> c_int \<Rightarrow> c_int \<Rightarrow> ee_u8 list" where
  "number_text num base width precision type =
     field type (sint width) (sign_text type num @ prefix_text type base) (digits_text type num base (sint precision))"

section \<open>The padding loops write what they are meant to\<close>

lemma pad_eq: "pad c b n = (replicate (nat (sint n - sint b)) c, if sint b < sint n then b - 1 else n - 1)"
proof (induction c b n rule: pad.induct)
  case (1 c b n)
  show ?case
  proof (cases "sint b < sint n")
    case True
    then have dec: "sint (n - 1) = sint n - 1" using sint_ge[of b] by (intro sint_dec) simp_all
    have "nat (sint n - sint b) = Suc (nat (sint (n - 1) - sint b))" using True dec by simp
    moreover have "n - 1 = b" if "\<not> sint b < sint (n - 1)"
    proof -
      have "sint (n - 1) = sint b" using that True dec by simp
      then show ?thesis by (rule signed_word_eqI)
    qed
    ultimately show ?thesis using True 1 by (subst pad.simps) auto
  qed (simp add: pad.simps)
qed

lemma pad_before_eq: "pad_before c n = (replicate (nat (sint (n - 1))) c, if 0 < sint (n - 1) then 0 else n - 1)"
proof (induction c n rule: pad_before.induct)
  case (1 c n)
  show ?case
  proof (cases "0 < sint (n - 1)")
    case True
    then have dec: "sint (n - 1 - 1) = sint (n - 1) - 1" by (intro sint_dec[of 0]) simp_all
    have "nat (sint (n - 1)) = Suc (nat (sint (n - 1 - 1)))" using True dec by simp
    moreover have "n - 1 - 1 = 0" if "\<not> 0 < sint (n - 1 - 1)"
    proof -
      have "sint (n - 1 - 1) = sint (0 :: c_int)" using that True dec by simp
      then show ?thesis by (rule signed_word_eqI)
    qed
    ultimately show ?thesis using True 1 by (subst pad_before.simps) auto
  qed (simp add: pad_before.simps)
qed

section \<open>\<open>number\<close> writes the text\<close>

lemma digit_tables [simp]: "length lower_digits = 37" "length upper_digits = 37"
  "lower_digits ! 0 = 48" "upper_digits ! 0 = 48" "lower_digits ! 33 = 120"
  by (simp_all add: lower_digits_def upper_digits_def bytes_def)

lemma take_back_eq: "(\<And>k. k < n \<Longrightarrow> b ! k = Some (cs k)) \<Longrightarrow> n \<le> length b \<Longrightarrow> take_back b n = Some (map cs (rev [0..<n]))"
  by (induction n) (simp_all add: bget_def)

lemma to_digits_text:
  fixes num base :: c_int
  assumes "2 \<le> unat base" "unat base \<le> 36" "length dig = 37" "dig ! 0 = 48"
  defines "t \<equiv> numeral_text (\<lambda>d. dig ! d) (unat base) (unat num)"
  shows "\<exists>tmp. to_digits dig base num = Some (tmp, length t) \<and> take_back tmp (length t) = Some t \<and> length t \<le> 32"
proof (cases "num = 0")
  case True
  then show ?thesis using assms(4) by (simp add: to_digits_def t_def numeral_text_def bput_def bget_def)
next
  case False
  let ?ds = "digits (unat base) (unat num)"
  have "unat num < unat base ^ 32"
    using power_mono[of 2 "unat base" 32] assms(1) unsigned_less[of num, where 'a = nat] by simp
  then have len: "length ?ds \<le> 32" by (rule length_digits[OF assms(1)])
  have "digit_of dig d = Some (dig ! unat d)" if "unat d < unat base" for d
    using that assms(2,3) by (simp add: digit_of_def)
  with digit_loop_spec[OF assms(1), of "digit_of dig" "\<lambda>d. dig ! d" 0 num "replicate 66 None"] len
  obtain b where b: "digit_loop (digit_of dig) base (replicate 66 None, 0, num) = Some (b, length ?ds, 0)"
    "length b = 66" "\<forall>k < length ?ds. b ! k = Some (dig ! (?ds ! k))" by auto
  have "map (\<lambda>k. dig ! (?ds ! k)) [0..<length ?ds] = map (\<lambda>d. dig ! d) ?ds" by (rule map_upt_nth)
  from arg_cong[OF this, of rev]
  have "map (\<lambda>k. dig ! (?ds ! k)) (rev [0..<length ?ds]) = map (\<lambda>d. dig ! d) (rev ?ds)"
    unfolding rev_map .
  moreover have t: "t = map (\<lambda>d. dig ! d) (rev ?ds)" using False by (simp add: t_def numeral_text_def unat_eq_zero)
  ultimately have "take_back b (length t) = Some t"
    using take_back_eq[of "length ?ds" b "\<lambda>k. dig ! (?ds ! k)"] b(2,3) len by simp
  then show ?thesis using b(1) False len t by (simp add: to_digits_def)
qed

lemma sign_of_eq:
  "sign_of type num width =
    (case sign_text type num of [] \<Rightarrow> (0, num, width)
     | c # _ \<Rightarrow> (c, if sint num < 0 then - num else num, width - 1))"
  by (simp add: sign_of_def sign_text_def)

lemma unat_of_sint: "unat (w :: c_int) = nat (sint w mod 2 ^ 32)"
  by (simp only: unat_eq_nat_uint uint_sint take_bit_eq_mod) simp

lemma magnitude_eq: "magnitude type num = unat (if sign_text type num = [45] then - num else num)"
proof -
  have "nat (- sint num) = unat (- num)" if "sint num < 0"
  proof -
    have "unat (- num) = nat ((- sint num) mod 2 ^ 32)"
      by (simp only: unat_of_sint sint_word_ariths signed_take_bit_eq_take_bit_shift) (simp add: take_bit_eq_mod mod_simps)
    then show ?thesis using that sint_ge[of num] by simp
  qed
  moreover have "nat (sint num) = unat num" if "\<not> sint num < 0"
    using that sint_lt[of num] by (simp add: unat_of_sint)
  ultimately show ?thesis by (auto simp: magnitude_def sign_text_def abs_if)
qed

lemma sint_of_small_nat [fits]: "n < 2 ^ 31 \<Longrightarrow> sint (of_nat n :: c_int) = int n"
  by (simp add: signed_of_nat signed_take_bit_int_eq_self_iff)

lemma pad_0: "pad c 0 n = (replicate (nat (sint n)) c, if 0 < sint n then -1 else n - 1)"
  by (simp add: pad_eq)

lemma pad_0_again:
  assumes "- (2 ^ 31) + 2 < sint n" "pad c 0 n = (out, m)"
  shows "pad c' 0 m = ([], m - 1)" "pad c'' 0 (m - 1) = ([], m - 1 - 1)"
proof -
  have m: "sint m < 0 \<and> - (2 ^ 31) < sint m"
  proof (cases "0 < sint n")
    case False
    then have "sint (n - 1) = sint n - 1" using assms(1) by (subst sint_diff) simp_all
    then show ?thesis using False assms by (simp add: pad_0)
  qed (use assms in \<open>auto simp: pad_0\<close>)
  then have "sint (m - 1) = sint m - 1" by (subst sint_diff) simp_all
  with m show "pad c' 0 m = ([], m - 1)" "pad c'' 0 (m - 1) = ([], m - 1 - 1)" by (simp_all add: pad_0)
qed

text \<open>The three padding loops of \<open>number\<close>: only one of them writes.\<close>

lemma padding_loops:
  assumes "- (2 ^ 31) + 2 < sint n"
  shows "(let (blanks, n) = (if has type (ZEROPAD OR LEFT) then ([], n) else pad 32 0 n);
              (fill, n) = (if has type LEFT then ([], n) else pad (if has type ZEROPAD then 48 else 32) 0 n);
              (trail, _) = pad 32 0 n
          in (str @ blanks @ head @ fill @ body @ trail))
    = str @ (let blank = replicate (nat (sint n)) in
         if has type LEFT then head @ body @ blank 32
         else if has type ZEROPAD then head @ blank 48 @ body
         else blank 32 @ head @ body)"
proof -
  obtain m where m: "\<And>c. pad c 0 n = (replicate (nat (sint n)) c, m)" by (simp add: pad_0)
  from pad_0_again[OF assms m] have "\<And>c. pad c 0 m = ([], m - 1)" "\<And>c. pad c 0 (m - 1) = ([], m - 1 - 1)" .
  with m show ?thesis by (cases "has type LEFT"; cases "has type ZEROPAD"; simp add: has_or_flag Let_def)
qed

lemma sign_text_length: "length (sign_text type num) \<le> 1" "length (prefix_text type base) \<le> 2"
  by (simp_all add: sign_text_def prefix_text_def)

lemma number_eq:
  assumes base: "2 \<le> sint base" "sint base \<le> 36"
    and fit: "- (2 ^ 29) \<le> sint width" "sint precision \<le> 2 ^ 30"
  shows "number str num base width precision type = Some (Some (str @ number_text num base width precision type))"
proof -
  define ty where "ty = (if has type LEFT then type AND NOT ZEROPAD else type)"
  have ty [simp]: "has ty LEFT = has type LEFT" "has ty SIGN = has type SIGN" "has ty PLUS = has type PLUS"
      "has ty SPACE = has type SPACE" "has ty HEX_PREP = has type HEX_PREP"
      "has ty ZEROPAD \<longleftrightarrow> has type ZEROPAD \<and> \<not> has type LEFT" by (simp_all add: ty_def)
  define sg where "sg = sign_text type num"
  define px where "px = prefix_text type base"
  define num' where "num' = (if sg = [45] then - num else num)"
  define dig where "dig = (if has type UPPERCASE then upper_digits else lower_digits)"
  define t where "t = numeral_text (\<lambda>d. dig ! d) (unat base) (unat num')"
  have t: "t = numeral_text (digit_char type) (unat base) (magnitude type num)"
  proof -
    have "digit_char type = (\<lambda>d. dig ! d)" by (simp add: fun_eq_iff digit_char_def dig_def)
    then show ?thesis by (simp add: t_def magnitude_eq num'_def sg_def)
  qed
  have "unat base = nat (sint base)" using base by (simp add: unat_of_sint)
  then have "2 \<le> unat base" "unat base \<le> 36" using base by simp_all
  moreover have "length dig = 37" "dig ! 0 = 48" by (simp_all add: dig_def)
  ultimately obtain tmp where tmp: "to_digits dig base num' = Some (tmp, length t)" "take_back tmp (length t) = Some t"
      "length t \<le> 32"
    unfolding t_def using to_digits_text by blast
  define w1 where "w1 = width - of_nat (length sg) - of_nat (length px)"
  define p where "p = (if sint precision < int (length t) then of_nat (length t) else precision)"
  have len: "length sg \<le> 1" "length px \<le> 2" unfolding sg_def px_def by (fact sign_text_length)+
  have w1: "sint w1 = sint width - int (length sg) - int (length px)"
    using len fit sint_lt[of width] unfolding w1_def
    by (subst sint_diff; (subst sint_diff)?) (auto simp: sint_of_small_nat)
  have p: "sint p = max (sint precision) (int (length t))"
    using tmp(3) by (auto simp: p_def sint_of_small_nat)
  have w2: "sint (w1 - p) = sint w1 - sint p"
    using len fit tmp(3) sint_lt[of width] by (subst sint_diff) (auto simp: w1 p max_def)
  define z where "z = replicate (nat (sint precision - int (length t))) (48 :: ee_u8)"
  obtain mz where z: "pad 48 (of_nat (length t)) p = (z, mz)"
    using tmp(3) by (simp add: pad_eq p sint_of_small_nat z_def)
  obtain m where m: "\<And>c. pad c 0 (w1 - p) = (replicate (nat (sint (w1 - p))) c, m)" by (simp add: pad_0)
  have "- (2 ^ 31) + 2 < sint (w1 - p)" using len fit tmp(3) by (simp add: w1 w2 p max_def)
  note m' = pad_0_again[OF this m]
  have so: "sign_of ty num width = (case sg of [] \<Rightarrow> 0 | c # _ \<Rightarrow> c, num', width - of_nat (length sg))"
    by (simp add: sign_of_def sg_def num'_def sign_text_def)
  have hx: "(if has type HEX_PREP then if base = 16 then width - of_nat (length sg) - 2
        else if base = 8 then width - of_nat (length sg) - 1 else width - of_nat (length sg)
      else width - of_nat (length sg)) = w1" by (simp add: w1_def px_def prefix_text_def)
  have n: "sint (w1 - p) = sint width - int (length (sg @ px) + length (z @ t))"
    by (simp add: w2 w1 p z_def)
  have sg: "sg = [] \<or> (\<exists>c. sg = [c] \<and> c \<noteq> 0)" by (simp add: sg_def sign_text_def)
  have "number str num base width precision type
    = Some (Some (str @ field type (sint width) (sg @ px) (z @ t)))"
    using base sg
    unfolding number_def Let_def ty_def[symmetric] dig_def[symmetric] so field_def n[symmetric]
    by (cases "has type LEFT"; cases "has type ZEROPAD"; auto simp: m m' z hx tmp(1,2) p_def[symmetric] has_or_flag px_def prefix_text_def)
  then show ?thesis by (simp add: number_text_def sg_def px_def digits_text_def z_def t Let_def)
qed

section \<open>Addresses\<close>

text \<open>A text in a field; \<open>ZEROPAD\<close> does not matter.\<close>

definition text_field :: "c_int \<Rightarrow> int \<Rightarrow> ee_u8 list \<Rightarrow> ee_u8 list" where
  "text_field type width t =
     (let blanks = replicate (nat (width - int (length t))) 32 in if has type LEFT then t @ blanks else blanks @ t)"

definition mac_octet :: "c_int \<Rightarrow> ee_u8 \<Rightarrow> ee_u8 list" where
  "mac_octet type a = [digit_char type (unat a div 16), digit_char type (unat a mod 16)]"

definition ip_octet :: "ee_u8 \<Rightarrow> ee_u8 list" where
  "ip_octet a = numeral_text (\<lambda>d. 48 + of_nat d) 10 (unat a)"

fun separated :: "'a \<Rightarrow> 'a list list \<Rightarrow> 'a list" where
  "separated s [] = []"
| "separated s [t] = t"
| "separated s (t # u # ts) = t @ s # separated s (u # ts)"

definition mac_text :: "c_int \<Rightarrow> ee_u8 list \<Rightarrow> ee_u8 list" where
  "mac_text type addr = separated 58 (map (mac_octet type) (take 6 addr))"

definition ip_text :: "ee_u8 list \<Rightarrow> ee_u8 list" where
  "ip_text addr = separated 46 (map ip_octet (take 4 addr))"

lemma separated_snoc: "separated s (ts @ [t]) = (if ts = [] then t else separated s ts @ s # t)"
  by (induction s ts rule: separated.induct) auto

text \<open>A local array of \<open>n\<close> characters with a text in it.\<close>

definition filled_in :: "nat \<Rightarrow> ee_u8 list \<Rightarrow> buffer \<times> nat" where
  "filled_in n t = (map Some t @ replicate (n - length t) None, length t)"

abbreviation filled :: "ee_u8 list \<Rightarrow> buffer \<times> nat" where
  "filled \<equiv> filled_in 24"

lemma filled_Nil: "(replicate n None, 0) = filled_in n []"
  by (simp add: filled_in_def)

lemma bpush_filled [simp]: "length t < n \<Longrightarrow> bpush c (filled_in n t) = Some (filled_in n (t @ [c]))"
  by (simp add: bpush_def filled_in_def bput_def list_update_append Suc_diff_Suc[symmetric])

lemma put_filled:
  "put_field str (filled t) width type =
    (let (blanks, width) = (if has type LEFT then ([], width) else pad 32 (of_nat (length t)) width) in
     Some (str @ blanks @ t @ fst (pad 32 (of_nat (length t)) width)))"
proof -
  let ?b = "\<lambda>i str. map_option (\<lambda>c. str @ [c]) (bget (fst (filled t)) i)"
  have "?b j s = Some (s @ [t ! j])" if "j < length t" for j s
    using that by (simp add: filled_in_def bget_def nth_append)
  then have "for_loop 0 (length t) ?b s = Some (fold (\<lambda>i s. s @ [t ! i]) [0..<length t] s)" for s
    by (intro for_loop_fold) simp
  moreover have "fold (\<lambda>i s. s @ [t ! i]) is s = s @ map (\<lambda>i. t ! i) is" for s "is"
    by (induction "is" arbitrary: s) simp_all
  ultimately have loop: "for_loop 0 (length t) ?b s = Some (s @ t)" for s
    by (simp add: map_nth)
  then show ?thesis by (simp add: put_field_def filled_in_def)
qed

lemma put_field_eq:
  assumes "length t \<le> 24" "- (2 ^ 29) \<le> sint width"
  shows "put_field str (filled t) width type = Some (str @ text_field type (sint width) t)"
proof -
  have len: "sint (of_nat (length t) :: c_int) = int (length t)"
    using assms(1) by (simp add: sint_of_small_nat)
  have "sint (width - 1) = sint width - 1" "sint (of_nat (length t) - 1 :: c_int) = int (length t) - 1"
    using assms sint_lt[of width] len by (subst sint_diff; simp)+
  then show ?thesis using len by (simp add: put_filled pad_eq text_field_def)
qed

lemma octet_digits:
  fixes a :: ee_u8
  shows "unat (drop_bit 4 a) = unat a div 16" "unat (a AND 0x0F) = unat a mod 16" "unat a div 16 < 16"
proof -
  show "unat (drop_bit 4 a) = unat a div 16" by (simp only: unat_drop_bit_eq) (simp add: drop_bit_eq_div)
  have "a AND 0x0F = take_bit 4 a" by (simp add: take_bit_eq_mask mask_eq_exp_minus_1)
  then show "unat (a AND 0x0F) = unat a mod 16" by (simp only: unsigned_take_bit_eq) (simp add: take_bit_eq_mod)
  show "unat a div 16 < 16" using unsigned_less[of a, where 'a = nat] by simp
qed

lemma eaddr_loop:
  assumes "6 \<le> length addr"
  shows "eaddr str addr width precision type = put_field str (filled (mac_text type addr)) width type"
    and "length (mac_text type addr) \<le> 24"
proof -
  define dig where "dig = (if has type UPPERCASE then upper_digits else lower_digits)"
  define ea where "ea j = separated 58 (map (mac_octet type) (take j addr))" for j
  have dig: "digit_char type d = dig ! d" "length dig = 37" for d by (simp_all add: dig_def digit_char_def)
  have snoc: "ea (Suc j) = (if j = 0 then [] else ea j @ [58]) @ mac_octet type (addr ! j)" if "j < 6" for j
  proof -
    have "take (Suc j) addr = take j addr @ [addr ! j]" using that assms by (intro take_Suc_conv_app_nth) simp
    then show ?thesis using that assms by (auto simp: ea_def separated_snoc)
  qed
  have ea0: "ea 0 = []" by (simp add: ea_def)
  have "\<exists>t. for_loop 0 6 (eaddr_body dig addr) (filled []) = Some t \<and> t = filled (ea 6) \<and> length (ea 6) \<le> 3 * 6"
  proof (rule for_loop_rule[where P = "\<lambda>j t. t = filled (ea j) \<and> length (ea j) \<le> 3 * j"])
    fix j and t :: "buffer \<times> nat"
    assume j: "0 \<le> j" "j < 6" and t: "t = filled (ea j) \<and> length (ea j) \<le> 3 * j"
    have "eaddr_body dig addr j t = Some (filled (ea (Suc j)))"
      using j t octet_digits[of "addr ! j"] less_le_trans[OF j(2) assms]
      by (cases "j = 0") (simp_all add: eaddr_body_def snoc mac_octet_def dig ea0)
    then show "\<exists>t'. eaddr_body dig addr j t = Some t' \<and> t' = filled (ea (Suc j)) \<and> length (ea (Suc j)) \<le> 3 * Suc j"
      using j t by (simp add: snoc mac_octet_def)
  qed (simp_all add: ea0)
  then have "for_loop 0 6 (eaddr_body dig addr) (filled []) = Some (filled (ea 6))" "length (ea 6) \<le> 24" by auto
  then show "eaddr str addr width precision type = put_field str (filled (mac_text type addr)) width type"
    and "length (mac_text type addr) \<le> 24"
    by (simp_all add: eaddr_def filled_Nil dig_def[symmetric] mac_text_def ea_def[of 6, symmetric])
qed

lemma eaddr_eq:
  assumes "6 \<le> length addr" "- (2 ^ 29) \<le> sint width"
  shows "eaddr str addr width precision type = Some (str @ text_field type (sint width) (mac_text type addr))"
  using eaddr_loop[OF assms(1)] put_field_eq assms(2) by simp

lemma octet_cases:
  fixes n :: nat
  assumes "n < 256"
  shows "numeral_text char 10 n =
    (if n < 10 then [char n] else if n < 100 then [char (n div 10), char (n mod 10)]
     else [char (n div 100), char (n div 10 mod 10), char (n mod 10)])"
proof -
  have ten: "digits 10 n = (if n = 0 then [] else n mod 10 # digits 10 (n div 10))" for n
    by (simp add: digits_step)
  have "digits 10 (n div 10 div 10) = [n div 100]" if "100 \<le> n"
    using that assms by (subst ten, subst ten) (simp add: div_mult2_eq[symmetric])
  moreover have "digits 10 (n div 10) = [n div 10]" if "10 \<le> n" "n < 100"
    using that by (subst ten, subst ten) simp
  ultimately show ?thesis
    using assms by (auto simp: numeral_text_def ten[of n] ten[of "n div 10"] not_less)
qed

lemma lower_digit: "d < 10 \<Longrightarrow> lower_digits ! d = 48 + of_nat d"
  by (auto simp: lower_digits_def bytes_def less_Suc_eq numeral_eq_Suc)

lemma iaddr_body_eq:
  assumes "i < length addr" "length t \<le> 20"
  shows "iaddr_body addr i (filled t) = Some (filled (t @ (if i = 0 then [] else [46]) @ ip_octet (addr ! i)))"
proof -
  have n: "unat (addr ! i) < 256" using unsigned_less[of "addr ! i", where 'a = nat] by simp
  then have u: "unat (ucast (addr ! i) :: c_int) = unat (addr ! i)"
    by (simp add: unsigned_ucast_eq take_bit_nat_eq_self_iff)
  have z: "(ucast (addr ! i) :: c_int) = 0 \<longleftrightarrow> unat (addr ! i) = 0"
    by (simp only: unat_eq_zero[symmetric] u)
  define m where "m = unat (addr ! i)"
  define sep where "sep = (if i = 0 then [] else [46 :: ee_u8])"
  have first: "(if i \<noteq> 0 then bpush 46 (filled t) else Some (filled t)) = Some (filled (t @ sep))" "length sep \<le> 1"
    using assms(2) by (simp_all add: sep_def)
  note body = u[folded m_def] z[folded m_def] m_def[symmetric]
    word_le_nat_alt unat_div unat_mod digit_of_def lower_digit Let_def ip_octet_def octet_cases[OF n, folded m_def]
  have mod: "m mod 100 div 10 = m div 10 mod 10" "m mod 100 mod 10 = m mod 10"
    by (simp_all add: mod_mult2_eq[of _ 10 10, simplified] mod_mod_cancel)
  consider "m < 10" | "10 \<le> m" "m < 100" | "100 \<le> m" "m < 256" using n by (fastforce simp: m_def)
  then have "iaddr_body addr i (filled t) = Some (filled (t @ sep @ ip_octet (addr ! i)))"
    using first(2) assms(2) unfolding iaddr_body_def first(1) aread_in[OF assms(1)] bind.bind_lunit
    by cases (simp_all add: body mod)
  then show ?thesis by (simp add: sep_def)
qed

lemma iaddr_loop:
  assumes "4 \<le> length addr"
  shows "iaddr str addr width precision type = put_field str (filled (ip_text addr)) width type"
    and "length (ip_text addr) \<le> 24"
proof -
  define ia where "ia j = separated 46 (map ip_octet (take j addr))" for j
  have ia0: "ia 0 = []" by (simp add: ia_def)
  have snoc: "ia (Suc j) = ia j @ (if j = 0 then [] else [46]) @ ip_octet (addr ! j)" if "j < 4" for j
  proof -
    have "take (Suc j) addr = take j addr @ [addr ! j]" using that assms by (intro take_Suc_conv_app_nth) simp
    then show ?thesis using that assms by (auto simp: ia_def separated_snoc)
  qed
  have octet: "length (ip_octet a) \<le> 3" for a
    using unsigned_less[of a, where 'a = nat] by (simp add: ip_octet_def octet_cases)
  have "\<exists>t. for_loop 0 4 (iaddr_body addr) (filled []) = Some t \<and> t = filled (ia 4) \<and> length (ia 4) \<le> 4 * 4"
  proof (rule for_loop_rule[where P = "\<lambda>j t. t = filled (ia j) \<and> length (ia j) \<le> 4 * j"])
    fix j and t :: "buffer \<times> nat"
    assume j: "0 \<le> j" "j < 4" and t: "t = filled (ia j) \<and> length (ia j) \<le> 4 * j"
    then have "iaddr_body addr j t = Some (filled (ia (Suc j)))"
      using less_le_trans[OF j(2) assms] by (simp add: iaddr_body_eq snoc)
    then show "\<exists>t'. iaddr_body addr j t = Some t' \<and> t' = filled (ia (Suc j)) \<and> length (ia (Suc j)) \<le> 4 * Suc j"
      using j t octet[of "addr ! j"] by (auto simp: snoc ia0 intro: le_trans[of _ 3])
  qed (simp_all add: ia0)
  then have "for_loop 0 4 (iaddr_body addr) (filled []) = Some (filled (ia 4))" "length (ia 4) \<le> 24" by auto
  then show "iaddr str addr width precision type = put_field str (filled (ip_text addr)) width type"
    and "length (ip_text addr) \<le> 24"
    by (simp_all add: iaddr_def filled_Nil ip_text_def ia_def[of 4, symmetric])
qed

lemma iaddr_eq:
  assumes "4 \<le> length addr" "- (2 ^ 29) \<le> sint width"
  shows "iaddr str addr width precision type = Some (str @ text_field type (sint width) (ip_text addr))"
  using iaddr_loop[OF assms(1)] put_field_eq assms(2) by simp

section \<open>Reading numbers\<close>

lemma skip_atoi_digits:
  assumes "\<forall>d \<in> set ds. d < 10" "\<not> is_digit c"
  shows "skip_atoi i (map (\<lambda>d. 48 + of_nat d) ds @ c # rest) = Some (fold (\<lambda>d i. i * 10 + of_nat d) ds i, c # rest)"
  using assms(1)
proof (induction ds arbitrary: i)
  case Nil
  then show ?case using assms(2) by simp
next
  case (Cons d ds)
  then have d: "d < 10" by simp
  then have u: "unat (48 + of_nat d :: ee_u8) = 48 + d"
    by (simp add: unat_word_ariths unsigned_of_nat take_bit_eq_mod)
  then have "is_digit (48 + of_nat d)" using d by (simp add: is_digit_def word_le_nat_alt)
  moreover have "(ucast (48 + of_nat d :: ee_u8) :: c_int) = 48 + of_nat d"
    using d u by (simp add: word_unat_eq_iff unsigned_ucast_eq unat_word_ariths unsigned_of_nat take_bit_eq_mod)
  ultimately show ?case using Cons by (simp add: algebra_simps)
qed

lemma skip_atoi_numeral:
  assumes "\<not> is_digit c"
  shows "skip_atoi 0 (numeral_text (\<lambda>d. 48 + of_nat d) 10 n @ c # rest) = Some (of_nat n, c # rest)"
proof (cases "n = 0")
  case True
  then show ?thesis using skip_atoi_digits[of "[0]" c 0 rest] assms by (simp add: numeral_text_def)
next
  case False
  have fold: "foldr (\<lambda>d i. i * 10 + of_nat d) ds (0 :: c_int) = of_nat (foldr (\<lambda>d n. d + 10 * n) ds 0)" for ds
    by (induction ds) (simp_all add: algebra_simps)
  have "\<forall>d \<in> set (rev (digits 10 n)). d < 10" using digits_less[of 10] by simp
  from skip_atoi_digits[OF this assms, of 0 rest]
  show ?thesis
    using False fold[of "digits 10 n"] digits_value[of 10 n]
    by (simp add: numeral_text_def foldr_conv_fold)
qed

text \<open>Whatever the width and the precision, the writers come back.\<close>

lemma number_total:
  assumes "2 \<le> sint base" "sint base \<le> 36"
  shows "\<exists>t. number str num base width precision type = Some (Some t)"
proof -
  have "unat base = nat (sint base)" using assms by (simp add: unat_of_sint)
  then have "2 \<le> unat base" "unat base \<le> 36" using assms by simp_all
  moreover define dig where "dig = (if has type UPPERCASE then upper_digits else lower_digits)"
  then have "length dig = 37" "dig ! 0 = 48" by simp_all
  moreover define ty where "ty = (if has type LEFT then type AND NOT ZEROPAD else type)"
  ultimately obtain tmp i t where
    "to_digits dig base (fst (snd (sign_of ty num width))) = Some (tmp, i)" "take_back tmp i = Some t"
    using to_digits_text[of base dig] by blast
  then show ?thesis
    using assms unfolding number_def Let_def ty_def[symmetric] dig_def[symmetric] by (simp add: case_prod_beta)
qed

lemma address_total:
  "6 \<le> length addr \<Longrightarrow> \<exists>t. eaddr str addr width precision type = Some t"
  "4 \<le> length addr \<Longrightarrow> \<exists>t. iaddr str addr width precision type = Some t"
  by (auto simp: eaddr_loop iaddr_loop put_filled Let_def split: prod.splits)



end
