(* ===== verification/Cvt.thy ===== *)
theory Cvt
  imports Ee_Number
begin

text \<open>
  Decimal conversion of \<^verbatim>\<open>double\<close>s in the bare-metal template: \<^verbatim>\<open>coremark/src/barebones/cvt.c\<close>
  and the floating-point part of \<^verbatim>\<open>ee_printf.c\<close>.

  The arithmetic of \<open>double\<close> is a parameter of the model: a record of the constants and operations
  that the code uses.  \<open>double_laws\<close> states what IEEE 754 binary64 promises of them.  Pointers into
  a buffer are positions in it; the code compares a pointer that may lie before the start of its buffer
  (\<open>p1 < &buf[0]\<close>), so such a position is an integer.
\<close>

section \<open>Doubles\<close>

record 'd fpu =
  fp_zero :: 'd
  fp_one :: 'd
  fp_ten :: 'd
  fp_03 :: 'd                               \<comment> \<open>\<open>.03\<close>\<close>
  fp_less :: "'d \<Rightarrow> 'd \<Rightarrow> bool"
  fp_eq :: "'d \<Rightarrow> 'd \<Rightarrow> bool"
  fp_neg :: "'d \<Rightarrow> 'd"
  fp_add :: "'d \<Rightarrow> 'd \<Rightarrow> 'd"
  fp_mul :: "'d \<Rightarrow> 'd \<Rightarrow> 'd"
  fp_div :: "'d \<Rightarrow> 'd \<Rightarrow> 'd"
  fp_modf :: "'d \<Rightarrow> 'd \<times> 'd"                \<comment> \<open>the fractional and the integral part\<close>
  fp_int :: "'d \<Rightarrow> c_int option"            \<comment> \<open>the conversion to \<open>int\<close>, where it is defined\<close>

section \<open>\<open>cvt\<close>\<close>

definition CVTBUFSIZE :: nat where "CVTBUFSIZE = 80"

text \<open>Reading and writing at an integer position.\<close>

definition zget :: "buffer \<Rightarrow> int \<Rightarrow> ee_u8 option" where
  "zget b i = (if i < 0 then None else bget b (nat i))"

definition zput :: "buffer \<Rightarrow> int \<Rightarrow> ee_u8 \<Rightarrow> buffer option" where
  "zput b i c = (if i < 0 then None else bput b (nat i) c)"

text \<open>\<open>while (fi != 0) { fj = modf(fi / 10, &fi); *--p1 = (int)((fj + .03) * 10) + '0'; r2++; }\<close> on
  \<open>(buf, p1, fi, r2)\<close>.\<close>

definition int_digits :: "'d fpu \<Rightarrow> buffer \<times> int \<times> 'd \<times> int \<Rightarrow> (buffer \<times> int \<times> 'd \<times> int) option" where
  "int_digits F = while_loop (\<lambda>(buf, p1, fi, r2). Some (\<not> fp_eq F fi (fp_zero F)))
     (\<lambda>(buf, p1, fi, r2). do {
        let (fj, fi) = fp_modf F (fp_div F fi (fp_ten F));
        d \<leftarrow> fp_int F (fp_mul F (fp_add F fj (fp_03 F)) (fp_ten F));
        buf \<leftarrow> zput buf (p1 - 1) (ucast (d + 48));
        Some (buf, p1 - 1, fi, r2 + 1) })"

text \<open>\<open>while (p1 < &buf[CVTBUFSIZE]) *p++ = *p1++;\<close> on \<open>(buf, p, p1)\<close>.\<close>

definition move_digits :: "buffer \<times> int \<times> int \<Rightarrow> (buffer \<times> int \<times> int) option" where
  "move_digits = while_loop (\<lambda>(buf, p, p1). Some (p1 < int CVTBUFSIZE))
     (\<lambda>(buf, p, p1). do { c \<leftarrow> zget buf p1; buf \<leftarrow> zput buf p c; Some (buf, p + 1, p1 + 1) })"

text \<open>\<open>while ((fj = arg * 10) < 1) { arg = fj; r2--; }\<close> on \<open>(arg, r2)\<close>.\<close>

definition skip_zeros :: "'d fpu \<Rightarrow> 'd \<times> int \<Rightarrow> ('d \<times> int) option" where
  "skip_zeros F = while_loop (\<lambda>(arg, r2). Some (fp_less F (fp_mul F arg (fp_ten F)) (fp_one F)))
     (\<lambda>(arg, r2). Some (fp_mul F arg (fp_ten F), r2 - 1))"

text \<open>\<open>while (p <= p1 && p < &buf[CVTBUFSIZE]) { arg *= 10; arg = modf(arg, &fj); *p++ = (int)fj + '0'; }\<close>
  on \<open>(buf, p, arg)\<close>.\<close>

definition frac_digits :: "'d fpu \<Rightarrow> int \<Rightarrow> buffer \<times> int \<times> 'd \<Rightarrow> (buffer \<times> int \<times> 'd) option" where
  "frac_digits F p1 = while_loop (\<lambda>(buf, p, arg). Some (p \<le> p1 \<and> p < int CVTBUFSIZE))
     (\<lambda>(buf, p, arg). do {
        let (arg, fj) = fp_modf F (fp_mul F arg (fp_ten F));
        d \<leftarrow> fp_int F fj;
        buf \<leftarrow> zput buf p (ucast (d + 48));
        Some (buf, p + 1, arg) })"

text \<open>The loop that propagates the carry of the rounding, on \<open>(buf, p, p1, decpt)\<close>.\<close>

definition round_loop :: "bool \<Rightarrow> buffer \<times> int \<times> int \<times> int \<Rightarrow> (buffer \<times> int \<times> int \<times> int) option" where
  "round_loop eflag = while_loop (\<lambda>(buf, p, p1, decpt). map_option (\<lambda>c. 57 < c) (zget buf p1))
     (\<lambda>(buf, p, p1, decpt). do {
        buf \<leftarrow> zput buf p1 48;
        if 0 < p1 then do {
          c \<leftarrow> zget buf (p1 - 1);
          buf \<leftarrow> zput buf (p1 - 1) (c + 1);
          Some (buf, p, p1 - 1, decpt) }
        else do {
          buf \<leftarrow> zput buf p1 49;
          if \<not> eflag then do {
            buf \<leftarrow> (if 0 < p then zput buf p 48 else Some buf);
            Some (buf, p + 1, p1, decpt + 1) }
          else Some (buf, p, p1, decpt + 1) } })"

text \<open>The digits of \<open>arg\<close> before the rounding position: the buffer, the first free position, what is
  left of \<open>arg\<close>, and the position \<open>r2\<close> of the decimal point.\<close>

definition leading_digits :: "'d fpu \<Rightarrow> 'd \<Rightarrow> buffer \<Rightarrow> (buffer \<times> int \<times> 'd \<times> int) option" where
  "leading_digits F arg buf =
     (let (arg, fi) = fp_modf F arg in
      if \<not> fp_eq F fi (fp_zero F) then do {
        (buf, p1, _, r2) \<leftarrow> int_digits F (buf, int CVTBUFSIZE, fi, 0);
        (buf, p, _) \<leftarrow> move_digits (buf, 0, p1);
        Some (buf, p, arg, r2) }
      else if fp_less F (fp_zero F) arg then do {
        (arg, r2) \<leftarrow> skip_zeros F (arg, 0);
        Some (buf, 0, arg, r2) }
      else Some (buf, 0, arg, 0))"

text \<open>\<open>cvt(arg, ndigits, decpt, sign, buf, eflag)\<close>: the buffer, \<open>*decpt\<close> and \<open>*sign\<close>.\<close>

definition cvt :: "'d fpu \<Rightarrow> 'd \<Rightarrow> int \<Rightarrow> buffer \<Rightarrow> bool \<Rightarrow> (buffer \<times> int \<times> bool) option" where
  "cvt F arg ndigits buf eflag =
     (let ndigits = (if ndigits < 0 then 0 else ndigits);
          ndigits = (if int CVTBUFSIZE - 1 \<le> ndigits then int CVTBUFSIZE - 2 else ndigits);
          sign = fp_less F arg (fp_zero F);
          arg = (if sign then fp_neg F arg else arg) in do {
      (buf, p, arg, r2) \<leftarrow> leading_digits F arg buf;
      let p1 = (if \<not> eflag then ndigits + r2 else ndigits);
      if p1 < 0 then do { buf \<leftarrow> zput buf 0 0; Some (buf, r2, sign) }
      else do {
        (buf, p, arg) \<leftarrow> frac_digits F p1 (buf, p, arg);
        if int CVTBUFSIZE \<le> p1 then do { buf \<leftarrow> zput buf (int CVTBUFSIZE - 1) 0; Some (buf, r2, sign) }
        else do {
          c \<leftarrow> zget buf p1;
          buf \<leftarrow> zput buf p1 (c + 5);
          (buf, p, _, decpt) \<leftarrow> round_loop eflag (buf, p1, p1, r2);
          buf \<leftarrow> zput buf p 0;
          Some (buf, decpt, sign) } } })"

text \<open>The four entry points; \<open>ecvt\<close> and \<open>fcvt\<close> work on the static array \<open>CVTBUF\<close>.\<close>

definition ecvtbuf :: "'d fpu \<Rightarrow> 'd \<Rightarrow> int \<Rightarrow> buffer \<Rightarrow> (buffer \<times> int \<times> bool) option" where
  "ecvtbuf F arg ndigits buf = cvt F arg ndigits buf True"

definition fcvtbuf :: "'d fpu \<Rightarrow> 'd \<Rightarrow> int \<Rightarrow> buffer \<Rightarrow> (buffer \<times> int \<times> bool) option" where
  "fcvtbuf F arg ndigits buf = cvt F arg ndigits buf False"

definition ecvt :: "'d fpu \<Rightarrow> 'd \<Rightarrow> int \<Rightarrow> buffer \<Rightarrow> (buffer \<times> int \<times> bool) option" where
  "ecvt F arg ndigits CVTBUF = cvt F arg ndigits CVTBUF True"

definition fcvt :: "'d fpu \<Rightarrow> 'd \<Rightarrow> int \<Rightarrow> buffer \<Rightarrow> (buffer \<times> int \<times> bool) option" where
  "fcvt F arg ndigits CVTBUF = cvt F arg ndigits CVTBUF False"

section \<open>\<open>parse_float\<close>\<close>

text \<open>The text being written: the array and the next position; \<open>*buffer++ = c\<close>.\<close>

abbreviation push :: "ee_u8 \<Rightarrow> buffer \<times> nat \<Rightarrow> (buffer \<times> nat) option" where
  "push \<equiv> bpush"

text \<open>\<open>while (ps != pe) *pd++ = *ps++;\<close>: a negative \<open>count\<close> puts \<open>pe\<close> before \<open>ps\<close>.\<close>

definition ee_bufcpy :: "buffer \<times> nat \<Rightarrow> buffer \<Rightarrow> nat \<Rightarrow> int \<Rightarrow> (buffer \<times> nat) option" where
  "ee_bufcpy t ds ps n = map_option fst
     (while_loop (\<lambda>(t, i). Some (int i \<noteq> int ps + n))
        (\<lambda>(t, i). do { c \<leftarrow> bget ds i; t \<leftarrow> push c t; Some (t, i + 1) }) (t, ps))"

text \<open>The bytes of an array from a position on that have been written.\<close>

definition written :: "buffer \<Rightarrow> nat \<Rightarrow> ee_u8 list" where
  "written b i = map the (takeWhile (\<lambda>c. c \<noteq> None) (drop i b))"

text \<open>\<open>for (pos = 0; pos < n; pos++) *buffer++ = '0';\<close>\<close>

definition push_zeros :: "int \<Rightarrow> buffer \<times> nat \<Rightarrow> (buffer \<times> nat) option" where
  "push_zeros n t = for_loop 0 (nat n) (\<lambda>pos. push 48) t"

text \<open>\<open>while (*digits) *buffer++ = *digits++;\<close> and the same with the decimal point put in before the digit
  at \<open>decpt\<close>.\<close>

fun push_all :: "ee_u8 list \<Rightarrow> buffer \<times> nat \<Rightarrow> (buffer \<times> nat) option" where
  "push_all [] t = None"
| "push_all (c # s) t = (if c = 0 then Some t else Option.bind (push c t) (push_all s))"

fun push_point :: "int \<Rightarrow> int \<Rightarrow> ee_u8 list \<Rightarrow> buffer \<times> nat \<Rightarrow> (buffer \<times> nat) option" where
  "push_point decpt pos [] t = None"
| "push_point decpt pos (c # s) t = (if c = 0 then Some t else do {
     t \<leftarrow> (if pos = decpt then push 46 t else Some t);
     t \<leftarrow> push c t;
     push_point decpt (pos + 1) s t })"

text \<open>Arithmetic on \<open>int\<close>s that may be large.\<close>

definition wrap :: "int \<Rightarrow> int" where
  "wrap i = sint (word_of_int i :: c_int)"

definition put_exponent :: "int \<Rightarrow> buffer \<times> nat \<Rightarrow> (buffer \<times> nat) option" where
  "put_exponent e t = do {
     let digit = (\<lambda>e. of_int (c_rem e 10) + 48);
     (b, i) \<leftarrow> push (if e < 0 then 45 else 43) t;
     let e = \<bar>e\<bar>;
     b \<leftarrow> bput b (i + 2) (digit e);
     let e = c_div e 10;
     b \<leftarrow> bput b (i + 1) (digit e);
     let e = c_div e 10;
     b \<leftarrow> bput b i (digit e);
     Some (b, i + 3) }"

definition float_e :: "'d fpu \<Rightarrow> 'd \<Rightarrow> bool \<Rightarrow> int \<Rightarrow> buffer \<times> nat \<Rightarrow> (buffer \<times> nat) option" where
  "float_e F value capexp precision t = do {
     (ds, decpt, sign) \<leftarrow> ecvtbuf F value (wrap (precision + 1)) (replicate CVTBUFSIZE None);
     t \<leftarrow> (if sign then push 45 t else Some t);
     c \<leftarrow> bget ds 0;
     t \<leftarrow> push c t;
     t \<leftarrow> (if 0 < precision then push 46 t else Some t);
     t \<leftarrow> ee_bufcpy t ds 1 precision;
     t \<leftarrow> push (if capexp then 69 else 101) t;
     put_exponent (if decpt = 0 then if fp_eq F value (fp_zero F) then 0 else -1 else decpt - 1) t }"

definition float_f :: "'d fpu \<Rightarrow> 'd \<Rightarrow> int \<Rightarrow> buffer \<times> nat \<Rightarrow> (buffer \<times> nat) option" where
  "float_f F value precision t = do {
     (ds, decpt, sign) \<leftarrow> fcvtbuf F value precision (replicate CVTBUFSIZE None);
     t \<leftarrow> (if sign then push 45 t else Some t);
     c \<leftarrow> bget ds 0;
     if c \<noteq> 0 then
       if decpt \<le> 0 then do {
         t \<leftarrow> push 48 t;
         t \<leftarrow> push 46 t;
         t \<leftarrow> push_zeros (- decpt) t;
         push_all (written ds 0) t }
       else push_point decpt 0 (written ds 0) t
     else do {
       t \<leftarrow> push 48 t;
       if 0 < precision then Option.bind (push 46 t) (push_zeros precision) else Some t } }"

text \<open>For \<open>'g'\<close> the first conversion decides between the other two formats.\<close>

definition float_format :: "'d fpu \<Rightarrow> 'd \<Rightarrow> ee_u8 \<Rightarrow> int \<Rightarrow> (ee_u8 \<times> int) option" where
  "float_format F value fmt precision =
     (if fmt = 103 then do {
        (ds, decpt, sign) \<leftarrow> ecvtbuf F value precision (replicate CVTBUFSIZE None);
        let magnitude = decpt - 1;
        if magnitude < -4 \<or> wrap (precision - 1) < magnitude then Some (101, wrap (precision - 1))
        else Some (102, wrap (precision - decpt)) }
      else Some (fmt, precision))"

definition parse_float :: "'d fpu \<Rightarrow> 'd \<Rightarrow> buffer \<Rightarrow> ee_u8 \<Rightarrow> int \<Rightarrow> buffer option" where
  "parse_float F value buf fmt precision = do {
     let capexp = (fmt = 71 \<or> fmt = 69);
     let fmt = (if capexp then fmt + 97 - 65 else fmt);
     (fmt, precision) \<leftarrow> float_format F value fmt precision;
     (buf, i) \<leftarrow> (if fmt = 101 then float_e F value capexp precision (buf, 0)
        else if fmt = 102 then float_f F value precision (buf, 0)
        else Some (buf, 0));
     bput buf i 0 }"

section \<open>\<open>decimal_point\<close> and \<open>cropzeros\<close>\<close>

text \<open>The first position from \<open>i\<close> on whose character satisfies \<open>stop\<close>.\<close>

fun scan_until :: "(ee_u8 \<Rightarrow> bool) \<Rightarrow> ee_u8 list \<Rightarrow> nat \<Rightarrow> nat option" where
  "scan_until stop [] i = None"
| "scan_until stop (c # s) i = (if stop c then Some i else scan_until stop s (i + 1))"

text \<open>\<open>while (n > 0) { buffer[n + 1] = buffer[n]; n--; }\<close>\<close>

fun shift_up :: "buffer \<Rightarrow> nat \<Rightarrow> nat \<Rightarrow> buffer option" where
  "shift_up b i 0 = Some b"
| "shift_up b i (Suc n) = do { c \<leftarrow> bget b (i + Suc n); b \<leftarrow> bput b (i + Suc n + 1) c; shift_up b i n }"

definition decimal_point :: "buffer \<Rightarrow> buffer option" where
  "decimal_point b = do {
     i \<leftarrow> scan_until (\<lambda>c. c = 0 \<or> c = 46 \<or> c = 101 \<or> c = 69) (written b 0) 0;
     c \<leftarrow> bget b i;
     if c = 46 then Some b
     else if c \<noteq> 0 then do {
       n \<leftarrow> strnlen (written b i) 256;
       b \<leftarrow> shift_up b i n;
       bput b i 46 }
     else do { b \<leftarrow> bput b i 46; bput b (i + 1) 0 } }"

definition cropzeros :: "buffer \<Rightarrow> buffer option" where
  "cropzeros b = do {
     i \<leftarrow> scan_until (\<lambda>c. c = 0 \<or> c = 46) (written b 0) 0;
     c \<leftarrow> bget b i;
     if c \<noteq> 0 then do {
       stop \<leftarrow> scan_until (\<lambda>c. c = 0 \<or> c = 101 \<or> c = 69) (written b (i + 1)) (i + 1);
       k \<leftarrow> while_loop (\<lambda>k. map_option (\<lambda>c. c = 48) (zget b k)) (\<lambda>k. Some (k - 1)) (int stop - 1);
       c \<leftarrow> zget b k;
       let k = (if c = 46 then k - 1 else k);
       map_option fst (while_loop (\<lambda>(b, k). Some (k \<noteq> int stop))
         (\<lambda>(b, k). map_option (\<lambda>b. (b, k + 1)) (zput b (k + 1) 0)) (b, k)) }
     else Some b }"

section \<open>\<open>flt\<close>\<close>

definition float_sign :: "'d fpu \<Rightarrow> c_int \<Rightarrow> 'd \<Rightarrow> c_int \<Rightarrow> ee_u8 \<times> 'd \<times> c_int" where
  "float_sign F flags num width =
     (if has flags SIGN then
        if fp_less F num (fp_zero F) then (45, fp_neg F num, width - 1)
        else if has flags PLUS then (43, num, width - 1)
        else if has flags SPACE then (32, num, width - 1)
        else (0, num, width)
      else (0, num, width))"

text \<open>The text of the number in \<open>tmp[80]\<close>.\<close>

definition float_tmp :: "'d fpu \<Rightarrow> 'd \<Rightarrow> c_int \<Rightarrow> ee_u8 \<Rightarrow> c_int \<Rightarrow> buffer option" where
  "float_tmp F num precision fmt flags = do {
     let precision = (if sint precision < 0 then 6 else precision);
     tmp \<leftarrow> parse_float F num (replicate 80 None) fmt (sint precision);
     tmp \<leftarrow> (if has flags HEX_PREP \<and> precision = 0 then decimal_point tmp else Some tmp);
     if fmt = 103 \<and> \<not> has flags HEX_PREP then cropzeros tmp else Some tmp }"

definition flt :: "'d fpu \<Rightarrow> ee_u8 list \<Rightarrow> 'd \<Rightarrow> c_int \<Rightarrow> c_int \<Rightarrow> ee_u8 \<Rightarrow> c_int \<Rightarrow> ee_u8 list option" where
  "flt F str num width precision fmt flags =
     (let flags = (if has flags LEFT then flags AND NOT ZEROPAD else flags);
          c = (if has flags ZEROPAD then 48 else 32);
          (sign, num, width) = float_sign F flags num width in do {
      tmp \<leftarrow> float_tmp F num precision fmt flags;
      n \<leftarrow> strnlen (written tmp 0) 256;
      let width = width - of_nat n;
      let (blanks, width) = (if has flags (ZEROPAD OR LEFT) then ([], width) else pad 32 0 width);
      let str = str @ blanks;
      let str = (if sign \<noteq> 0 then str @ [sign] else str);
      let (fill, width) = (if has flags LEFT then ([], width) else pad c 0 width);
      str \<leftarrow> for_loop 0 n (\<lambda>i str. map_option (\<lambda>c. str @ [c]) (bget tmp i)) (str @ fill);
      Some (str @ fst (pad 32 0 width)) })"

section \<open>\<open>flt\<close> puts the number into a field\<close>

definition float_sign_text :: "'d fpu \<Rightarrow> c_int \<Rightarrow> 'd \<Rightarrow> ee_u8 list" where
  "float_sign_text F flags num =
     (if \<not> has flags SIGN then []
      else if fp_less F num (fp_zero F) then [45]
      else if has flags PLUS then [43]
      else if has flags SPACE then [32]
      else [])"

definition float_abs :: "'d fpu \<Rightarrow> c_int \<Rightarrow> 'd \<Rightarrow> 'd" where
  "float_abs F flags num = (if has flags SIGN \<and> fp_less F num (fp_zero F) then fp_neg F num else num)"

text \<open>The characters in the array up to the \<open>NUL\<close>.\<close>

definition float_text :: "'d fpu \<Rightarrow> 'd \<Rightarrow> c_int \<Rightarrow> ee_u8 \<Rightarrow> c_int \<Rightarrow> ee_u8 list option" where
  "float_text F num precision fmt flags = do {
     tmp \<leftarrow> float_tmp F num precision fmt flags;
     n \<leftarrow> strnlen (written tmp 0) 256;
     Some (take n (written tmp 0)) }"

lemma strnlen_less: "strnlen s n = Some k \<Longrightarrow> k < length s \<and> k \<le> unat n"
proof (induction s n arbitrary: k rule: strnlen.induct)
  case (2 c s n)
  show ?case
  proof (cases "c = 0 \<or> n = 0")
    case False
    then have "unat (n - 1) = unat n - 1" "0 < unat n" by (simp_all add: unat_minus_one unat_gt_0)
    then show ?thesis using 2 False by fastforce
  qed (use 2 in auto)
qed simp

lemma written_nth: "k < length (written b 0) \<Longrightarrow> bget b k = Some (written b 0 ! k)"
proof -
  assume k: "k < length (written b 0)"
  then have "k < length (takeWhile (\<lambda>c. c \<noteq> None) b)" by (simp add: written_def)
  then have "takeWhile (\<lambda>c. c \<noteq> None) b ! k = b ! k" "b ! k \<noteq> None" "k < length b"
    using takeWhile_nth nth_length_takeWhile length_takeWhile_le[of "\<lambda>c. c \<noteq> None" b]
      set_takeWhileD[OF nth_mem[of k "takeWhile (\<lambda>c. c \<noteq> None) b"]] by fastforce+
  then show ?thesis using k by (auto simp: written_def bget_def)
qed

lemma copy_loop:
  assumes "\<And>k. k < n \<Longrightarrow> bget b k = Some (t ! k)" "n \<le> length t"
  shows "for_loop 0 n (\<lambda>i s. map_option (\<lambda>c. s @ [c]) (bget b i)) s = Some (s @ take n t)"
proof -
  have "\<exists>r. for_loop 0 n (\<lambda>i s. map_option (\<lambda>c. s @ [c]) (bget b i)) s = Some r \<and> r = s @ take n t"
    by (rule for_loop_rule) (use assms in \<open>auto simp: take_Suc_conv_app_nth\<close>)
  then show ?thesis by simp
qed

lemma float_sign_eq:
  "float_sign F flags num width =
    (case float_sign_text F flags num of [] \<Rightarrow> 0 | c # _ \<Rightarrow> c, float_abs F flags num,
     width - of_nat (length (float_sign_text F flags num)))"
  by (simp add: float_sign_def float_sign_text_def float_abs_def)

lemma flt_field:
  assumes "- (2 ^ 29) \<le> sint width"
  shows "flt F str num width precision fmt flags = map_option
    (\<lambda>t. str @ field flags (sint width) (float_sign_text F flags num) t)
    (float_text F (float_abs F flags num) precision fmt flags)"
proof -
  define fl where "fl = (if has flags LEFT then flags AND NOT ZEROPAD else flags)"
  have fl [simp]: "has fl LEFT = has flags LEFT" "has fl SIGN = has flags SIGN" "has fl PLUS = has flags PLUS"
      "has fl SPACE = has flags SPACE" "has fl HEX_PREP = has flags HEX_PREP"
      "has fl ZEROPAD \<longleftrightarrow> has flags ZEROPAD \<and> \<not> has flags LEFT" by (simp_all add: fl_def)
  define sg where "sg = float_sign_text F flags num"
  have sg: "float_sign_text F fl num = sg" "float_abs F fl num = float_abs F flags num" "sg = [] \<or> (\<exists>c. sg = [c] \<and> c \<noteq> 0)"
    by (auto simp: sg_def float_sign_text_def float_abs_def)
  have tmp: "float_tmp F x precision fmt fl = float_tmp F x precision fmt flags" for x
    by (simp add: float_tmp_def)
  show ?thesis
  proof (cases "float_tmp F (float_abs F flags num) precision fmt flags")
    case None
    then show ?thesis
      by (simp add: flt_def float_text_def float_sign_eq fl_def[symmetric] tmp sg Let_def)
  next
    case (Some b)
    show ?thesis
    proof (cases "strnlen (written b 0) 256")
      case None
      then show ?thesis using Some
        by (simp add: flt_def float_text_def float_sign_eq fl_def[symmetric] tmp sg Let_def)
    next
      case n: (Some n)
      have less: "n < length (written b 0)" "n \<le> 256" using strnlen_less[OF n] by simp_all
      have loop: "for_loop 0 n (\<lambda>i s. map_option (\<lambda>c. s @ [c]) (bget b i)) s = Some (s @ take n (written b 0))" for s
        using less by (intro copy_loop) (simp_all add: written_nth)
      define w where "w = width - of_nat (length sg) - of_nat n"
      have len: "length sg \<le> 1" using sg(3) by auto
      have w: "sint w = sint width - int (length sg) - int n"
        using len assms sint_lt[of width] less unfolding w_def
        by (subst sint_diff; (subst sint_diff)?) (auto simp: sint_of_small_nat)
      obtain m where m: "\<And>c. pad c 0 w = (replicate (nat (sint w)) c, m)" by (simp add: pad_0)
      have "- (2 ^ 31) + 2 < sint w" using len assms less by (simp add: w)
      note m' = pad_0_again[OF this m]
      have txt_eq: "float_text F (float_abs F flags num) precision fmt flags = Some (take n (written b 0))"
        using Some n by (simp add: float_text_def)
      have sw: "sint width - int (length sg + length (take n (written b 0))) = sint w"
        using less by (simp add: w)
      show ?thesis
        using sg(3) Some n unfolding flt_def Let_def fl_def[symmetric] txt_eq option.map field_def Let_def sg_def[symmetric] sw
        by (cases "has flags LEFT"; cases "has flags ZEROPAD";
            auto simp: float_sign_eq sg(1,2) tmp w_def[symmetric] m m' has_or_flag loop)
    qed
  qed
qed

end
