(* ===== verification/Ee_Printf.thy ===== *)
theory Ee_Printf
  imports Cvt
begin

text \<open>
  \<^verbatim>\<open>ee_vsprintf\<close> and \<^verbatim>\<open>ee_printf\<close> of the bare-metal template
  (\<^verbatim>\<open>coremark/src/barebones/ee_printf.c\<close>): the interpreter of formats over the field writers of
  \<open>Ee_Number\<close> and \<open>Cvt\<close>.  A format is the list of its bytes with the terminating \<open>NUL\<close>; the variable
  arguments are a list of values of the types the conversions read.
\<close>

section \<open>Arguments\<close>

datatype 'd va =
    VInt c_int                     \<comment> \<open>\<open>int\<close>, \<open>unsigned\<close>, \<open>long\<close>, \<open>unsigned long\<close>\<close>
  | VStr "ee_u8 list option"       \<comment> \<open>\<open>char *\<close>: the memory behind it, or \<open>NULL\<close>\<close>
  | VPtr c_int                     \<comment> \<open>\<open>void *\<close>\<close>
  | VAddr "ee_u8 list"             \<comment> \<open>\<open>unsigned char *\<close>: the memory behind it\<close>
  | VDbl 'd

fun va_int :: "'d va list \<Rightarrow> (c_int \<times> 'd va list) option" where
  "va_int (VInt i # args) = Some (i, args)" | "va_int args = None"

fun va_str :: "'d va list \<Rightarrow> (ee_u8 list option \<times> 'd va list) option" where
  "va_str (VStr s # args) = Some (s, args)" | "va_str args = None"

fun va_ptr :: "'d va list \<Rightarrow> (c_int \<times> 'd va list) option" where
  "va_ptr (VPtr p # args) = Some (p, args)" | "va_ptr args = None"

fun va_addr :: "'d va list \<Rightarrow> (ee_u8 list \<times> 'd va list) option" where
  "va_addr (VAddr a # args) = Some (a, args)" | "va_addr args = None"

fun va_dbl :: "'d va list \<Rightarrow> ('d \<times> 'd va list) option" where
  "va_dbl (VDbl d # args) = Some (d, args)" | "va_dbl args = None"

section \<open>The parts of a conversion specification\<close>

text \<open>The flags: the loop at the label \<open>repeat\<close>.\<close>

definition flag_of :: "ee_u8 \<Rightarrow> c_int" where
  "flag_of c = (if c = 45 then LEFT else if c = 43 then PLUS else if c = 32 then SPACE
     else if c = 35 then HEX_PREP else if c = 48 then ZEROPAD else 0)"

fun get_flags :: "c_int \<Rightarrow> ee_u8 list \<Rightarrow> (c_int \<times> ee_u8 list) option" where
  "get_flags flags [] = None"
| "get_flags flags (c # fmt) =
     (if flag_of c \<noteq> 0 then get_flags (flags OR flag_of c) fmt else Some (flags, c # fmt))"

fun get_width :: "c_int \<Rightarrow> ee_u8 list \<Rightarrow> 'd va list \<Rightarrow> (c_int \<times> c_int \<times> ee_u8 list \<times> 'd va list) option" where
  "get_width flags [] args = None"
| "get_width flags (c # fmt) args =
     (if is_digit c then map_option (\<lambda>(w, fmt). (w, flags, fmt, args)) (skip_atoi 0 (c # fmt))
      else if c = 42 then do {
        (w, args) \<leftarrow> va_int args;
        Some (if sint w < 0 then (- w, flags OR LEFT, fmt, args) else (w, flags, fmt, args)) }
      else Some (-1, flags, c # fmt, args))"

text \<open>What follows the point of a precision.\<close>

fun get_digits :: "ee_u8 list \<Rightarrow> 'd va list \<Rightarrow> (c_int \<times> ee_u8 list \<times> 'd va list) option" where
  "get_digits [] args = None"
| "get_digits (c # fmt) args =
     (if is_digit c then map_option (\<lambda>(p, fmt). (p, fmt, args)) (skip_atoi 0 (c # fmt))
      else if c = 42 then map_option (\<lambda>(p, args). (p, fmt, args)) (va_int args)
      else Some (-1, c # fmt, args))"

fun get_precision :: "ee_u8 list \<Rightarrow> 'd va list \<Rightarrow> (c_int \<times> ee_u8 list \<times> 'd va list) option" where
  "get_precision [] args = None"
| "get_precision (c # fmt) args =
     (if c = 46 then do {
        (p, fmt, args) \<leftarrow> get_digits fmt args;
        Some (if sint p < 0 then 0 else p, fmt, args) }
      else Some (-1, c # fmt, args))"

fun get_qualifier :: "ee_u8 list \<Rightarrow> (c_int \<times> ee_u8 list) option" where
  "get_qualifier [] = None"
| "get_qualifier (c # fmt) = Some (if c = 108 \<or> c = 76 then (ucast c, fmt) else (-1, c # fmt))"

section \<open>The conversions\<close>

definition convert_char :: "ee_u8 list \<Rightarrow> c_int \<Rightarrow> c_int \<Rightarrow> c_int \<Rightarrow> ee_u8 list" where
  "convert_char str v width flags =
     (let (blanks, width) = (if has flags LEFT then ([], width) else pad_before 32 width) in
      str @ blanks @ [ucast v] @ fst (pad_before 32 width))"

definition convert_string :: "ee_u8 list \<Rightarrow> ee_u8 list option \<Rightarrow> c_int \<Rightarrow> c_int \<Rightarrow> c_int \<Rightarrow> ee_u8 list option" where
  "convert_string str s width precision flags = do {
     let s = (case s of None \<Rightarrow> bytes ''<NULL>'' @ [0] | Some s \<Rightarrow> s);
     len \<leftarrow> strnlen s precision;
     let (blanks, width) = (if has flags LEFT then ([], width) else pad 32 (of_nat len) width);
     Some (str @ blanks @ take len s @ fst (pad 32 (of_nat len) width)) }"

text \<open>The pointer that \<open>number\<close> returns is the next \<open>str\<close>, so it must not be null.\<close>

definition put_number :: "ee_u8 list \<Rightarrow> c_int \<Rightarrow> c_int \<Rightarrow> c_int \<Rightarrow> c_int \<Rightarrow> c_int \<Rightarrow> ee_u8 list option" where
  "put_number str num base width precision flags = Option.bind (number str num base width precision flags) (\<lambda>s. s)"

definition base_of :: "ee_u8 \<Rightarrow> c_int" where
  "base_of c = (if c = 111 then 8 else if c = 120 \<or> c = 88 then 16 else 10)"

definition sign_flag :: "ee_u8 \<Rightarrow> c_int" where
  "sign_flag c = (if c = 88 then UPPERCASE else if c = 100 \<or> c = 105 then SIGN else 0)"

text \<open>The switch on the conversion character: the text so far and the arguments left.\<close>

definition convert :: "'d fpu \<Rightarrow> ee_u8 list \<Rightarrow> ee_u8 \<Rightarrow> c_int \<Rightarrow> c_int \<Rightarrow> c_int \<Rightarrow> c_int \<Rightarrow> 'd va list
    \<Rightarrow> (ee_u8 list \<times> 'd va list) option" where
  "convert F str c flags width precision qualifier args =
     (if c = 99 then do { (v, args) \<leftarrow> va_int args; Some (convert_char str v width flags, args) }
      else if c = 115 then do {
        (s, args) \<leftarrow> va_str args;
        str \<leftarrow> convert_string str s width precision flags;
        Some (str, args) }
      else if c = 112 then do {
        let (width, flags) = (if width = -1 then (2 * 4, flags OR ZEROPAD) else (width, flags));
        (p, args) \<leftarrow> va_ptr args;
        str \<leftarrow> put_number str p 16 width precision flags;
        Some (str, args) }
      else if c = 65 \<or> c = 97 then do {
        let flags = (if c = 65 then flags OR UPPERCASE else flags);
        (a, args) \<leftarrow> va_addr args;
        str \<leftarrow> (if qualifier = 108 then eaddr else iaddr) str a width precision flags;
        Some (str, args) }
      else if c \<in> {111, 88, 120, 100, 105, 117} then do {
        (num, args) \<leftarrow> va_int args;
        str \<leftarrow> put_number str num (base_of c) width precision (flags OR sign_flag c);
        Some (str, args) }
      else if c = 102 then do {
        (d, args) \<leftarrow> va_dbl args;
        str \<leftarrow> flt F str d width precision c (flags OR SIGN);
        Some (str, args) }
      else
        (let str = (if c \<noteq> 37 then str @ [37] else str) in
         Some (if c \<noteq> 0 then str @ [c] else str, args)))"

section \<open>The interpreter\<close>

lemma get_flags_shorter: "get_flags flags fmt = Some (flags', fmt') \<Longrightarrow> length fmt' \<le> length fmt"
  by (induction flags fmt rule: get_flags.induct) (auto split: if_splits)

lemma skip_atoi_shorter: "skip_atoi i s = Some (j, s') \<Longrightarrow> length s' \<le> length s"
  by (induction i s rule: skip_atoi.induct) (auto split: if_splits)

lemma get_digits_shorter: "get_digits fmt args = Some (p, fmt', args') \<Longrightarrow> length fmt' \<le> length fmt"
  by (cases fmt) (auto split: if_splits dest!: skip_atoi_shorter simp del: skip_atoi.simps)

lemma get_width_shorter: "get_width flags fmt args = Some (w, flags', fmt', args') \<Longrightarrow> length fmt' \<le> length fmt"
  by (cases fmt) (auto split: if_splits bind_splits dest!: skip_atoi_shorter simp del: skip_atoi.simps)

lemma get_precision_shorter: "get_precision fmt args = Some (p, fmt', args') \<Longrightarrow> length fmt' \<le> length fmt"
  by (cases fmt) (auto split: if_splits bind_splits dest!: get_digits_shorter)

lemma get_qualifier_shorter: "get_qualifier fmt = Some (q, fmt') \<Longrightarrow> length fmt' \<le> length fmt"
  by (cases fmt) (auto split: if_splits)

lemmas get_shorter = get_flags_shorter get_width_shorter get_precision_shorter get_qualifier_shorter

text \<open>After a conversion at the end of the format, \<open>--fmt\<close> and \<open>fmt++\<close> lead back to the \<open>NUL\<close>.\<close>

function vsprintf_from :: "'d fpu \<Rightarrow> ee_u8 list \<Rightarrow> ee_u8 list \<Rightarrow> 'd va list \<Rightarrow> ee_u8 list option" where
  "vsprintf_from F str [] args = None"
| "vsprintf_from F str (c # fmt) args =
     (if c = 0 then Some str
      else if c \<noteq> 37 then vsprintf_from F (str @ [c]) fmt args
      else do {
        (flags, fmt1) \<leftarrow> get_flags 0 fmt;
        (width, flags, fmt2, args) \<leftarrow> get_width flags fmt1 args;
        (precision, fmt3, args) \<leftarrow> get_precision fmt2 args;
        (qualifier, fmt4) \<leftarrow> get_qualifier fmt3;
        c \<leftarrow> aread fmt4 0;
        (str, args) \<leftarrow> convert F str c flags width precision qualifier args;
        vsprintf_from F str (if c = 0 then fmt4 else tl fmt4) args })"
  by pat_completeness auto
termination
  by (relation "measure (\<lambda>(F, str, fmt, args). length fmt)")
    (auto dest!: get_shorter simp: aread_Some_iff)

text \<open>The bytes in \<open>buf\<close>, with the terminating \<open>NUL\<close>, and the value returned.\<close>

definition ee_vsprintf :: "'d fpu \<Rightarrow> ee_u8 list \<Rightarrow> 'd va list \<Rightarrow> (ee_u8 list \<times> nat) option" where
  "ee_vsprintf F fmt args = map_option (\<lambda>str. (str @ [0], length str)) (vsprintf_from F [] fmt args)"

text \<open>\<open>while (*p) { uart_send_char(*p); n++; p++; }\<close>; \<open>uart_send_char\<close> is left to the board.\<close>

fun send_buffer :: "(ee_u8 \<Rightarrow> 's \<Rightarrow> 's) \<Rightarrow> ee_u8 list \<Rightarrow> nat \<Rightarrow> 's \<Rightarrow> (nat \<times> 's) option" where
  "send_buffer uart_send_char [] n s = None"
| "send_buffer uart_send_char (c # p) n s =
     (if c = 0 then Some (n, s) else send_buffer uart_send_char p (n + 1) (uart_send_char c s))"

text \<open>The array \<open>buf[1024]\<close> is written from its start without gaps, so it is overrun exactly if the text
  and its \<open>NUL\<close> do not fit.\<close>

definition ee_printf :: "'d fpu \<Rightarrow> (ee_u8 \<Rightarrow> 's \<Rightarrow> 's) \<Rightarrow> ee_u8 list \<Rightarrow> 'd va list \<Rightarrow> 's \<Rightarrow> (nat \<times> 's) option" where
  "ee_printf F uart_send_char fmt args s = do {
     (buf, _) \<leftarrow> ee_vsprintf F fmt args;
     if 1024 < length buf then None else send_buffer uart_send_char buf 0 s }"

section \<open>An abstract formatter\<close>

text \<open>The directives of a format as data: a character of the text, or a conversion with its flags, width,
  precision, qualifier and conversion character.\<close>

datatype amount = Default | Fixed nat | Star

datatype fmt_part = Text ee_u8 | Field "ee_u8 list" amount "amount option" "ee_u8 list" ee_u8

fun amount_text :: "amount \<Rightarrow> ee_u8 list" where
  "amount_text Default = []"
| "amount_text (Fixed n) = numeral_text (\<lambda>d. 48 + of_nat d) 10 n"
| "amount_text Star = [42]"

fun part_text :: "fmt_part \<Rightarrow> ee_u8 list" where
  "part_text (Text c) = [c]"
| "part_text (Field fs w p q c) =
     [37] @ fs @ amount_text w @ (case p of None \<Rightarrow> [] | Some p \<Rightarrow> 46 # amount_text p) @ q @ [c]"

definition conversion_char :: "ee_u8 \<Rightarrow> bool" where
  "conversion_char c \<longleftrightarrow> flag_of c = 0 \<and> \<not> is_digit c \<and> c \<notin> {0, 42, 46, 76, 108}"

fun amount_ok :: "amount \<Rightarrow> bool" where
  "amount_ok (Fixed n) \<longleftrightarrow> int n < 2 ^ 29" | "amount_ok a = True"

fun part_ok :: "fmt_part \<Rightarrow> bool" where
  "part_ok (Text c) \<longleftrightarrow> c \<noteq> 0 \<and> c \<noteq> 37"
| "part_ok (Field fs w p q c) \<longleftrightarrow> list_all (\<lambda>f. flag_of f \<noteq> 0) fs \<and> w \<noteq> Fixed 0 \<and> amount_ok w \<and>
     pred_option amount_ok p \<and> q \<in> {[], [108], [76]} \<and> conversion_char c"

text \<open>What the parts mean.  An amount that comes from the arguments has to be within bounds.\<close>

fun width_of :: "amount \<Rightarrow> c_int \<Rightarrow> 'd va list \<Rightarrow> (c_int \<times> c_int \<times> 'd va list) option" where
  "width_of Default flags args = Some (-1, flags, args)"
| "width_of (Fixed n) flags args = Some (of_nat n, flags, args)"
| "width_of Star flags args = do {
     (w, args) \<leftarrow> va_int args;
     if \<bar>sint w\<bar> \<le> 2 ^ 29 then Some (if sint w < 0 then (- w, flags OR LEFT, args) else (w, flags, args)) else None }"

fun precision_of :: "amount option \<Rightarrow> 'd va list \<Rightarrow> (c_int \<times> 'd va list) option" where
  "precision_of None args = Some (-1, args)"
| "precision_of (Some Default) args = Some (0, args)"
| "precision_of (Some (Fixed n)) args = Some (of_nat n, args)"
| "precision_of (Some Star) args = do {
     (p, args) \<leftarrow> va_int args;
     if sint p \<le> 2 ^ 30 then Some (if sint p < 0 then 0 else p, args) else None }"

text \<open>The characters that \<open>%s\<close> prints: up to the \<open>NUL\<close>, at most as many as the precision says.  Without
  a \<open>NUL\<close> the object has to be longer than that, since one character more is read.  No object is as
  large as half of the memory.\<close>

definition string_text :: "ee_u8 list option \<Rightarrow> int \<Rightarrow> ee_u8 list option" where
  "string_text s precision =
     (let s = (case s of None \<Rightarrow> bytes ''<NULL>'' @ [0] | Some s \<Rightarrow> s);
          t = takeWhile (\<lambda>c. c \<noteq> 0) s in
      if 2 ^ 31 \<le> int (length s) then None
      else if 0 \<in> set s then Some (if precision < 0 then t else take (nat precision) t)
      else if 0 \<le> precision \<and> nat precision < length s then Some (take (nat precision) s)
      else None)"

definition address_text :: "ee_u8 list \<Rightarrow> bool \<Rightarrow> c_int \<Rightarrow> ee_u8 list option" where
  "address_text a long flags =
     (if length a < (if long then 6 else 4) then None else Some (if long then mac_text flags a else ip_text a))"

definition conv_text :: "'d fpu \<Rightarrow> ee_u8 \<Rightarrow> c_int \<Rightarrow> c_int \<Rightarrow> c_int \<Rightarrow> bool \<Rightarrow> 'd va list
    \<Rightarrow> (ee_u8 list \<times> 'd va list) option" where
  "conv_text F c flags width precision long args =
     (if c \<in> {111, 88, 120, 100, 105, 117} then do {
        (v, args) \<leftarrow> va_int args;
        Some (number_text v (base_of c) width precision (flags OR sign_flag c), args) }
      else if c = 112 then do {
        (v, args) \<leftarrow> va_ptr args;
        Some (if width = -1 then number_text v 16 8 precision (flags OR ZEROPAD)
              else number_text v 16 width precision flags, args) }
      else if c = 99 then do {
        (v, args) \<leftarrow> va_int args;
        Some (text_field flags (sint width) [ucast v], args) }
      else if c = 115 then do {
        (s, args) \<leftarrow> va_str args;
        t \<leftarrow> string_text s (sint precision);
        Some (text_field flags (sint width) t, args) }
      else if c = 97 \<or> c = 65 then do {
        (a, args) \<leftarrow> va_addr args;
        t \<leftarrow> address_text a long (if c = 65 then flags OR UPPERCASE else flags);
        Some (text_field flags (sint width) t, args) }
      else if c = 102 then do {
        (d, args) \<leftarrow> va_dbl args;
        let flags = flags OR SIGN;
        t \<leftarrow> float_text F (float_abs F flags d) precision c flags;
        Some (field flags (sint width) (float_sign_text F flags d) t, args) }
      else Some (if c = 37 then [37] else [37, c], args))"

fun part_value :: "'d fpu \<Rightarrow> fmt_part \<Rightarrow> 'd va list \<Rightarrow> (ee_u8 list \<times> 'd va list) option" where
  "part_value F (Text c) args = Some ([c], args)"
| "part_value F (Field fs w p q c) args = do {
     (width, flags, args) \<leftarrow> width_of w (fold (\<lambda>f flags. flags OR flag_of f) fs 0) args;
     (precision, args) \<leftarrow> precision_of p args;
     conv_text F c flags width precision (q = [108]) args }"

fun format_value :: "'d fpu \<Rightarrow> fmt_part list \<Rightarrow> 'd va list \<Rightarrow> ee_u8 list option" where
  "format_value F [] args = Some []"
| "format_value F (d # ds) args = do {
     (t, args) \<leftarrow> part_value F d args;
     ts \<leftarrow> format_value F ds args;
     Some (t @ ts) }"

section \<open>The scanning functions read the text of a part\<close>

lemma flag_zero [simp]: "flag_of 0 = 0" "flag_of 42 = 0" "flag_of 46 = 0" "flag_of 76 = 0" "flag_of 108 = 0"
  "is_digit c \<Longrightarrow> c \<noteq> 48 \<Longrightarrow> flag_of c = 0"
  by (auto simp: flag_of_def is_digit_def)

lemma not_digit [simp]: "\<not> is_digit 42" "\<not> is_digit 46" "\<not> is_digit 76" "\<not> is_digit 108" "\<not> is_digit 0"
  by (simp_all add: is_digit_def)

lemma get_flags_text:
  "list_all (\<lambda>f. flag_of f \<noteq> 0) fs \<Longrightarrow> flag_of c = 0 \<Longrightarrow>
     get_flags flags (fs @ c # rest) = Some (fold (\<lambda>f flags. flags OR flag_of f) fs flags, c # rest)"
  by (induction fs arbitrary: flags) simp_all

text \<open>The text of an amount, in front of a character that cannot continue it.\<close>

lemma numeral_text_head:
  "0 < n \<Longrightarrow> \<exists>c s. numeral_text (\<lambda>d. 48 + of_nat d) 10 n = c # s \<and> is_digit c \<and> c \<noteq> 48"
proof -
  assume n: "0 < n"
  have "\<exists>d ds. rev (digits 10 n) = d # ds \<and> 0 < d \<and> d < 10" using n
  proof (induction n rule: less_induct)
    case (less n)
    show ?case
    proof (cases "n < 10")
      case True
      then show ?thesis using less.prems by (simp add: digits_step)
    next
      case False
      then have "rev (digits 10 n) = rev (digits 10 (n div 10)) @ [n mod 10]" by (simp add: digits_step)
      moreover obtain d ds where "rev (digits 10 (n div 10)) = d # ds" "0 < d" "d < 10"
      proof -
        have "n div 10 < n" "0 < n div 10" using False by simp_all
        from less.IH[OF this] that show thesis by blast
      qed
      ultimately show ?thesis by (auto simp del: rev_eq_Cons_iff)
    qed
  qed
  then obtain d ds where d: "rev (digits 10 n) = d # ds" "0 < d" "d < 10" by blast
  have "unat (48 + of_nat d :: ee_u8) = 48 + d"
    using d(3) by (simp add: unat_word_ariths unsigned_of_nat take_bit_eq_mod)
  then have "is_digit (48 + of_nat d)" "(48 + of_nat d :: ee_u8) \<noteq> 48"
    using d by (auto simp: is_digit_def word_le_nat_alt word_unat_eq_iff)
  with n d(1) show ?thesis by (auto simp: numeral_text_def)
qed

lemma get_width_text:
  assumes "amount_ok w" "w \<noteq> Fixed 0" "width_of w flags args = Some (width, flags', args')" "\<not> is_digit c" "c \<noteq> 42"
  shows "get_width flags (amount_text w @ c # rest) args = Some (width, flags', c # rest, args')"
proof (cases w)
  case (Fixed n)
  then obtain d s where "amount_text w = d # s" "is_digit d"
    using numeral_text_head[of n] assms(2) by auto
  then show ?thesis
    using Fixed assms skip_atoi_numeral[of c n rest] by simp
qed (use assms in \<open>auto simp: is_digit_def split: bind_splits if_splits\<close>)

lemma get_precision_text:
  assumes "pred_option amount_ok p" "precision_of p args = Some (precision, args')" "\<not> is_digit c" "c \<noteq> 42" "c \<noteq> 46"
  shows "get_precision ((case p of None \<Rightarrow> [] | Some p \<Rightarrow> 46 # amount_text p) @ c # rest) args = Some (precision, c # rest, args')"
proof (cases p)
  case (Some a)
  show ?thesis
  proof (cases a)
    case (Fixed n)
    have "\<exists>d s. amount_text a = d # s \<and> is_digit d"
    proof (cases "n = 0")
      case False
      then show ?thesis using numeral_text_head[of n] Fixed by auto
    qed (simp add: Fixed numeral_text_def is_digit_def)
    then obtain d s where "amount_text a = d # s" "is_digit d" by blast
    moreover have "sint (of_nat n :: c_int) = int n" using Fixed Some assms(1) by (simp add: sint_of_small_nat)
    ultimately show ?thesis
      using Fixed Some assms skip_atoi_numeral[of c n rest] by simp
  qed (use Some assms in \<open>auto simp: is_digit_def split: bind_splits if_splits\<close>)
qed (use assms in simp)

lemma get_qualifier_text:
  "q \<in> {[], [108], [76]} \<Longrightarrow> c \<noteq> 108 \<Longrightarrow> c \<noteq> 76 \<Longrightarrow>
     get_qualifier (q @ c # rest) = Some (if q = [] then -1 else ucast (hd q), c # rest)"
  by auto

section \<open>The conversions write the text of a part\<close>

lemma pad_around:
  assumes "len < 2 ^ 31" "- (2 ^ 29) \<le> sint width"
  shows "(let (blanks, w) = (if has flags LEFT then ([], width) else pad 32 (of_nat len) width) in
      blanks @ t @ fst (pad 32 (of_nat len) w))
    = (let blanks = replicate (nat (sint width - int len)) 32 in if has flags LEFT then t @ blanks else blanks @ t)"
proof -
  have "sint (of_nat len :: c_int) = int len" using assms(1) by (simp add: sint_of_small_nat)
  moreover have "sint (width - 1) = sint width - 1" "sint (of_nat len - 1 :: c_int) = int len - 1"
    using assms sint_lt[of width] calculation by (subst sint_diff; simp)+
  ultimately show ?thesis by (simp add: pad_eq)
qed

lemma convert_char_text:
  assumes "- (2 ^ 29) \<le> sint width"
  shows "convert_char str v width flags = str @ text_field flags (sint width) [ucast v]"
proof -
  have "sint (width - 1) = sint width - 1" "sint (width - 1 - 1) = sint width - 2"
    using assms sint_lt[of width] by (subst sint_diff; (subst sint_diff)?; simp)+
  then show ?thesis by (simp add: convert_char_def pad_before_eq text_field_def Let_def)
qed

lemma convert_string_text:
  assumes "string_text s (sint precision) = Some t" "- (2 ^ 29) \<le> sint width"
    and p: "precision = -1 \<or> 0 \<le> sint precision"
  shows "convert_string str s width precision flags = Some (str @ text_field flags (sint width) t)"
proof -
  define m where "m = (case s of None \<Rightarrow> bytes ''<NULL>'' @ [0] | Some s \<Rightarrow> s)"
  let ?t = "takeWhile (\<lambda>c. c \<noteq> 0) m"
  have len: "length m < 2 ^ 31" using assms(1) by (simp add: string_text_def m_def[symmetric] Let_def split: if_splits)
  have tl: "length ?t \<le> length m" by (rule length_takeWhile_le)
  have "\<exists>n. strnlen m precision = Some n \<and> n < 2 ^ 31 \<and> t = take n m \<and> length t = n"
  proof (cases "sint precision < 0")
    case True
    then have "unat precision = 2 ^ 32 - 1" using p by (auto simp: unat_of_sint)
    moreover have "0 \<in> set m" "t = ?t"
      using assms(1) True by (auto simp: string_text_def m_def[symmetric] Let_def split: if_splits)
    ultimately show ?thesis using len tl by (simp add: strnlen_eq takeWhile_eq_take[symmetric])
  next
    case False
    then have n: "nat (sint precision) = unat precision"
      using sint_lt[of precision] by (simp add: unat_of_sint)
    have "take (length ?t) m = ?t" by (rule takeWhile_eq_take[symmetric])
    then have "take (min (unat precision) (length ?t)) m = take (unat precision) ?t"
      by (metis take_take)
    moreover have "length ?t = length m" if "0 \<notin> set m"
      using that by (metis (mono_tags, lifting) takeWhile_eq_all_conv)
    ultimately show ?thesis
      using assms(1) False len tl n
      by (auto simp: string_text_def m_def[symmetric] Let_def strnlen_eq min_def split: if_splits)
  qed
  then obtain n where n: "strnlen m precision = Some n" "n < 2 ^ 31" "t = take n m" "length t = n" by blast
  show ?thesis
    using n pad_around[OF n(2) assms(2), of flags "take n m"]
    by (cases "has flags LEFT"; cases "pad 32 (of_nat n) width"; simp add: convert_string_def m_def[symmetric] text_field_def Let_def)
qed

lemma put_number_text:
  assumes "2 \<le> sint base" "sint base \<le> 36" "- (2 ^ 29) \<le> sint width" "sint precision \<le> 2 ^ 30"
  shows "put_number str num base width precision flags = Some (str @ number_text num base width precision flags)"
  using number_eq[OF assms] by (simp add: put_number_def)

lemma base_of_bounds: "2 \<le> sint (base_of c)" "sint (base_of c) \<le> 36"
  by (simp_all add: base_of_def)

lemma address_text_put:
  assumes "address_text a (q = 108) flags = Some t" "- (2 ^ 29) \<le> sint width"
  shows "(if q = 108 then eaddr else iaddr) str a width precision flags = Some (str @ text_field flags (sint width) t)"
  using assms by (auto simp: address_text_def eaddr_eq iaddr_eq split: if_splits)

lemma convert_text:
  assumes "conv_text F c flags width precision (q = 108) args = Some (t, args')" "conversion_char c"
    and "- (2 ^ 29) \<le> sint width" "sint precision \<le> 2 ^ 30" "precision = -1 \<or> 0 \<le> sint precision"
  shows "convert F str c flags width precision q args = Some (str @ t, args')"
proof -
  note bounds = assms(3,4)
  consider "c \<in> {111, 88, 120, 100, 105, 117}" | "c = 112" | "c = 99" | "c = 115" | "c = 97 \<or> c = 65" | "c = 102"
    | "c \<notin> {111, 88, 120, 100, 105, 117, 112, 99, 115, 97, 65, 102}" by blast
  then show ?thesis
  proof cases
    case 1
    have "convert F str c flags width precision q args = do {
        (num, args) \<leftarrow> va_int args;
        str \<leftarrow> put_number str num (base_of c) width precision (flags OR sign_flag c);
        Some (str, args) }" using 1 by (auto simp: convert_def)
    then show ?thesis
      using 1 assms(1) put_number_text[OF base_of_bounds bounds] by (auto simp: conv_text_def split: bind_splits)
  next
    case 2
    have "put_number str v 16 8 precision flags = Some (str @ number_text v 16 8 precision flags)"
        "put_number str v 16 width precision flags = Some (str @ number_text v 16 width precision flags)" for v flags
      using bounds by (simp_all add: put_number_text)
    then show ?thesis using 2 assms(1) by (auto simp: conv_text_def convert_def split: bind_splits if_splits)
  next
    case 3
    then show ?thesis
      using assms(1) convert_char_text[OF assms(3)] by (auto simp: conv_text_def convert_def split: bind_splits)
  next
    case 4
    then show ?thesis
      using assms(1) convert_string_text[OF _ assms(3,5)] by (auto simp: conv_text_def convert_def split: bind_splits)
  next
    case 5
    define fl where "fl = (if c = 65 then flags OR UPPERCASE else flags)"
    obtain a t' where a: "va_addr args = Some (a, args')" "address_text a (q = 108) fl = Some t'"
        "t = text_field flags (sint width) t'"
      using assms(1) 5 by (auto simp: conv_text_def fl_def split: bind_splits)
    have "text_field fl w s = text_field flags w s" for w s
      by (simp add: text_field_def fl_def has_or)
    then have "(if q = 108 then eaddr else iaddr) str a width precision fl = Some (str @ t)"
      using address_text_put[OF a(2) assms(3)] a(3) by simp
    moreover have "convert F str c flags width precision q args = do {
        (a, args) \<leftarrow> va_addr args;
        str \<leftarrow> (if q = 108 then eaddr else iaddr) str a width precision fl;
        Some (str, args) }" using 5 by (auto simp: convert_def fl_def)
    ultimately show ?thesis using a(1) by simp
  next
    case 6
    then show ?thesis
      using assms(1) by (auto simp: conv_text_def convert_def Let_def flt_field[OF assms(3)] split: bind_splits)
  next
    case 7
    then show ?thesis
      using assms(1,2) by (auto simp: conv_text_def convert_def conversion_char_def split: if_splits)
  qed
qed

section \<open>The interpreter writes the value of the format\<close>

lemma sint_uminus [fits]: "- (2 ^ 31) < sint a \<Longrightarrow> sint (- a :: c_int) = - sint a"
  using sint_lt[of a] by (simp add: sint_word_ariths signed_take_bit_int_eq_self_iff)

lemma width_of_bounds:
  "width_of w flags args = Some (width, flags', args') \<Longrightarrow> amount_ok w \<Longrightarrow> - (2 ^ 29) \<le> sint width"
  by (cases w) (auto simp: sint_of_small_nat sint_uminus split: bind_splits if_splits)

lemma precision_of_bounds:
  assumes "precision_of p args = Some (precision, args')" "pred_option amount_ok p"
  shows "sint precision \<le> 2 ^ 30" "precision = -1 \<or> 0 \<le> sint precision"
proof -
  have "sint (of_nat n :: c_int) = int n" if "n < 2 ^ 29" for n using that by (simp add: sint_of_small_nat)
  then have "sint precision \<le> 2 ^ 30 \<and> (precision = -1 \<or> 0 \<le> sint precision)"
    using assms by (cases p; cases "the p") (auto split: bind_splits if_splits)
  then show "sint precision \<le> 2 ^ 30" "precision = -1 \<or> 0 \<le> sint precision" by simp_all
qed

lemma conversion_char_simps:
  "conversion_char c \<Longrightarrow> flag_of c = 0 \<and> \<not> is_digit c \<and> c \<noteq> 0 \<and> c \<noteq> 42 \<and> c \<noteq> 46 \<and> c \<noteq> 76 \<and> c \<noteq> 108"
  by (simp add: conversion_char_def)

text \<open>The character that ends one part of a specification and begins the next.\<close>

lemma field_step:
  assumes ok: "part_ok (Field fs w p q c)" and val: "part_value F (Field fs w p q c) args = Some (t, args')"
  shows "vsprintf_from F str (part_text (Field fs w p q c) @ rest) args = vsprintf_from F (str @ t) rest args'"
proof -
  have c: "flag_of c = 0" "\<not> is_digit c" "c \<noteq> 0" "c \<noteq> 42" "c \<noteq> 46" "c \<noteq> 76" "c \<noteq> 108"
    using ok conversion_char_simps by auto
  obtain width flags args1 precision args2 where v:
    "width_of w (fold (\<lambda>f flags. flags OR flag_of f) fs 0) args = Some (width, flags, args1)"
    "precision_of p args1 = Some (precision, args2)"
    "conv_text F c flags width precision (q = [108]) args2 = Some (t, args')"
    using val by (auto split: bind_splits)
  define tail3 where "tail3 = q @ c # rest"
  define tail2 where "tail2 = (case p of None \<Rightarrow> [] | Some p \<Rightarrow> 46 # amount_text p) @ tail3"
  define tail1 where "tail1 = amount_text w @ tail2"
  have t3: "\<exists>d s. tail3 = d # s \<and> flag_of d = 0 \<and> \<not> is_digit d \<and> d \<noteq> 42 \<and> d \<noteq> 46"
    using ok c by (auto simp: tail3_def)
  have t2: "\<exists>d s. tail2 = d # s \<and> flag_of d = 0 \<and> \<not> is_digit d \<and> d \<noteq> 42"
    using t3 by (cases p) (auto simp: tail2_def)
  have t1: "\<exists>d s. tail1 = d # s \<and> flag_of d = 0"
  proof (cases w)
    case (Fixed n)
    then obtain d s where "amount_text w = d # s" "is_digit d" "d \<noteq> 48"
      using numeral_text_head[of n] ok by auto
    then show ?thesis using Fixed by (simp add: tail1_def)
  qed (use t2 in \<open>auto simp: tail1_def\<close>)
  have "get_flags 0 (fs @ tail1) = Some (fold (\<lambda>f flags. flags OR flag_of f) fs 0, tail1)"
    using t1 ok get_flags_text[of fs] by auto
  moreover have "get_width (fold (\<lambda>f flags. flags OR flag_of f) fs 0) tail1 args = Some (width, flags, tail2, args1)"
    using t2 ok get_width_text[OF _ _ v(1)] unfolding tail1_def by auto
  moreover have "get_precision tail2 args1 = Some (precision, tail3, args2)"
    using t3 ok get_precision_text[OF _ v(2)] unfolding tail2_def by auto
  moreover have "get_qualifier tail3 = Some (if q = [] then -1 else ucast (hd q), c # rest)"
    using ok c get_qualifier_text unfolding tail3_def by simp
  moreover have "(q = [108]) = ((if q = [] then -1 else ucast (hd q) :: c_int) = 108)" using ok by auto
  then have "convert F str c flags width precision (if q = [] then -1 else ucast (hd q)) args2 = Some (str @ t, args')"
    using convert_text[of F c flags width precision "if q = [] then -1 else ucast (hd q)" args2 t args' str] v(3) ok
      width_of_bounds[OF v(1)] precision_of_bounds[OF v(2)] by simp
  moreover have "part_text (Field fs w p q c) @ rest = 37 # fs @ tail1"
    by (simp add: tail1_def tail2_def tail3_def)
  ultimately show ?thesis using c(3) by simp
qed

lemma part_step:
  "part_ok d \<Longrightarrow> part_value F d args = Some (t, args') \<Longrightarrow>
     vsprintf_from F str (part_text d @ rest) args = vsprintf_from F (str @ t) rest args'"
  by (cases d; (simp only: field_step)?; auto)

lemma vsprintf_from_value:
  "list_all part_ok ds \<Longrightarrow> format_value F ds args = Some t \<Longrightarrow>
     vsprintf_from F str (concat (map part_text ds) @ [0]) args = Some (str @ t)"
proof (induction ds arbitrary: str args t)
  case Nil
  then show ?case by simp
next
  case (Cons d ds)
  obtain t1 args1 t2 where v: "part_value F d args = Some (t1, args1)" "format_value F ds args1 = Some t2" "t = t1 @ t2"
    using Cons.prems(2) by (auto split: bind_splits)
  have "vsprintf_from F str (part_text d @ concat (map part_text ds) @ [0]) args
    = vsprintf_from F (str @ t1) (concat (map part_text ds) @ [0]) args1"
    using Cons.prems(1) v(1) by (simp add: part_step del: part_ok.simps part_value.simps part_text.simps vsprintf_from.simps)
  then show ?case using Cons v by simp
qed

section \<open>\<open>ee_printf\<close>\<close>

text \<open>What is sent: the text up to the first \<open>NUL\<close> (one that \<open>%c\<close> has put there, or the last one).\<close>

lemma send_buffer_eq:
  "send_buffer put (t @ [0]) n s =
     (let u = takeWhile (\<lambda>c. c \<noteq> 0) t in Some (n + length u, fold put u s))"
  by (induction t arbitrary: n s) (simp_all add: Let_def)

lemma ee_printf_eq:
  "ee_printf F put fmt args s =
     (case vsprintf_from F [] fmt args of None \<Rightarrow> None
      | Some t \<Rightarrow> if length t < 1024
          then let u = takeWhile (\<lambda>c. c \<noteq> 0) t in Some (length u, fold put u s) else None)"
  by (auto simp: ee_printf_def ee_vsprintf_def send_buffer_eq split: option.splits)

section \<open>Formats and the types of their arguments\<close>

datatype va_type = TInt | TStr | TPtr | TMac | TIp

fun fits :: "'d va \<Rightarrow> va_type \<Rightarrow> bool" where
  "fits (VInt i) TInt = True"
| "fits (VStr None) TStr = True"
| "fits (VStr (Some s)) TStr \<longleftrightarrow> 0 \<in> set s"
| "fits (VPtr p) TPtr = True"
| "fits (VAddr a) TMac \<longleftrightarrow> 6 \<le> length a"
| "fits (VAddr a) TIp \<longleftrightarrow> 4 \<le> length a"
| "fits v t = False"

text \<open>The types that a width, a precision and a conversion read, and the format after them.\<close>

fun star_type :: "ee_u8 list \<Rightarrow> (va_type list \<times> ee_u8 list) option" where
  "star_type [] = None"
| "star_type (c # fmt) =
     (if is_digit c then map_option (\<lambda>(_, fmt). ([], fmt)) (skip_atoi 0 (c # fmt))
      else if c = 42 then Some ([TInt], fmt) else Some ([], c # fmt))"

fun precision_type :: "ee_u8 list \<Rightarrow> (va_type list \<times> ee_u8 list) option" where
  "precision_type [] = None"
| "precision_type (c # fmt) = (if c = 46 then star_type fmt else Some ([], c # fmt))"

definition conversion_type :: "ee_u8 \<Rightarrow> bool \<Rightarrow> va_type list option" where
  "conversion_type c long =
     (if c \<in> {99, 111, 88, 120, 100, 105, 117} then Some [TInt]
      else if c = 115 then Some [TStr]
      else if c = 112 then Some [TPtr]
      else if c = 65 \<or> c = 97 then Some [if long then TMac else TIp]
      else if c = 102 then None
      else Some [])"

text \<open>The format \<open>fmt\<close> reads arguments of the types \<open>ts\<close>.\<close>

inductive format_type :: "ee_u8 list \<Rightarrow> va_type list \<Rightarrow> bool" where
  nul: "format_type (0 # rest) []"
| char: "c \<noteq> 0 \<Longrightarrow> c \<noteq> 37 \<Longrightarrow> format_type fmt ts \<Longrightarrow> format_type (c # fmt) ts"
| conv: "get_flags 0 fmt = Some (flags, fmt1) \<Longrightarrow> star_type fmt1 = Some (ts1, fmt2) \<Longrightarrow>
     precision_type fmt2 = Some (ts2, fmt3) \<Longrightarrow> get_qualifier fmt3 = Some (q, c # fmt4) \<Longrightarrow>
     conversion_type c (q = 108) = Some ts3 \<Longrightarrow> format_type (if c = 0 then c # fmt4 else fmt4) ts4 \<Longrightarrow>
     format_type (37 # fmt) (ts1 @ ts2 @ ts3 @ ts4)"

inductive_cases format_type_cases [elim!]: "format_type (c # fmt) ts"

lemma star_type_digits:
  assumes "star_type fmt = Some (ts, fmt')" "list_all2 fits args (ts @ us)"
  shows "\<exists>p args'. get_digits fmt args = Some (p, fmt', args') \<and> list_all2 fits args' us"
proof (cases fmt)
  case (Cons c f)
  show ?thesis
  proof (cases "c = 42")
    case True
    then obtain v args' where "args = VInt v # args'" "list_all2 fits args' us"
      using assms Cons by (auto simp: list_all2_Cons2 elim!: fits.elims)
    then show ?thesis using True assms(1) Cons by simp
  next
    case False
    then show ?thesis
      using assms Cons by (cases "skip_atoi 0 (c # f)") (auto simp del: skip_atoi.simps split: if_splits)
  qed
qed (use assms in simp)

lemma star_type_width:
  assumes "star_type fmt = Some (ts, fmt')" "list_all2 fits args (ts @ us)"
  shows "\<exists>w flags' args'. get_width flags fmt args = Some (w, flags', fmt', args') \<and> list_all2 fits args' us"
proof (cases fmt)
  case (Cons c f)
  obtain p args' where p: "get_digits fmt args = Some (p, fmt', args')" "list_all2 fits args' us"
    using star_type_digits[OF assms] by blast
  then show ?thesis
    using Cons by (auto simp del: skip_atoi.simps split: if_splits)
qed (use assms in simp)

lemma precision_type_get:
  assumes "precision_type fmt = Some (ts, fmt')" "list_all2 fits args (ts @ us)"
  shows "\<exists>p args'. get_precision fmt args = Some (p, fmt', args') \<and> list_all2 fits args' us"
proof (cases fmt)
  case (Cons c f)
  then show ?thesis
    using assms star_type_digits[of f ts fmt' args us] by (cases "c = 46") auto
qed (use assms in simp)

lemma convert_progress:
  assumes "conversion_type c (q = 108) = Some ts" "list_all2 fits args (ts @ us)"
  shows "\<exists>str' args'. convert F str c flags width precision q args = Some (str', args') \<and> list_all2 fits args' us"
proof -
  have n: "2 \<le> sint base \<Longrightarrow> sint base \<le> 36 \<Longrightarrow> \<exists>t. put_number str v base width precision flags = Some t"
    for base str v width precision flags
    using number_total[of base str v width precision flags] by (auto simp: put_number_def)
  have number: "\<exists>t. put_number str v (base_of c) width precision flags = Some t"
    "\<exists>t. put_number str v 16 width precision flags = Some t" for str v c width precision flags
    by (rule n[OF base_of_bounds], rule n) simp_all
  have string: "\<exists>t. convert_string str s width precision flags = Some t" if "pred_option (\<lambda>s. 0 \<in> set s) s" for s
  proof -
    have "0 \<in> set (case s of None \<Rightarrow> bytes ''<NULL>'' @ [0] | Some s \<Rightarrow> s)" using that by (cases s) simp_all
    then show ?thesis by (simp add: convert_string_def strnlen_eq Let_def case_prod_beta)
  qed
  consider "c \<in> {111, 88, 120, 100, 105, 117}" | "c = 112" | "c = 99" | "c = 115" | "c = 97 \<or> c = 65"
    | "c \<notin> {111, 88, 120, 100, 105, 117, 112, 99, 115, 97, 65, 102}"
    using assms(1) by (auto simp: conversion_type_def split: if_splits)
  then show ?thesis
  proof cases
    case 1
    then have c: "c \<noteq> 99" "c \<noteq> 115" "c \<noteq> 112" "c \<noteq> 65" "c \<noteq> 97" by auto
    have "ts = [TInt]" using 1 assms(1) by (simp add: conversion_type_def)
    then obtain v args' where "args = VInt v # args'" "list_all2 fits args' us"
      using assms(2) by (auto simp: list_all2_Cons2 elim!: fits.elims)
    then show ?thesis
      using 1 c number(1)[of str v c width precision "flags OR sign_flag c"]
      by (auto simp: convert_def simp del: insert_iff)
  next
    case 2
    then obtain p args' where "args = VPtr p # args'" "list_all2 fits args' us"
      using assms by (auto simp: conversion_type_def list_all2_Cons2 elim!: fits.elims)
    then show ?thesis
      using 2 number(2)[of str p 8 precision "flags OR ZEROPAD"] number(2)[of str p width precision flags]
      by (auto simp: convert_def)
  next
    case 3
    then obtain v args' where "args = VInt v # args'" "list_all2 fits args' us"
      using assms by (auto simp: conversion_type_def list_all2_Cons2 elim!: fits.elims)
    then show ?thesis using 3 by (auto simp: convert_def)
  next
    case 4
    then obtain s args' where "args = VStr s # args'" "pred_option (\<lambda>s. 0 \<in> set s) s" "list_all2 fits args' us"
      using assms by (auto simp: conversion_type_def list_all2_Cons2 elim!: fits.elims)
    then show ?thesis using 4 string[of s] by (auto simp: convert_def)
  next
    case 5
    then obtain a args' where a: "args = VAddr a # args'" "list_all2 fits args' us"
        "(if q = 108 then 6 else 4) \<le> length a"
      using assms by (auto simp: conversion_type_def list_all2_Cons2 elim!: fits.elims split: if_splits)
    then have "\<exists>t. (if q = 108 then eaddr else iaddr) str a width precision fl = Some t" for fl
      using address_total[of a str width precision fl] by (cases "q = 108") simp_all
    from this[of "if c = 65 then flags OR UPPERCASE else flags"]
    show ?thesis using 5 a(1,2) by (auto simp: convert_def)
  next
    case 6
    then show ?thesis using assms by (auto simp: conversion_type_def convert_def Let_def)
  qed
qed

lemma vsprintf_progress:
  "format_type fmt ts \<Longrightarrow> list_all2 fits args (ts @ us) \<Longrightarrow> \<exists>t. vsprintf_from F str fmt args = Some t"
proof (induction arbitrary: str args rule: format_type.induct)
  case (conv fmt flags fmt1 ts1 fmt2 ts2 fmt3 q c fmt4 ts3 ts4)
  have "list_all2 fits args (ts1 @ ts2 @ ts3 @ ts4 @ us)" using conv.prems by simp
  with star_type_width[OF conv.hyps(2)] obtain w flags' args1 where
    w: "get_width flags fmt1 args = Some (w, flags', fmt2, args1)" "list_all2 fits args1 (ts2 @ ts3 @ ts4 @ us)" by blast
  with precision_type_get[OF conv.hyps(3)] obtain p args2 where
    p: "get_precision fmt2 args1 = Some (p, fmt3, args2)" "list_all2 fits args2 (ts3 @ ts4 @ us)" by blast
  with convert_progress[OF conv.hyps(5), of args2 "ts4 @ us" F str flags' w p] obtain str' args3 where
    c: "convert F str c flags' w p q args2 = Some (str', args3)" "list_all2 fits args3 (ts4 @ us)" by blast
  from conv.IH[OF c(2), of str'] show ?case
    using conv.hyps(1,4) w(1) p(1) c(1) by (simp split: if_splits)
qed auto

section \<open>The properties\<close>





text \<open>The buffer is not protected: a width of 1024 overruns it.\<close>

lemma width_overruns_buffer:
  "ee_printf F uart_send_char (bytes ''%1024c'' @ [0]) [VInt v] s = None"
proof -
  have f: "concat (map part_text [Field [] (Fixed 1024) None [] 99]) = bytes ''%1024c''" by code_simp
  have "list_all part_ok [Field [] (Fixed 1024) None [] 99]"
    by (simp add: conversion_char_def flag_of_def is_digit_def)
  moreover have "format_value F [Field [] (Fixed 1024) None [] 99] [VInt v] = Some (text_field 0 1024 [ucast v])"
    by (simp add: conv_text_def)
  ultimately have "vsprintf_from F [] (bytes ''%1024c'' @ [0]) [VInt v] = Some (text_field 0 1024 [ucast v])"
    using vsprintf_from_value[of "[Field [] (Fixed 1024) None [] 99]"] f by (metis append_Nil)
  moreover have "length (text_field 0 1024 [ucast v]) = 1024" by (simp add: text_field_def)
  ultimately show ?thesis by (simp add: ee_printf_eq)
qed

text \<open>\<open>strnlen\<close> reads one character more than it is told to, so \<open>%.3s\<close> of an array of three characters
  without \<open>NUL\<close> reads beyond its end.\<close>

lemma strnlen_reads_past_bound:
  "0 \<notin> set s \<Longrightarrow> length s = unat n \<Longrightarrow> strnlen s n = None"
  by (simp add: strnlen_eq)

end
