(* ===== verification/Cvt_Spec.thy ===== *)
theory Cvt_Spec
  imports Cvt Complex_Main
begin

text \<open>
  The correctness of the fixed-point conversion of \<open>double\<close>s (\<open>%f\<close>): on numbers whose conversion involves
  only exact floating-point operations, \<open>cvt\<close> and \<open>parse_float\<close> write the decimal expansion rounded half
  up.
\<close>

section \<open>What is assumed of doubles\<close>

text \<open>\<open>dbl s\<close> is the double \<open>s / 2 ^ B\<close>; up to 53 bits it is represented exactly.  On these numbers IEEE
  754 arithmetic is exact where the code multiplies, compares, splits or converts.  It is not exact where
  the code divides by ten; the last law says that the quotient is close enough for the code to find the
  quotient and the remainder of an integer below \<open>2 ^ 49\<close>.\<close>

definition double_laws :: "'d fpu \<Rightarrow> nat \<Rightarrow> (nat \<Rightarrow> 'd) \<Rightarrow> bool" where
  "double_laws F B dbl \<longleftrightarrow> 4 \<le> B \<and> B \<le> 49 \<and>
     (\<forall>s < 2 ^ 53. \<not> fp_less F (dbl s) (fp_zero F)) \<and>
     (\<forall>s < 2 ^ 53. fp_less F (fp_zero F) (dbl s) \<longleftrightarrow> s \<noteq> 0) \<and>
     (\<forall>s < 2 ^ 53. fp_eq F (dbl s) (fp_zero F) \<longleftrightarrow> s = 0) \<and>
     (\<forall>s < 2 ^ 53. fp_modf F (dbl s) = (dbl (s mod 2 ^ B), dbl (s div 2 ^ B * 2 ^ B))) \<and>
     (\<forall>s < 2 ^ B. fp_mul F (dbl s) (fp_ten F) = dbl (10 * s)) \<and>
     (\<forall>s < 10 * 2 ^ B. fp_less F (dbl s) (fp_one F) \<longleftrightarrow> s < 2 ^ B) \<and>
     (\<forall>d < 10. fp_int F (dbl (d * 2 ^ B)) = Some (of_nat d)) \<and>
     (\<forall>k. k * 2 ^ B < 2 ^ 53 \<longrightarrow> (\<exists>f. fp_modf F (fp_div F (dbl (k * 2 ^ B)) (fp_ten F)) = (f, dbl (k div 10 * 2 ^ B)) \<and>
        fp_int F (fp_mul F (fp_add F f (fp_03 F)) (fp_ten F)) = Some (of_nat (k mod 10))))"

section \<open>Decimal digits\<close>

definition dchar :: "nat \<Rightarrow> ee_u8" where
  "dchar d = 48 + of_nat d"

text \<open>The number that digits, most significant first, denote.\<close>

definition dval :: "nat list \<Rightarrow> nat" where
  "dval ds = foldl (\<lambda>v d. 10 * v + d) 0 ds"

lemma foldl_dval: "foldl (\<lambda>v d. 10 * v + d) v ds = v * 10 ^ length ds + dval ds"
proof (induction ds arbitrary: v)
  case (Cons d ds)
  show ?case using Cons[of "10 * v + d"] Cons[of d] by (simp add: dval_def algebra_simps)
qed (simp add: dval_def)

lemma dval_simps [simp]: "dval [] = 0" "dval (d # ds) = d * 10 ^ length ds + dval ds"
  "dval (ds @ es) = dval ds * 10 ^ length es + dval es" "dval (replicate n 0) = 0"
proof -
  show Nil: "dval [] = 0" by (simp add: dval_def)
  show Cons: "dval (d # ds) = d * 10 ^ length ds + dval ds" for d ds
    using foldl_dval[of d ds] by (simp add: dval_def)
  show "dval (ds @ es) = dval ds * 10 ^ length es + dval es"
    using foldl_dval[of "dval ds" es] by (simp add: dval_def)
  show "dval (replicate n 0) = 0" by (induction n) (simp_all add: Nil Cons)
qed

lemma dval_less: "\<forall>d \<in> set ds. d < 10 \<Longrightarrow> dval ds < 10 ^ length ds"
proof (induction ds)
  case (Cons d ds)
  then have "d * 10 ^ length ds \<le> 9 * 10 ^ length ds" by (intro mult_right_mono) simp_all
  moreover have "dval ds < 10 ^ length ds" using Cons by simp
  ultimately have "d * 10 ^ length ds + dval ds < 9 * 10 ^ length ds + 10 ^ length ds" by (rule add_le_less_mono)
  then show ?case by simp
qed simp

lemma dval_rev_digits: "dval (rev (digits 10 n)) = n"
proof (induction n rule: less_induct)
  case (less n)
  then show ?case by (cases "n = 0") (simp_all add: digits_step)
qed

text \<open>Digits of a given number and length are unique.\<close>

lemma quotient_unique: "a < m \<Longrightarrow> b < m \<Longrightarrow> d * m + a = e * m + b \<Longrightarrow> d = e \<and> a = (b :: nat)"
proof -
  assume less: "a < m" "b < m" and eq: "d * m + a = e * m + b"
  have "(d * m + a) div m = d" "(e * m + b) div m = e" using less by simp_all
  then have "d = e" unfolding eq by (rule trans[OF sym])
  with eq show "d = e \<and> a = b" by simp
qed

lemma dval_inject:
  "\<forall>d \<in> set ds. d < 10 \<Longrightarrow> \<forall>d \<in> set es. d < 10 \<Longrightarrow> length ds = length es \<Longrightarrow> dval ds = dval es \<Longrightarrow> ds = es"
proof (induction ds arbitrary: es)
  case (Cons d ds)
  obtain e es' where es: "es = e # es'" "length ds = length es'" using Cons.prems(3) by (cases es) simp_all
  have small: "\<forall>d \<in> set ds. d < 10" "\<forall>d \<in> set es'. d < 10" using Cons.prems(1,2) es(1) by simp_all
  have less: "dval ds < 10 ^ length ds" "dval es' < 10 ^ length ds"
    using dval_less[OF small(1)] dval_less[OF small(2)] unfolding es(2) by this+
  have eq: "d * 10 ^ length ds + dval ds = e * 10 ^ length ds + dval es'"
    using Cons.prems(4) es by simp
  from quotient_unique[OF less eq] show ?case using Cons.IH[OF small es(2)] es(1) by simp
qed simp

lemma numeral_text_dval:
  assumes "\<forall>d \<in> set ds. d < 10" "ds \<noteq> []" "hd ds \<noteq> 0"
  shows "map dchar ds = numeral_text (\<lambda>d. 48 + of_nat d) 10 (dval ds)"
proof -
  let ?es = "rev (digits 10 (dval ds))"
  obtain d ds' where ds: "ds = d # ds'" "d \<noteq> 0" using assms(2,3) by (cases ds) auto
  have "1 * 10 ^ length ds' \<le> d * 10 ^ length ds'" using ds(2) by (intro mult_right_mono) simp_all
  then have low: "10 ^ length ds' \<le> dval ds" by (simp add: ds(1) trans_le_add1)
  have "dval ds < 10 ^ length ds" using dval_less[OF assms(1)] .
  then have "length ?es \<le> length ds" using length_digits[of 10 "dval ds" "length ds"] by simp
  moreover have "length ds \<le> length ?es"
  proof (rule ccontr)
    assume "\<not> ?thesis"
    then have "length ?es \<le> length ds'" using ds by simp
    then have "(10 :: nat) ^ length ?es \<le> 10 ^ length ds'" by (intro power_increasing) simp_all
    moreover have "dval ?es < 10 ^ length ?es" using digits_less[of 10] by (intro dval_less) simp
    ultimately show False using low unfolding dval_rev_digits by linarith
  qed
  ultimately have "ds = ?es"
    using assms(1) digits_less[of 10 _ "dval ds"] by (intro dval_inject) (simp_all add: dval_rev_digits)
  moreover have "dval ds \<noteq> 0" using low by (metis not_less_zero power_not_zero zero_neq_numeral le_zero_eq)
  ultimately show ?thesis by (simp add: numeral_text_def dchar_def[abs_def])
qed

section \<open>The loops of \<open>cvt\<close>\<close>

lemma double_lawsD:
  assumes "double_laws F B dbl"
  shows "4 \<le> B" "B \<le> 49" "s < 2 ^ 53 \<Longrightarrow> \<not> fp_less F (dbl s) (fp_zero F)"
    "s < 2 ^ 53 \<Longrightarrow> fp_less F (fp_zero F) (dbl s) \<longleftrightarrow> s \<noteq> 0"
    "s < 2 ^ 53 \<Longrightarrow> fp_eq F (dbl s) (fp_zero F) \<longleftrightarrow> s = 0"
    "s < 2 ^ 53 \<Longrightarrow> fp_modf F (dbl s) = (dbl (s mod 2 ^ B), dbl (s div 2 ^ B * 2 ^ B))"
    "s < 2 ^ B \<Longrightarrow> fp_mul F (dbl s) (fp_ten F) = dbl (10 * s)"
    "s < 10 * 2 ^ B \<Longrightarrow> fp_less F (dbl s) (fp_one F) \<longleftrightarrow> s < 2 ^ B"
    "d < 10 \<Longrightarrow> fp_int F (dbl (d * 2 ^ B)) = Some (of_nat d)"
    "k * 2 ^ B < 2 ^ 53 \<Longrightarrow> \<exists>f. fp_modf F (fp_div F (dbl (k * 2 ^ B)) (fp_ten F)) = (f, dbl (k div 10 * 2 ^ B)) \<and>
        fp_int F (fp_mul F (fp_add F f (fp_03 F)) (fp_ten F)) = Some (of_nat (k mod 10))"
  using assms unfolding double_laws_def by blast+

lemma ten_grid: assumes "double_laws F B dbl" shows "10 * 2 ^ B \<le> (2 ^ 53 :: nat)"
proof -
  have "(2 :: nat) ^ B \<le> 2 ^ 49" using double_lawsD(2)[OF assms] by (intro power_increasing) simp_all
  then show ?thesis by simp
qed

text \<open>The digit character of a digit found by a conversion to \<open>int\<close>.\<close>

lemma ucast_dchar: "d < 10 \<Longrightarrow> ucast (of_nat d + 48 :: c_int) = dchar d"
  by (simp add: dchar_def word_unat_eq_iff unsigned_ucast_eq unat_word_ariths unsigned_of_nat take_bit_eq_mod)

lemma dchar_less: "d < 15 \<Longrightarrow> unat (dchar d) = 48 + d"
  by (simp add: dchar_def unat_word_ariths unsigned_of_nat take_bit_eq_mod)

lemma zput_snoc: "length xs = n \<Longrightarrow> zput (xs @ y # suf) (int n) c = Some (xs @ Some c # suf)"
  by (simp add: zput_def bput_def list_update_append)

lemma int_digits_eq:
  assumes L: "double_laws F B dbl"
  shows "k * 2 ^ B < 2 ^ 53 \<Longrightarrow> length (digits 10 k) \<le> length xs \<Longrightarrow>
    int_digits F (xs @ suf, int (length xs), dbl (k * 2 ^ B), r) =
      Some (take (length xs - length (digits 10 k)) xs @ map (Some \<circ> dchar) (rev (digits 10 k)) @ suf,
        int (length xs - length (digits 10 k)), dbl 0, r + int (length (digits 10 k)))"
proof (induction k arbitrary: xs suf r rule: less_induct)
  case (less k)
  note zero = double_lawsD(5)[OF L less.prems(1)]
  show ?case
  proof (cases "k = 0")
    case True
    then show ?thesis using zero unfolding int_digits_def by (subst while_loop.simps) simp
  next
    case False
    obtain f where f: "fp_modf F (fp_div F (dbl (k * 2 ^ B)) (fp_ten F)) = (f, dbl (k div 10 * 2 ^ B))"
      "fp_int F (fp_mul F (fp_add F f (fp_03 F)) (fp_ten F)) = Some (of_nat (k mod 10))"
      using double_lawsD(10)[OF L less.prems(1)] by blast
    have ds: "digits 10 k = k mod 10 # digits 10 (k div 10)" using False by (simp add: digits_step)
    obtain xs' y where xs: "xs = xs' @ [y]" using less.prems(2) ds by (cases xs rule: rev_cases) auto
    have "(k div 10) * 2 ^ B \<le> k * 2 ^ B" by (intro mult_right_mono) simp_all
    from le_less_trans[OF this less.prems(1)] have "(k div 10) * 2 ^ B < 2 ^ 53" .
    note IH = less.IH[OF _ this, of xs' "Some (dchar (k mod 10)) # suf" "r + 1"]
    have "zput (xs @ suf) (int (length xs) - 1) (dchar (k mod 10)) = Some (xs' @ Some (dchar (k mod 10)) # suf)"
      using zput_snoc[of xs' "length xs'"] xs by simp
    then have "int_digits F (xs @ suf, int (length xs), dbl (k * 2 ^ B), r) =
        int_digits F (xs' @ Some (dchar (k mod 10)) # suf, int (length xs'), dbl (k div 10 * 2 ^ B), r + 1)"
      unfolding int_digits_def using zero False f xs
      by (subst while_loop.simps) (simp add: ucast_dchar)
    then show ?thesis using IH False less.prems(2) ds xs by simp
  qed
qed

lemma skip_zeros_eq:
  assumes L: "double_laws F B dbl"
  shows "0 < m \<Longrightarrow> m < 2 ^ B \<Longrightarrow> \<exists>z. skip_zeros F (dbl m, r) = Some (dbl (m * 10 ^ z), r - int z) \<and>
    m * 10 ^ z < 2 ^ B \<and> 2 ^ B \<le> m * 10 ^ (z + 1)"
proof (induction "2 ^ B - m" arbitrary: m r rule: less_induct)
  case less
  have mul: "fp_mul F (dbl m) (fp_ten F) = dbl (10 * m)" using double_lawsD(7)[OF L less.prems(2)] .
  have c: "fp_less F (dbl (10 * m)) (fp_one F) \<longleftrightarrow> 10 * m < 2 ^ B"
    using double_lawsD(8)[OF L, of "10 * m"] less.prems(2) by simp
  show ?case
  proof (cases "10 * m < 2 ^ B")
    case True
    have "skip_zeros F (dbl m, r) = skip_zeros F (dbl (10 * m), r - 1)"
      unfolding skip_zeros_def using mul c True by (subst while_loop.simps) simp
    moreover obtain z where "skip_zeros F (dbl (10 * m), r - 1) = Some (dbl (10 * m * 10 ^ z), r - 1 - int z)"
      "10 * m * 10 ^ z < 2 ^ B" "2 ^ B \<le> 10 * m * 10 ^ (z + 1)"
    proof -
      have "2 ^ B - 10 * m < 2 ^ B - m" "0 < 10 * m" using less.prems by simp_all
      from less.hyps[OF this True, of "r - 1"] that show thesis by blast
    qed
    ultimately show ?thesis by (intro exI[of _ "Suc z"]) (simp add: mult.assoc mult.left_commute)
  next
    case False
    then have "skip_zeros F (dbl m, r) = Some (dbl m, r)"
      unfolding skip_zeros_def using mul c by (subst while_loop.simps) simp
    then show ?thesis using less.prems False by (intro exI[of _ 0]) (simp add: mult.commute)
  qed
qed

text \<open>The decimals of \<open>a / 2 ^ B\<close>.\<close>

fun decimals :: "nat \<Rightarrow> nat \<Rightarrow> nat \<Rightarrow> nat list" where
  "decimals b 0 a = []"
| "decimals b (Suc n) a = (10 * a) div b # decimals b n ((10 * a) mod b)"

lemma length_decimals [simp]: "length (decimals b n a) = n"
  by (induction b n a rule: decimals.induct) simp_all

lemma decimals_less: "a < b \<Longrightarrow> \<forall>d \<in> set (decimals b n a). d < 10"
  by (induction b n a rule: decimals.induct) (auto simp: less_mult_imp_div_less)

lemma dval_decimals: "a < b \<Longrightarrow> dval (decimals b n a) = a * 10 ^ n div b"
proof (induction b n a rule: decimals.induct)
  case (2 b n a)
  define q r where "q = 10 * a div b" and "r = 10 * a mod b"
  have "a * 10 ^ Suc n = (q * b + r) * 10 ^ n" by (simp add: q_def r_def)
  also have "\<dots> = r * 10 ^ n + b * (q * 10 ^ n)" by (simp add: algebra_simps)
  finally have "a * 10 ^ Suc n div b = q * 10 ^ n + r * 10 ^ n div b" using "2.prems" by simp
  moreover have "dval (decimals b n r) = r * 10 ^ n div b" using 2 by (simp add: r_def)
  ultimately show ?case by (simp add: q_def r_def)
qed simp

lemma frac_digits_eq:
  assumes L: "double_laws F B dbl"
  shows "a < 2 ^ B \<Longrightarrow> n \<le> length rest \<Longrightarrow> length xs + n \<le> 80 \<Longrightarrow>
    frac_digits F (int (length xs + n) - 1) (xs @ rest, int (length xs), dbl a) =
      Some (xs @ map (Some \<circ> dchar) (decimals (2 ^ B) n a) @ drop n rest, int (length xs + n), dbl (a * 10 ^ n mod 2 ^ B))"
proof (induction n arbitrary: a xs rest)
  case 0
  then show ?case unfolding frac_digits_def by (subst while_loop.simps) simp
next
  case (Suc n)
  obtain y rest' where rest: "rest = y # rest'" using Suc.prems(2) by (cases rest) auto
  define d a' where "d = 10 * a div 2 ^ B" and "a' = 10 * a mod 2 ^ B"
  have d: "d < 10" using Suc.prems(1) by (simp add: d_def less_mult_imp_div_less)
  have a': "a' < 2 ^ B" by (simp add: a'_def)
  have "10 * a < 2 ^ 53" using Suc.prems(1) ten_grid[OF L] by simp
  note modf = double_lawsD(6)[OF L this, folded d_def a'_def]
  have "frac_digits F (int (length xs + Suc n) - 1) (xs @ rest, int (length xs), dbl a) =
      frac_digits F (int (length xs + Suc n) - 1) (xs @ Some (dchar d) # rest', int (length xs) + 1, dbl a')"
    unfolding frac_digits_def rest
    using double_lawsD(7)[OF L Suc.prems(1)] modf double_lawsD(9)[OF L d] Suc.prems(3) d
    by (subst while_loop.simps) (simp add: CVTBUFSIZE_def zput_snoc ucast_dchar)
  also have "\<dots> = Some ((xs @ [Some (dchar d)]) @ map (Some \<circ> dchar) (decimals (2 ^ B) n a') @ drop n rest',
      int (length (xs @ [Some (dchar d)]) + n), dbl (a' * 10 ^ n mod 2 ^ B))"
    using Suc.IH[OF a', of rest' "xs @ [Some (dchar d)]"] Suc.prems rest by (simp add: algebra_simps)
  also have "a' * 10 ^ n mod 2 ^ B = a * 10 ^ Suc n mod 2 ^ B"
    by (simp add: a'_def mod_mult_left_eq mult.assoc mult.left_commute)
  finally show ?case using rest by (simp add: d_def a'_def)
qed

abbreviation dchars :: "nat list \<Rightarrow> buffer" where
  "dchars ds \<equiv> map (Some \<circ> dchar) ds"

lemma zget_snoc: "length xs = n \<Longrightarrow> zget (xs @ Some c # suf) (int n) = Some c"
  by (simp add: zget_def bget_def nth_append)

lemma dchar_add: "dchar d + of_nat n = dchar (d + n)"
  by (simp add: dchar_def)

lemma dchar_stop: "d < 15 \<Longrightarrow> 57 < dchar d \<longleftrightarrow> 10 \<le> d"
  by (auto simp: word_less_nat_alt dchar_less)

lemma round_stop: "x < 10 \<Longrightarrow> length xs = n \<Longrightarrow>
    round_loop e (xs @ Some (dchar x) # suf, p, int n, dec) = Some (xs @ Some (dchar x) # suf, p, int n, dec)"
  unfolding round_loop_def by (subst while_loop.simps) (simp add: zget_snoc dchar_stop)

lemma round_carry:
  assumes "10 \<le> x" "x < 15" "y < 10"
  shows "round_loop e (dchars (ds @ [y]) @ Some (dchar x) # suf, p, int (length (ds @ [y])), dec)
    = round_loop e (dchars ds @ Some (dchar (y + 1)) # Some (dchar 0) # suf, p, int (length ds), dec)"
proof -
  have put: "zput (dchars (ds @ [y]) @ Some (dchar x) # suf) (int (length (ds @ [y]))) 48 = Some (dchars (ds @ [y]) @ Some (dchar 0) # suf)"
    using zput_snoc[of "dchars (ds @ [y])" "length (ds @ [y])" "Some (dchar x)" suf "dchar 0"]
    by (simp add: dchar_def[of 0])
  have get: "zget (dchars (ds @ [y]) @ Some (dchar 0) # suf) (int (length (ds @ [y])) - 1) = Some (dchar y)"
    using zget_snoc[of "dchars ds" "length ds"] by simp
  have put': "zput (dchars (ds @ [y]) @ Some (dchar 0) # suf) (int (length (ds @ [y])) - 1) (dchar y + 1)
      = Some (dchars ds @ Some (dchar (y + 1)) # Some (dchar 0) # suf)"
    using zput_snoc[of "dchars ds" "length ds"] dchar_add[of y 1] by simp
  have c: "zget (dchars (ds @ [y]) @ Some (dchar x) # suf) (int (length (ds @ [y]))) = Some (dchar x)"
    by (rule zget_snoc) simp
  show ?thesis
    unfolding round_loop_def
    by (subst while_loop.simps) (use assms put get put' c in \<open>simp add: dchar_stop\<close>)
qed

lemma round_overflow:
  assumes "10 \<le> x" "x < 15" "p \<le> length suf"
  shows "round_loop False (Some (dchar x) # suf, int p, 0, dec)
    = Some (if 0 < p then Some (dchar 1) # suf[p - 1 := Some (dchar 0)] else Some (dchar 1) # suf, int p + 1, 0, dec + 1)"
proof -
  have "round_loop False (Some (dchar x) # suf, int p, 0, dec) = round_loop False
      (if 0 < p then Some (dchar 1) # suf[p - 1 := Some (dchar 0)] else Some (dchar 1) # suf, int p + 1, 0, dec + 1)"
    unfolding round_loop_def
    by (subst while_loop.simps)
      (use assms in \<open>cases p; simp add: dchar_stop zget_def zput_def bget_def bput_def nat_add_distrib; simp add: dchar_def\<close>)
  then show ?thesis using round_stop[of 1 "[]" 0 False] by simp
qed

lemma round_loop_eq:
  assumes "\<forall>d \<in> set ds. d < 10" "10 \<le> x" "x < 15" "p \<le> length ds + length suf"
  shows "(if \<forall>d \<in> set ds. d = 9
      then \<exists>q. round_loop False (dchars ds @ Some (dchar x) # suf, int p, int (length ds), dec)
        = Some ((dchars (1 # replicate (length ds) 0) @ suf)[p := if 0 < p then Some (dchar 0) else Some (dchar 1)], int p + 1, q, dec + 1)
      else \<exists>es q. round_loop False (dchars ds @ Some (dchar x) # suf, int p, int (length ds), dec)
        = Some (dchars es @ Some (dchar 0) # suf, int p, q, dec) \<and>
          length es = length ds \<and> (\<forall>d \<in> set es. d < 10) \<and> dval es = dval ds + 1)"
  using assms
proof (induction ds arbitrary: x suf rule: rev_induct)
  case Nil
  then show ?case using round_overflow[of x p suf dec] by (cases p) simp_all
next
  case (snoc y ds)
  have y: "y < 10" using snoc.prems by simp
  note step = round_carry[OF snoc.prems(2,3) y, of False ds suf "int p" dec]
  show ?case
  proof (cases "y = 9")
    case True
    have "p \<le> length ds + length (Some (dchar 0) # suf)" using snoc.prems(4) by simp
    from snoc.IH[of "y + 1", OF _ _ _ this] snoc.prems True
    have IH: "if \<forall>d \<in> set ds. d = 9
      then \<exists>q. round_loop False (dchars ds @ Some (dchar (y + 1)) # Some (dchar 0) # suf, int p, int (length ds), dec)
        = Some ((dchars (1 # replicate (length ds) 0) @ Some (dchar 0) # suf)[p := if 0 < p then Some (dchar 0) else Some (dchar 1)], int p + 1, q, dec + 1)
      else \<exists>es q. round_loop False (dchars ds @ Some (dchar (y + 1)) # Some (dchar 0) # suf, int p, int (length ds), dec)
        = Some (dchars es @ Some (dchar 0) # Some (dchar 0) # suf, int p, q, dec) \<and>
          length es = length ds \<and> (\<forall>d \<in> set es. d < 10) \<and> dval es = dval ds + 1" by simp
    show ?thesis
    proof (cases "\<forall>d \<in> set ds. d = 9")
      case nines: True
      then have all: "\<forall>d \<in> set (ds @ [y]). d = 9" using True by simp
      have "dchars (1 # replicate (length ds) 0) @ Some (dchar 0) # suf = dchars (1 # replicate (length (ds @ [y])) 0) @ suf"
        by (simp add: replicate_app_Cons_same)
      with IH show ?thesis unfolding step if_P[OF nines] if_P[OF all] by (simp only:)
    next
      case False
      then obtain es q where es: "round_loop False (dchars ds @ Some (dchar (y + 1)) # Some (dchar 0) # suf, int p, int (length ds), dec)
          = Some (dchars es @ Some (dchar 0) # Some (dchar 0) # suf, int p, q, dec)"
          "length es = length ds" "\<forall>d \<in> set es. d < 10" "dval es = dval ds + 1" using IH[unfolded if_not_P[OF False]] by blast
      have "\<not> (\<forall>d \<in> set (ds @ [y]). d = 9)" using False by simp
      moreover have "dval (es @ [0]) = dval (ds @ [y]) + 1" using es(4) True by simp
      ultimately show ?thesis using es(1-3) unfolding step if_not_P[OF \<open>\<not> (\<forall>d \<in> set (ds @ [y]). d = 9)\<close>]
        by (intro exI[of _ "es @ [0]"] exI[of _ q]) simp
    qed
  next
    case False
    have "round_loop False (dchars ds @ Some (dchar (y + 1)) # Some (dchar 0) # suf, int p, int (length ds), dec)
        = Some (dchars ds @ Some (dchar (y + 1)) # Some (dchar 0) # suf, int p, int (length ds), dec)"
      using False y by (intro round_stop) simp_all
    moreover have nn: "\<not> (\<forall>d \<in> set (ds @ [y]). d = 9)" using False by simp
    ultimately show ?thesis using snoc.prems(1) False y unfolding step if_not_P[OF nn]
      by (intro exI[of _ "ds @ [y + 1]"] exI[of _ "int (length ds)"]) auto
  qed
qed

lemma last_digit: "0 < n \<Longrightarrow> last (digits 10 n) \<noteq> 0"
proof (induction n rule: less_induct)
  case (less n)
  show ?case
  proof (cases "n < 10")
    case False
    then have "digits 10 n = n mod 10 # digits 10 (n div 10)" "digits 10 (n div 10) \<noteq> []"
      by (simp_all add: digits_step)
    then show ?thesis using less.IH[of "n div 10"] False by simp
  qed (use less.prems in \<open>simp add: digits_step\<close>)
qed

lemma move_digits_from:
  assumes "length xs + length cs = 80" "j \<le> length cs"
  shows "move_digits (map Some (take j cs) @ drop j (xs @ map Some cs), int j, int (length xs + j))
    = Some (map Some cs @ drop (length cs) (xs @ map Some cs), int (length cs), 80)"
  using assms(2)
proof (induction "length cs - j" arbitrary: j)
  case 0
  then show ?case using assms(1) unfolding move_digits_def by (subst while_loop.simps) (simp add: CVTBUFSIZE_def)
next
  case (Suc n)
  let ?b = "map Some (take j cs) @ drop j (xs @ map Some cs)"
  have j: "j < length cs" using Suc.hyps(2) by simp
  have "?b ! (length xs + j) = Some (cs ! j)" using j by (simp add: nth_append[of "map Some (take j cs)"] add.commute[of j] del: drop_append)
  then have get: "zget ?b (int (length xs + j)) = Some (cs ! j)"
    using j assms(1) by (simp add: zget_def bget_def aread_def nat_add_distrib)
  have "drop j (xs @ map Some cs) = (xs @ map Some cs) ! j # drop (Suc j) (xs @ map Some cs)"
    using j by (intro Cons_nth_drop_Suc[symmetric]) simp
  then have put: "zput ?b (int j) (cs ! j) = Some (map Some (take (Suc j) cs) @ drop (Suc j) (xs @ map Some cs))"
    using j zput_snoc[of "map Some (take j cs)" j _ _ "cs ! j"] by (simp add: take_Suc_conv_app_nth del: drop_append)
  have "move_digits (?b, int j, int (length xs + j)) =
      move_digits (map Some (take (Suc j) cs) @ drop (Suc j) (xs @ map Some cs), int (Suc j), int (length xs + Suc j))"
    unfolding move_digits_def
    by (subst while_loop.simps) (use j assms(1) get put in \<open>simp add: CVTBUFSIZE_def algebra_simps del: drop_append\<close>)
  then show ?case using Suc.hyps(1)[of "Suc j"] Suc.hyps(2) j by simp
qed

lemma leading_digits_eq:
  assumes L: "double_laws F B dbl" and s: "s < 2 ^ 53"
  shows "\<exists>ds rest a z. leading_digits F (dbl s) (replicate 80 None) =
      Some (dchars ds @ rest, int (length ds), dbl a, int (length ds) - int z) \<and>
    length ds + length rest = 80 \<and> length ds \<le> 16 \<and> (\<forall>d \<in> set ds. d < 10) \<and> (ds \<noteq> [] \<longrightarrow> hd ds \<noteq> 0 \<and> z = 0) \<and>
    a < 2 ^ B \<and> s * 10 ^ z < 2 ^ B * 10 ^ length ds \<and>
    (\<forall>n. dval ds * 10 ^ n + a * 10 ^ n div 2 ^ B = s * 10 ^ (z + n) div 2 ^ B)"
proof -
  define k m where "k = s div 2 ^ B" and "m = s mod 2 ^ B"
  have sk: "s = k * 2 ^ B + m" by (simp only: k_def m_def div_mult_mod_eq)
  have m: "m < 2 ^ B" by (simp add: m_def)
  have "k * 2 ^ B \<le> s" using sk by simp
  then have k: "k * 2 ^ B < 2 ^ 53" using s by simp
  have "10 * 2 ^ B \<le> (2 ^ 53 :: nat)" by (rule ten_grid[OF L])
  then have m53: "m < 2 ^ 53" using m by simp
  note start = double_lawsD(6)[OF L s, folded k_def m_def] double_lawsD(5)[OF L k] double_lawsD(4)[OF L m53]
  show ?thesis
  proof (cases "k = 0")
    case False
    let ?ds = "rev (digits 10 k)"
    have "2 ^ 4 \<le> (2 ^ B :: nat)" using double_lawsD(1)[OF L] by (intro power_increasing) simp_all
    then have "k * 16 \<le> k * 2 ^ B" by (intro mult_left_mono) simp_all
    from le_less_trans[OF this k] have "k < 10 ^ 16" by simp
    then have len: "length ?ds \<le> 16" using length_digits[of 10 k 16] by simp
    have small: "\<forall>d \<in> set ?ds. d < 10" using digits_less[of 10] by simp
    have hd: "hd ?ds \<noteq> 0" using last_digit[of k] False by (simp add: hd_rev)
    have "int_digits F (replicate 80 None @ [], int (length (replicate 80 None)), dbl (k * 2 ^ B), 0)
      = Some (replicate (80 - length ?ds) None @ dchars ?ds, int (80 - length ?ds), dbl 0, int (length ?ds))"
      using int_digits_eq[OF L k, of "replicate 80 None" "[]" 0] len by simp
    then have 1: "int_digits F (replicate 80 None, int CVTBUFSIZE, dbl (k * 2 ^ B), 0)
      = Some (replicate (80 - length ?ds) None @ dchars ?ds, int (80 - length ?ds), dbl 0, int (length ?ds))"
      by (simp add: CVTBUFSIZE_def)
    have 2: "move_digits (replicate (80 - length ?ds) None @ dchars ?ds, 0, int (80 - length ?ds))
      = Some (dchars ?ds @ drop (length ?ds) (replicate (80 - length ?ds) None @ dchars ?ds), int (length ?ds), 80)"
      using move_digits_from[of "replicate (80 - length ?ds) None" "map dchar ?ds" 0] len by simp
    have "k * 10 ^ n + m * 10 ^ n div 2 ^ B = s * 10 ^ (0 + n) div 2 ^ B" for n
    proof -
      have "s * 10 ^ (0 + n) = m * 10 ^ n + 2 ^ B * (k * 10 ^ n)" by (simp add: sk algebra_simps)
      then show ?thesis by simp
    qed
    moreover have "s * 10 ^ 0 < 2 ^ B * 10 ^ length ?ds"
    proof -
      have "k < 10 ^ length ?ds" using dval_less[OF small] by (simp add: dval_rev_digits)
      then have "Suc k * 2 ^ B \<le> 10 ^ length ?ds * 2 ^ B" by (intro mult_right_mono) simp_all
      then show ?thesis using sk m by (simp add: algebra_simps)
    qed
    moreover have "leading_digits F (dbl s) (replicate 80 None) =
        Some (dchars ?ds @ drop (length ?ds) (replicate (80 - length ?ds) None @ dchars ?ds), int (length ?ds), dbl m, int (length ?ds) - int 0)"
      using start False 1 2 by (simp add: leading_digits_def)
    ultimately show ?thesis
      using len small hd m
      by (intro exI[of _ ?ds] exI[of _ "drop (length ?ds) (replicate (80 - length ?ds) None @ dchars ?ds)"] exI[of _ m] exI[of _ "0 :: nat"])
        (simp add: dval_rev_digits)
  next
    case True
    then have sm: "s = m" using sk by simp
    show ?thesis
    proof (cases "m = 0")
      case m0: True
      then have "leading_digits F (dbl s) (replicate 80 None) = Some (dchars [] @ replicate 80 None, int (length []), dbl 0, int (length []) - int 0)"
        using start True by (simp add: leading_digits_def)
      then show ?thesis using m0 sm
        by (intro exI[of _ "[]"] exI[of _ "replicate 80 None"] exI[of _ "0 :: nat"]) simp
    next
      case False
      obtain z where z: "skip_zeros F (dbl m, 0) = Some (dbl (m * 10 ^ z), 0 - int z)" "m * 10 ^ z < 2 ^ B"
        using skip_zeros_eq[OF L _ m] False by blast
      then have "leading_digits F (dbl s) (replicate 80 None) = Some (dchars [] @ replicate 80 None, int (length []), dbl (m * 10 ^ z), int (length []) - int z)"
        using start True False by (simp add: leading_digits_def)
      then show ?thesis using z(2) sm
        by (intro exI[of _ "[]"] exI[of _ "replicate 80 None"] exI[of _ "m * 10 ^ z"] exI[of _ z])
          (simp add: power_add mult.assoc)
    qed
  qed
qed

section \<open>\<open>cvt\<close> rounds half up\<close>

text \<open>\<open>s / 2 ^ B\<close> in units of the \<open>P\<close>-th decimal, rounded half up.\<close>

definition rounded :: "nat \<Rightarrow> nat \<Rightarrow> nat \<Rightarrow> nat" where
  "rounded B s P = (2 * s * 10 ^ P + 2 ^ B) div (2 * 2 ^ B)"

lemma rounded_eq:
  "rounded B s P = (s * 10 ^ (P + 1) div 2 ^ B + 5) div 10"
proof -
  let ?x = "s * 10 ^ P" let ?b = "2 ^ B :: nat"
  have ten: "s * 10 ^ (P + 1) = 10 * ?x" by simp
  have "(10 * ?x + 5 * ?b) div ?b = 10 * ?x div ?b + 5" by simp
  then have "(10 * ?x div ?b + 5) div 10 = (10 * ?x + 5 * ?b) div (?b * 10)" by (simp only: div_mult2_eq)
  also have "\<dots> = (5 * (2 * ?x + ?b)) div (5 * (2 * ?b))" by (simp add: algebra_simps)
  also have "\<dots> = (2 * ?x + ?b) div (2 * ?b)" by (rule div_mult_mult1) simp
  finally show ?thesis unfolding ten by (simp add: rounded_def mult.assoc)
qed

lemma dval_nines: "\<forall>d \<in> set ds. d = 9 \<Longrightarrow> dval ds + 1 = 10 ^ length ds"
  by (induction ds) auto

text \<open>The last part of \<open>cvt\<close>: the digit after the last one is rounded away.\<close>

lemma rounding:
  assumes "\<forall>d \<in> set ds. d < 10" "l < 10" "suf \<noteq> []"
  shows "\<exists>es rest q dec'. round_loop False (dchars ds @ Some (dchar (l + 5)) # suf, int (length ds), int (length ds), dec)
      = Some (dchars es @ rest, int (length es), q, dec') \<and> rest \<noteq> [] \<and>
    (\<forall>d \<in> set es. d < 10) \<and> dval es = (10 * dval ds + l + 5) div 10 \<and> int (length es) - dec' = int (length ds) - dec \<and>
    (length es = length ds \<or> length es = length ds + 1 \<and> dval es = 10 ^ length ds)"
proof (cases "l < 5")
  case True
  have "(10 * dval ds + l + 5) div 10 = dval ds" using True by simp
  with True round_stop[of "l + 5" "dchars ds" "length ds" False suf "int (length ds)" dec] assms(1)
  show ?thesis by (intro exI[of _ ds] exI[of _ "Some (dchar (l + 5)) # suf"]) auto
next
  case False
  have v: "(10 * dval ds + l + 5) div 10 = dval ds + 1" using False assms(2) by simp
  have "10 \<le> l + 5" "l + 5 < 15" "length ds \<le> length ds + length suf" using False assms(2) by simp_all
  note R = round_loop_eq[OF assms(1) this, of dec]
  show ?thesis
  proof (cases "\<forall>d \<in> set ds. d = 9")
    case nines: True
    let ?es = "1 # replicate (length ds) 0"
    have "(dchars ?es @ suf)[length ds := if 0 < length ds then Some (dchar 0) else Some (dchar 1)] = dchars ?es @ suf"
    proof -
      have "(dchars ?es @ suf) ! length ds = (if 0 < length ds then Some (dchar 0) else Some (dchar 1))"
        by (subst nth_append) (cases "length ds"; simp del: replicate.simps)
      then show ?thesis by (simp only: list_update_id flip: \<open>(dchars ?es @ suf) ! length ds = _\<close>)
    qed
    with R[unfolded if_P[OF nines]] obtain q where
      "round_loop False (dchars ds @ Some (dchar (l + 5)) # suf, int (length ds), int (length ds), dec)
        = Some (dchars ?es @ suf, int (length ds) + 1, q, dec + 1)" by auto
    moreover have "dval ?es = dval ds + 1" using dval_nines[OF nines] by simp
    ultimately show ?thesis using v assms(3) dval_nines[OF nines]
      by (intro exI[of _ ?es] exI[of _ suf]) auto
  next
    case other: False
    from R[unfolded if_not_P[OF other]] obtain es q where
      "round_loop False (dchars ds @ Some (dchar (l + 5)) # suf, int (length ds), int (length ds), dec)
        = Some (dchars es @ Some (dchar 0) # suf, int (length ds), q, dec)"
      "length es = length ds" "\<forall>d \<in> set es. d < 10" "dval es = dval ds + 1" by blast
    then show ?thesis using v by (intro exI[of _ es] exI[of _ "Some (dchar 0) # suf"]) auto
  qed
qed

lemma hd_nonzero:
  assumes "\<forall>d \<in> set es. d < 10" "es \<noteq> []" "10 ^ (length es - 1) \<le> dval es"
  shows "hd es \<noteq> 0"
proof
  obtain e es' where es: "es = e # es'" using assms(2) by (cases es) simp_all
  assume "hd es = 0"
  then have "dval es = dval es'" using es by simp
  also have "\<dots> < 10 ^ length es'" using assms(1) es by (intro dval_less) simp
  finally show False using assms(3) es by simp
qed

lemma zput_end: "zput (dchars es @ r # rest) (int (length es)) 0 = Some (dchars es @ Some 0 # rest)"
  by (rule zput_snoc) simp

text \<open>What \<open>fcvtbuf\<close> leaves in the buffer: \<open>P + decpt\<close> digits, with a nonzero first one if there is an
  integral part, which denote the rounded number.\<close>

lemma fcvtbuf_eq:
  assumes L: "double_laws F B dbl" and s: "s < 2 ^ 53" and P: "P \<le> 60"
  shows "\<exists>es rest decpt. fcvtbuf F (dbl s) (int P) (replicate 80 None) = Some (dchars es @ Some 0 # rest, decpt, False) \<and>
    (\<forall>d \<in> set es. d < 10) \<and> dval es = rounded B s P \<and> length es = nat (int P + decpt) \<and> decpt \<le> 17 \<and>
    (0 < decpt \<longrightarrow> es \<noteq> [] \<and> hd es \<noteq> 0)"
proof -
  obtain ds rest a z where lead: "leading_digits F (dbl s) (replicate 80 None) =
      Some (dchars ds @ rest, int (length ds), dbl a, int (length ds) - int z)"
    "length ds + length rest = 80" "length ds \<le> 16" "\<forall>d \<in> set ds. d < 10" "ds \<noteq> [] \<Longrightarrow> hd ds \<noteq> 0 \<and> z = 0"
    "a < 2 ^ B" "s * 10 ^ z < 2 ^ B * 10 ^ length ds"
    "\<And>n. dval ds * 10 ^ n + a * 10 ^ n div 2 ^ B = s * 10 ^ (z + n) div 2 ^ B"
    using leading_digits_eq[OF L s] by blast
  have start: "fcvtbuf F (dbl s) (int P) (replicate 80 None) =
      (if int P + (int (length ds) - int z) < 0 then do {
         buf \<leftarrow> zput (dchars ds @ rest) 0 0; Some (buf, int (length ds) - int z, False) }
       else do {
         (buf, p, arg) \<leftarrow> frac_digits F (int P + (int (length ds) - int z)) (dchars ds @ rest, int (length ds), dbl a);
         if 80 \<le> int P + (int (length ds) - int z) then do {
           buf \<leftarrow> zput buf (int CVTBUFSIZE - 1) 0; Some (buf, int (length ds) - int z, False) }
         else do {
           c \<leftarrow> zget buf (int P + (int (length ds) - int z));
           buf \<leftarrow> zput buf (int P + (int (length ds) - int z)) (c + 5);
           (buf, p, _, decpt) \<leftarrow> round_loop False (buf, int P + (int (length ds) - int z),
              int P + (int (length ds) - int z), int (length ds) - int z);
           buf \<leftarrow> zput buf p 0;
           Some (buf, decpt, False) } })"
    using P by (simp add: fcvtbuf_def cvt_def Let_def lead(1) double_lawsD(3)[OF L s] CVTBUFSIZE_def)
  show ?thesis
  proof (cases "P + length ds < z")
    case True
    then have ds: "ds = []" using lead(5) by (cases ds) auto
    obtain r rest' where rest: "rest = r # rest'" using lead(2) ds by (cases rest) auto
    have "10 ^ (P + 1) \<le> (10 ^ z :: nat)" using True by (intro power_increasing) simp_all
    then have "s * 10 ^ (P + 1) \<le> s * 10 ^ z" by (rule mult_left_mono) simp
    also have "\<dots> < 2 ^ B" using lead(7) ds by simp
    finally have "rounded B s P = 0" by (simp add: rounded_eq)
    moreover have "fcvtbuf F (dbl s) (int P) (replicate 80 None) = Some (dchars [] @ Some 0 # rest', - int z, False)"
      using True ds zput_end[of "[]"] by (simp add: start rest)
    ultimately show ?thesis using True ds
      by (intro exI[of _ "[]"] exI[of _ rest'] exI[of _ "- int z"]) simp
  next
    case False
    define n where "n = P - z"
    have zP: "length ds + n = P + length ds - z" using False lead(5) by (cases ds) (auto simp: n_def)
    have zn: "z + n = P" using False lead(5) by (cases ds) (auto simp: n_def)
    have p1: "int P + (int (length ds) - int z) = int (length ds + Suc n) - 1" using zn by simp
    define ts where "ts = decimals (2 ^ B) (Suc n) a"
    obtain us l where ts: "ts = us @ [l]" using length_decimals[of "2 ^ B" "Suc n" a] unfolding ts_def[symmetric]
      by (cases ts rule: rev_cases) auto
    have us: "length us = n" using ts length_decimals[of "2 ^ B" "Suc n" a] by (simp add: ts_def)
    have small: "\<forall>d \<in> set ts. d < 10" unfolding ts_def by (rule decimals_less[OF lead(6)])
    define pre where "pre = ds @ us"
    have pre: "\<forall>d \<in> set pre. d < 10" "l < 10" "length pre = length ds + n"
      using small lead(4) us by (auto simp: pre_def ts)
    have val_eq: "10 * dval pre + l = s * 10 ^ (P + 1) div 2 ^ B"
    proof -
      have "10 * dval pre + l = dval (ds @ ts)" by (simp add: pre_def ts algebra_simps)
      also have "\<dots> = dval ds * 10 ^ Suc n + a * 10 ^ Suc n div 2 ^ B"
        using dval_decimals[OF lead(6), of "Suc n"] length_decimals[of "2 ^ B" "Suc n" a] by (simp add: ts_def del: decimals.simps)
      also have "\<dots> = s * 10 ^ (P + 1) div 2 ^ B" using lead(8)[of "Suc n"] zn by simp
      finally show ?thesis .
    qed
    define suf where "suf = drop (Suc n) rest"
    have long: "Suc (Suc n) \<le> length rest" using lead(2,3) P zn by simp
    then have suf: "suf \<noteq> []" by (simp add: suf_def)
    have frac: "frac_digits F (int (length ds + Suc n) - 1) (dchars ds @ rest, int (length ds), dbl a) =
        Some (dchars pre @ Some (dchar l) # suf, int (length ds + Suc n), dbl (a * 10 ^ Suc n mod 2 ^ B))"
      using frac_digits_eq[OF L lead(6), of "Suc n" rest "dchars ds"] lead(2) long
      by (simp add: ts_def[symmetric] ts pre_def suf_def del: decimals.simps)
    obtain es rest' q decpt where R:
      "round_loop False (dchars pre @ Some (dchar (l + 5)) # suf, int (length pre), int (length pre), int (length ds) - int z)
        = Some (dchars es @ rest', int (length es), q, decpt)" "rest' \<noteq> []" "\<forall>d \<in> set es. d < 10"
      "dval es = (10 * dval pre + l + 5) div 10" "int (length es) - decpt = int (length pre) - (int (length ds) - int z)"
      "length es = length pre \<or> length es = length pre + 1 \<and> dval es = 10 ^ length pre"
      using rounding[OF pre(1,2) suf, of "int (length ds) - int z"] by (elim exE conjE) (rule that; assumption)
    obtain r rest'' where rest': "rest' = r # rest''" using R(2) by (cases rest') auto
    have at: "int (length ds + Suc n) - 1 = int (length pre)" by (simp add: pre(3))
    have get: "zget (dchars pre @ Some (dchar l) # suf) (int (length pre)) = Some (dchar l)" by (rule zget_snoc) simp
    have put: "zput (dchars pre @ Some (dchar l) # suf) (int (length pre)) (dchar l + 5) = Some (dchars pre @ Some (dchar (l + 5)) # suf)"
      using zput_snoc[of "dchars pre" "length pre"] dchar_add[of l 5] by simp
    have "int (length pre) < 80" using pre(3) lead(3) P zn by simp
    then have result: "fcvtbuf F (dbl s) (int P) (replicate 80 None) = Some (dchars es @ Some 0 # rest'', decpt, False)"
      using frac get put R(1) zput_end[of es r rest''] unfolding start p1 at
      by (simp add: rest')
    have v: "dval es = rounded B s P" using R(4) val_eq by (simp add: rounded_eq)
    have len: "int (length es) = int P + decpt" using R(5) pre(3) zn by simp
    have "hd es \<noteq> 0 \<and> es \<noteq> []" if dec: "0 < decpt"
    proof -
      have ne: "es \<noteq> []" using dec len by auto
      have "10 ^ (length es - 1) \<le> dval es"
      proof (cases "length es = length pre")
        case True
        then have "pre \<noteq> []" "ds \<noteq> []" using ne R(5) dec by auto
        then have h: "hd pre \<noteq> 0" using lead(5) by (simp add: pre_def)
        obtain d pre' where p: "pre = d # pre'" "d \<noteq> 0" using \<open>pre \<noteq> []\<close> h by (cases pre) auto
        have "1 * 10 ^ length pre' \<le> d * 10 ^ length pre'" using p(2) by (intro mult_right_mono) simp_all
        then have "10 ^ (length pre - 1) \<le> dval pre" using p(1) by (simp add: trans_le_add1)
        moreover have "dval pre \<le> dval es" using R(4) by simp
        ultimately show ?thesis using True by simp
      qed (use R(6) in simp)
      then show ?thesis using hd_nonzero[OF R(3) ne] ne by simp
    qed
    moreover have "decpt \<le> 17" using R(5,6) lead(3) by auto
    ultimately show ?thesis using result v len R(3) by (intro exI[of _ es] exI[of _ rest''] exI[of _ decpt]) simp
  qed
qed

section \<open>The text of the number\<close>

fun padded_digits :: "nat \<Rightarrow> nat \<Rightarrow> nat list" where
  "padded_digits 0 n = []"
| "padded_digits (Suc p) n = padded_digits p (n div 10) @ [n mod 10]"

text \<open>\<open>n / 10 ^ P\<close> with \<open>P\<close> decimals.\<close>

definition fixed_text :: "nat \<Rightarrow> nat \<Rightarrow> ee_u8 list" where
  "fixed_text P n = numeral_text (\<lambda>d. 48 + of_nat d) 10 (n div 10 ^ P) @
     (if P = 0 then [] else 46 # map dchar (padded_digits P (n mod 10 ^ P)))"

lemma padded_digits_props:
  "length (padded_digits p n) = p" "\<forall>d \<in> set (padded_digits p n). d < 10" "dval (padded_digits p n) = n mod 10 ^ p"
proof -
  show "length (padded_digits p n) = p" "\<forall>d \<in> set (padded_digits p n). d < 10"
    by (induction p n rule: padded_digits.induct) auto
  show "dval (padded_digits p n) = n mod 10 ^ p"
    by (induction p n rule: padded_digits.induct) (simp_all add: mod_mult2_eq)
qed

lemma padded_digits_unique:
  "\<forall>d \<in> set ds. d < 10 \<Longrightarrow> padded_digits (length ds) (dval ds) = ds"
  by (intro dval_inject) (simp_all add: padded_digits_props dval_less)

lemma dchar_ne: "d < 10 \<Longrightarrow> dchar d \<noteq> 0"
  using dchar_less[of d] by auto

lemma push_all_eq:
  "\<forall>d \<in> set es. d < 10 \<Longrightarrow> length t + length es \<le> n \<Longrightarrow>
     push_all (map dchar es @ 0 # junk) (filled_in n t) = Some (filled_in n (t @ map dchar es))"
  by (induction es arbitrary: t) (simp_all add: dchar_ne)

lemma push_zeros_eq:
  "0 \<le> k \<Longrightarrow> length t + nat k \<le> n \<Longrightarrow> push_zeros k (filled_in n t) = Some (filled_in n (t @ map dchar (replicate (nat k) 0)))"
proof -
  assume k: "0 \<le> k" "length t + nat k \<le> n"
  have "\<exists>r. for_loop 0 (nat k) (\<lambda>pos. push 48) (filled_in n t) = Some r \<and> r = filled_in n (t @ replicate (nat k) 48)"
    by (rule for_loop_rule[where P = "\<lambda>j r. r = filled_in n (t @ replicate j 48)"])
      (use k in \<open>auto simp: replicate_append_same\<close>)
  then show ?thesis by (auto simp: push_zeros_def dchar_def)
qed

lemma push_point_past:
  "\<forall>d \<in> set es. d < 10 \<Longrightarrow> length t + length es \<le> n \<Longrightarrow> dp < pos \<Longrightarrow>
     push_point dp pos (map dchar es @ 0 # junk) (filled_in n t) = Some (filled_in n (t @ map dchar es))"
  by (induction es arbitrary: t pos) (simp_all add: dchar_ne)

lemma push_point_eq:
  "\<forall>d \<in> set es. d < 10 \<Longrightarrow> length t + length es + 1 \<le> n \<Longrightarrow>
     push_point dp (int pos) (map dchar es @ 0 # junk) (filled_in n t) = Some (filled_in n (t @
       (if dp < int pos \<or> int (pos + length es) \<le> dp then map dchar es
        else map dchar (take (nat dp - pos) es) @ 46 # map dchar (drop (nat dp - pos) es))))"
proof (induction es arbitrary: t pos)
  case (Cons e es)
  have e: "dchar e \<noteq> 0" using Cons.prems(1) by (simp add: dchar_ne)
  show ?case
  proof (cases "int pos = dp")
    case True
    have "push_point dp (int (Suc pos)) (map dchar es @ 0 # junk) (filled_in n (t @ [46, dchar e]))
        = Some (filled_in n ((t @ [46, dchar e]) @ map dchar es))"
      using Cons.prems True by (intro push_point_past) simp_all
    then show ?thesis using Cons.prems e True by (simp add: algebra_simps)
  next
    case False
    then have "nat dp - pos = Suc (nat dp - Suc pos)" if "int pos < dp" using that by simp
    moreover have "int (Suc pos) = int pos + 1" by simp
    ultimately show ?thesis
      using Cons.IH[of "t @ [dchar e]" "Suc pos"] Cons.prems e False by (auto simp: add.commute)
  qed
qed auto

lemma written_chars:
  "\<forall>d \<in> set es. d < 10 \<Longrightarrow> \<exists>junk. written (dchars es @ Some 0 # rest) 0 = map dchar es @ 0 # junk"
  by (simp add: written_def takeWhile_append comp_def)

lemma float_f_eq:
  assumes L: "double_laws F B dbl" and s: "s < 2 ^ 53" and P: "P \<le> 60"
  shows "float_f F (dbl s) (int P) (filled_in 80 []) = Some (filled_in 80 (fixed_text P (rounded B s P))) \<and>
    length (fixed_text P (rounded B s P)) < 80"
proof -
  obtain es rest decpt where cvt: "fcvtbuf F (dbl s) (int P) (replicate 80 None) = Some (dchars es @ Some 0 # rest, decpt, False)"
    "\<forall>d \<in> set es. d < 10" "dval es = rounded B s P" "length es = nat (int P + decpt)" "decpt \<le> 17"
    "0 < decpt \<Longrightarrow> es \<noteq> [] \<and> hd es \<noteq> 0"
    using fcvtbuf_eq[OF assms] by blast
  obtain junk where w: "written (dchars es @ Some 0 # rest) 0 = map dchar es @ 0 # junk"
    using written_chars[OF cvt(2)] by blast
  have first: "bget (dchars es @ Some 0 # rest) 0 = Some (if es = [] then 0 else dchar (hd es))"
    by (cases es) (simp_all add: bget_def)
  have f: "float_f F (dbl s) (int P) t =
      (if es \<noteq> [] then
         if decpt \<le> 0 then do {
           t \<leftarrow> push (dchar 0) t;
           t \<leftarrow> push 46 t;
           t \<leftarrow> push_zeros (- decpt) t;
           push_all (map dchar es @ 0 # junk) t }
         else push_point decpt (int 0) (map dchar es @ 0 # junk) t
       else do {
         t \<leftarrow> push (dchar 0) t;
         if 0 < P then Option.bind (push 46 t) (push_zeros (int P)) else Some t })" for t
  proof -
    have "es \<noteq> [] \<Longrightarrow> dchar (hd es) \<noteq> 0" using cvt(2) by (intro dchar_ne) simp
    then show ?thesis
      unfolding float_f_def CVTBUFSIZE_def cvt(1) bind.bind_lunit prod.case first w
      by (cases "es = []") (simp_all add: dchar_def[of 0])
  qed
  let ?N = "rounded B s P"
  have zero: "numeral_text (\<lambda>d. 48 + of_nat d) 10 0 = [dchar 0]" by (simp add: numeral_text_def dchar_def)
  consider "es = []" | "es \<noteq> []" "decpt \<le> 0" | "0 < decpt" by linarith
  then show ?thesis
  proof cases
    case 1
    then have N: "?N = 0" using cvt(3) by simp
    have pad: "padded_digits P 0 = replicate P 0"
      using padded_digits_unique[of "replicate P 0"] by simp
    have "push_zeros (int P) (filled_in 80 [dchar 0, 46]) = Some (filled_in 80 ([dchar 0, 46] @ map dchar (replicate (nat (int P)) 0)))"
      using P by (intro push_zeros_eq) simp_all
    then show ?thesis
      using 1 P by (simp add: f N fixed_text_def zero pad)
  next
    case 2
    then have ne: "dchar (hd es) \<noteq> 0" using cvt(2) by (intro dchar_ne) simp
    have len: "length es \<le> P" "int P - int (length es) = - decpt"
    proof -
      have "0 < nat (int P + decpt)" using 2(1) cvt(4) by (metis length_greater_0_conv)
      then show "length es \<le> P" "int P - int (length es) = - decpt" using 2(2) cvt(4) by simp_all
    qed
    then have "?N < 10 ^ P"
      using less_le_trans[OF dval_less[OF cvt(2)] power_increasing[OF len(1)]] cvt(3) by simp
    moreover have lenP: "nat (- decpt) + length es = P" using len by simp
    moreover have "padded_digits P ?N = replicate (nat (- decpt)) 0 @ es"
      using lenP padded_digits_unique[of "replicate (nat (- decpt)) 0 @ es"] cvt(2,3) len by (auto simp: ball_Un)
    ultimately have t: "fixed_text P ?N = [dchar 0, 46] @ map dchar (replicate (nat (- decpt)) 0) @ map dchar es"
      using 2 len by (auto simp: fixed_text_def zero)
    have z: "push_zeros (- decpt) (filled_in 80 [dchar 0, 46]) = Some (filled_in 80 ([dchar 0, 46] @ map dchar (replicate (nat (- decpt)) 0)))"
      using P len by (intro push_zeros_eq) simp_all
    have a: "push_all (map dchar es @ 0 # junk) (filled_in 80 ([dchar 0, 46] @ map dchar (replicate (nat (- decpt)) 0)))
      = Some (filled_in 80 (([dchar 0, 46] @ map dchar (replicate (nat (- decpt)) 0)) @ map dchar es))"
      using P len cvt(2) by (intro push_all_eq) simp_all
    have "float_f F (dbl s) (int P) (filled_in 80 []) = Some (filled_in 80 (fixed_text P ?N))"
      using 2 ne z a unfolding t by (simp add: f)
    moreover have "length (fixed_text P ?N) < 80" using P len unfolding t by simp
    ultimately show ?thesis by simp
  next
    case 3
    define j where "j = nat decpt"
    have ne: "es \<noteq> []" "hd es \<noteq> 0" using cvt(6)[OF 3] by simp_all
    then have nz: "dchar (hd es) \<noteq> 0" using cvt(2) by (intro dchar_ne) simp
    have j: "length es = P + j" "0 < j" "j \<le> 17" "decpt = int j" using 3 cvt(4,5) by (auto simp: j_def)
    have split: "es = take j es @ drop j es" by simp
    have small: "\<forall>d \<in> set (take j es). d < 10" "\<forall>d \<in> set (drop j es). d < 10"
      using cvt(2) by (auto dest: in_set_takeD in_set_dropD)
    have frac: "dval (drop j es) < 10 ^ P" using dval_less[OF small(2)] j by simp
    have N: "?N = dval (take j es) * 10 ^ P + dval (drop j es)"
      using arg_cong[OF split, of dval] cvt(3) j by (simp del: append_take_drop_id)
    have "?N div 10 ^ P = dval (take j es)" "?N mod 10 ^ P = dval (drop j es)" using frac unfolding N by simp_all
    moreover have "map dchar (take j es) = numeral_text (\<lambda>d. 48 + of_nat d) 10 (dval (take j es))"
      using small(1) ne j by (intro numeral_text_dval) (auto simp: hd_take)
    moreover have "padded_digits P (dval (drop j es)) = drop j es"
      using padded_digits_unique[OF small(2)] j by simp
    ultimately have t: "fixed_text P ?N = map dchar (take j es) @ (if P = 0 then [] else 46 # map dchar (drop j es))"
      by (simp add: fixed_text_def)
    have "push_point (int j) (int 0) (map dchar es @ 0 # junk) (filled_in 80 []) = Some (filled_in 80 (fixed_text P ?N))"
      using push_point_eq[OF cvt(2), of "[]" 80 "int j" 0 junk] P j unfolding t by auto
    then show ?thesis using ne nz P j 3 unfolding t by (simp add: f)
  qed
qed

text \<open>The characters that \<open>%f\<close> prints.\<close>

lemma fixed_text_no_nul: "0 \<notin> set (fixed_text P n)"
proof -
  have digit: "(48 + of_nat d :: ee_u8) \<noteq> 0" if "d < 10" for d using dchar_ne[OF that] by (simp add: dchar_def)
  have "0 \<notin> set (numeral_text (\<lambda>d. 48 + of_nat d) 10 (n div 10 ^ P))"
    using digit digits_less[of 10] by (auto simp: numeral_text_def)
  moreover have "0 \<notin> set (map dchar (padded_digits P (n mod 10 ^ P)))"
    using padded_digits_props(2) dchar_ne by fastforce
  ultimately show ?thesis by (simp add: fixed_text_def)
qed

lemma float_text_eq:
  assumes L: "double_laws F B dbl" and s: "s < 2 ^ 53" and P: "0 \<le> sint precision \<Longrightarrow> sint precision \<le> 60"
    and hash: "\<not> has flags HEX_PREP \<or> precision \<noteq> 0"
  defines "p \<equiv> if sint precision < 0 then 6 else nat (sint precision)"
  shows "float_text F (dbl s) precision 102 flags = Some (fixed_text p (rounded B s p))"
proof -
  have p: "p \<le> 60" "sint (if sint precision < 0 then 6 else precision) = int p"
    using P by (auto simp: p_def)
  let ?t = "fixed_text p (rounded B s p)"
  note ff = float_f_eq[OF L s p(1)]
  have tmp: "float_tmp F (dbl s) precision 102 flags = Some (map Some ?t @ Some 0 # replicate (79 - length ?t) None)"
  proof -
    have "bput (map Some ?t @ replicate (80 - length ?t) None) (length ?t) 0
        = Some (map Some ?t @ Some 0 # replicate (79 - length ?t) None)"
      using ff by (simp add: bput_def list_update_append Suc_diff_Suc[symmetric] numeral_eq_Suc)
    then have "parse_float F (dbl s) (replicate 80 None) 102 (int p) = Some (map Some ?t @ Some 0 # replicate (79 - length ?t) None)"
      using ff by (simp add: parse_float_def float_format_def filled_Nil) (simp add: filled_in_def)
    moreover have "\<not> (has flags HEX_PREP \<and> (if sint precision < 0 then 6 else precision) = 0)"
      using hash by auto
    ultimately show ?thesis using p(2) unfolding float_tmp_def Let_def if_not_P[OF \<open>\<not> (has flags HEX_PREP \<and> _)\<close>] by simp
  qed
  have w: "written (map Some ?t @ Some 0 # replicate (79 - length ?t) None) 0 = ?t @ [0]"
    by (simp add: written_def takeWhile_append comp_def)
  have tw: "takeWhile (\<lambda>c. c \<noteq> 0) (?t @ [0]) = ?t"
    using fixed_text_no_nul[of p "rounded B s p"] by (subst takeWhile_append2) auto
  have "strnlen (?t @ [0]) 256 = Some (length ?t)"
    using ff unfolding strnlen_eq tw by simp
  then show ?thesis using tmp w by (simp add: float_text_def)
qed

section \<open>The laws can hold\<close>

text \<open>Exact arithmetic on the rational numbers satisfies them.\<close>

definition truncated :: "rat \<Rightarrow> int" where
  "truncated x = (if x < 0 then - \<lfloor>- x\<rfloor> else \<lfloor>x\<rfloor>)"

definition rat_fpu :: "rat fpu" where
  "rat_fpu = \<lparr>fp_zero = 0, fp_one = 1, fp_ten = 10, fp_03 = 3 / 100, fp_less = (<), fp_eq = (=), fp_neg = uminus,
     fp_add = (+), fp_mul = (*), fp_div = (/),
     fp_modf = (\<lambda>x. (x - of_int (truncated x), of_int (truncated x))),
     fp_int = (\<lambda>x. if \<bar>truncated x\<bar> < 2 ^ 31 then Some (of_int (truncated x)) else None)\<rparr>"

definition rat_grid :: "nat \<Rightarrow> nat \<Rightarrow> rat" where
  "rat_grid B s = of_nat s / 2 ^ B"

lemma truncated_grid: "truncated (of_nat s / of_nat b) = int (s div b)"
proof -
  have "\<not> (of_nat s / of_nat b :: rat) < 0" by (simp add: not_less)
  then show ?thesis by (simp add: truncated_def floor_divide_of_nat_eq)
qed

lemma double_laws_rat:
  assumes "4 \<le> B" "B \<le> 49"
  shows "double_laws rat_fpu B (rat_grid B)"
proof -
  have b: "(2 :: rat) ^ B = of_nat (2 ^ B)" by simp
  have tr: "truncated (rat_grid B s) = int (s div 2 ^ B)" for s
    unfolding rat_grid_def b by (rule truncated_grid)
  have whole: "rat_grid B (n * 2 ^ B) = of_nat n" for n by (simp add: rat_grid_def)
  have frac: "rat_grid B s - of_nat (s div 2 ^ B) = rat_grid B (s mod 2 ^ B)" for s
  proof -
    have "(of_nat s :: rat) = of_nat (s div 2 ^ B) * 2 ^ B + of_nat (s mod 2 ^ B)"
      using arg_cong[OF div_mult_mod_eq[of s "2 ^ B"], of "of_nat :: nat \<Rightarrow> rat"]
      by (simp only: of_nat_add of_nat_mult of_nat_power of_nat_numeral)
    then show ?thesis by (simp add: rat_grid_def field_simps)
  qed
  have modf: "fp_modf rat_fpu (rat_grid B s) = (rat_grid B (s mod 2 ^ B), rat_grid B (s div 2 ^ B * 2 ^ B))" for s
    using frac[of s] by (simp add: rat_fpu_def tr whole)
  have less1: "rat_grid B s < 1 \<longleftrightarrow> s < 2 ^ B" for s
  proof -
    have "rat_grid B s < 1 \<longleftrightarrow> (of_nat s :: rat) < of_nat (2 ^ B)" by (simp add: rat_grid_def)
    then show ?thesis by (simp only: of_nat_less_iff)
  qed
  have digit: "fp_int rat_fpu (rat_grid B (d * 2 ^ B)) = Some (of_nat d)" if "d < 10" for d
    using that by (simp add: rat_fpu_def tr)
  have quotient: "\<exists>f. fp_modf rat_fpu (fp_div rat_fpu (rat_grid B (k * 2 ^ B)) (fp_ten rat_fpu)) = (f, rat_grid B (k div 10 * 2 ^ B)) \<and>
      fp_int rat_fpu (fp_mul rat_fpu (fp_add rat_fpu f (fp_03 rat_fpu)) (fp_ten rat_fpu)) = Some (of_nat (k mod 10))" for k
  proof -
    have q: "truncated (of_nat k / 10) = int (k div 10)" using truncated_grid[of k 10] by simp
    have "(of_nat k :: rat) = of_nat (k div 10) * 10 + of_nat (k mod 10)"
      using arg_cong[OF div_mult_mod_eq[of k 10], of "of_nat :: nat \<Rightarrow> rat"]
      by (simp only: of_nat_add of_nat_mult of_nat_numeral)
    then have "(of_nat k / 10 - of_nat (k div 10) + 3 / 100) * 10 = (of_nat (k mod 10) + 3 / 10 :: rat)"
      by (simp add: field_simps)
    moreover have "truncated (of_nat (k mod 10) + 3 / 10) = int (k mod 10)"
      by (simp add: truncated_def floor_eq_iff)
    ultimately show ?thesis by (simp add: rat_fpu_def whole q)
  qed
  have order: "\<not> fp_less rat_fpu (rat_grid B s) (fp_zero rat_fpu)" "fp_less rat_fpu (fp_zero rat_fpu) (rat_grid B s) \<longleftrightarrow> s \<noteq> 0"
    "fp_eq rat_fpu (rat_grid B s) (fp_zero rat_fpu) \<longleftrightarrow> s = 0" "fp_less rat_fpu (rat_grid B s) (fp_one rat_fpu) \<longleftrightarrow> s < 2 ^ B"
    "fp_mul rat_fpu (rat_grid B s) (fp_ten rat_fpu) = rat_grid B (10 * s)" for s
    using less1[of s] by (simp_all add: rat_fpu_def) (simp_all add: rat_grid_def not_less zero_less_divide_iff)
  show ?thesis
    unfolding double_laws_def
    by (intro conjI allI impI) (rule assms order modf quotient | (rule digit, assumption))+
qed

section \<open>The properties\<close>



section \<open>What goes wrong\<close>

text \<open>A precision of 78 overruns the array \<open>tmp[80]\<close> of \<open>flt\<close>, already for \<open>0.0\<close>: on zero all the
  arithmetic of the conversion stays at zero.\<close>

definition zero_fpu :: "unit fpu" where
  "zero_fpu = \<lparr>fp_zero = (), fp_one = (), fp_ten = (), fp_03 = (), fp_less = (\<lambda>x y. False), fp_eq = (\<lambda>x y. True),
     fp_neg = (\<lambda>x. x), fp_add = (\<lambda>x y. x), fp_mul = (\<lambda>x y. x), fp_div = (\<lambda>x y. x),
     fp_modf = (\<lambda>x. (x, x)), fp_int = (\<lambda>x. Some 0)\<rparr>"

lemma precision_overruns_tmp: "parse_float zero_fpu () (replicate 80 None) 102 78 = None"
  by code_simp

text \<open>\<open>decimal_point\<close> writes the point over the \<open>e\<close> of an exponent, and \<open>cropzeros\<close> removes an exponent
  altogether.  The only caller passes \<open>'f'\<close>, which has no exponent.\<close>

lemma decimal_point_drops_exponent:
  "map_option (\<lambda>b. takeWhile (\<lambda>c. c \<noteq> 0) (written b 0)) (decimal_point (map Some (bytes ''1e+00'' @ [0]) @ replicate 74 None))
    = Some (bytes ''1.++00'')"
  by code_simp

lemma cropzeros_drops_exponent:
  "map_option (\<lambda>b. takeWhile (\<lambda>c. c \<noteq> 0) (written b 0)) (cropzeros (map Some (bytes ''1.500e+05'' @ [0]) @ replicate 70 None))
    = Some (bytes ''1.5'')"
  by code_simp

end
