(* ===== verification/Barebones.thy ===== *)
theory Barebones
  imports Core_Run Ee_Printf Cvt_Spec
begin

text \<open>
  The bare-metal template of the CoreMark port: \<^verbatim>\<open>coremark/src/barebones/core_portme.c\<close> and
  \<^verbatim>\<open>core_portme.h\<close>.  The parts that the template leaves to the board with \<^verbatim>\<open>#error\<close> are parameters:
  the values that \<open>barebones_clock\<close> returns, \<open>uart_send_char\<close>, and the conversion of \<open>CLOCKS_PER_SEC\<close>
  to a \<open>double\<close>.
\<close>

section \<open>Configuration\<close>

text \<open>The kind of run, by \<open>TOTAL_DATA_SIZE\<close>.\<close>

definition run_of_size :: "nat \<Rightarrow> run" where
  "run_of_size size_bytes =
     (if size_bytes = 1200 then Profile_Run else if size_bytes = 2000 then Performance_Run else Validation_Run)"

text \<open>The initial values of the volatile variables for \<open>ITERATIONS\<close> iterations.\<close>

definition bare_volatiles :: "run \<Rightarrow> ee_s32 \<Rightarrow> volatiles" where
  "bare_volatiles kind its = (case kind of
     Validation_Run \<Rightarrow> \<lparr>seed1_volatile = 0x3415, seed2_volatile = 0x3415, seed3_volatile = 0x66,
       seed4_volatile = its, seed5_volatile = 0\<rparr>
   | Performance_Run \<Rightarrow> \<lparr>seed1_volatile = 0, seed2_volatile = 0, seed3_volatile = 0x66,
       seed4_volatile = its, seed5_volatile = 0\<rparr>
   | Profile_Run \<Rightarrow> \<lparr>seed1_volatile = 8, seed2_volatile = 8, seed3_volatile = 8,
       seed4_volatile = its, seed5_volatile = 0\<rparr>)"

text \<open>\<open>align_mem(x)\<close>: \<open>4 + ((x - 1) & ~3)\<close>.\<close>

definition bare_align_mem :: "ee_u32 \<Rightarrow> ee_u32" where
  "bare_align_mem x = 4 + ((x - 1) AND NOT 3)"

section \<open>Time\<close>

record bare_timer =
  start_time_val :: ee_u32
  stop_time_val :: ee_u32

definition bare_start_time :: "ee_u32 \<Rightarrow> bare_timer \<Rightarrow> bare_timer" where
  "bare_start_time clock t = t\<lparr>start_time_val := clock\<rparr>"

definition bare_stop_time :: "ee_u32 \<Rightarrow> bare_timer \<Rightarrow> bare_timer" where
  "bare_stop_time clock t = t\<lparr>stop_time_val := clock\<rparr>"

definition bare_get_time :: "bare_timer \<Rightarrow> ee_u32" where
  "bare_get_time t = stop_time_val t - start_time_val t"

text \<open>\<open>((secs_ret)ticks) / (secs_ret)EE_TICKS_PER_SEC\<close>, with the conversions to \<open>double\<close>.\<close>

definition bare_time_in_secs :: "'d fpu \<Rightarrow> (ee_u32 \<Rightarrow> 'd) \<Rightarrow> 'd \<Rightarrow> ee_u32 \<Rightarrow> 'd" where
  "bare_time_in_secs F of_ticks ticks_per_sec ticks = fp_div F (of_ticks ticks) ticks_per_sec"

section \<open>Start and end\<close>

text \<open>\<open>portable_init\<close>: the new \<open>portable_id\<close> and the console.\<close>

definition bare_message :: "string \<Rightarrow> ee_u8 list" where
  "bare_message s = bytes (s @ nl)"

definition bare_portable_init :: "'d fpu \<Rightarrow> (ee_u8 \<Rightarrow> 's \<Rightarrow> 's) \<Rightarrow> type_sizes \<Rightarrow> 's \<Rightarrow> (ee_u8 \<times> 's) option" where
  "bare_portable_init F uart_send_char sizes s = do {
     s \<leftarrow> (if sizeof_ptr_int sizes \<noteq> sizeof_u8_pointer sizes
       then map_option snd (Ee_Printf.ee_printf F uart_send_char
         (bare_message ''ERROR! Please define ee_ptr_int to a type that holds a pointer!'' @ [0]) [] s)
       else Some s);
     s \<leftarrow> (if sizeof_u32 sizes \<noteq> 4
       then map_option snd (Ee_Printf.ee_printf F uart_send_char
         (bare_message ''ERROR! Please define ee_u32 to a 32b unsigned type!'' @ [0]) [] s)
       else Some s);
     Some (1, s) }"

definition bare_portable_fini :: ee_u8 where
  "bare_portable_fini = 0"

section \<open>The template and the port\<close>

text \<open>The template starts with the same seeds as the port and aligns in the same way.\<close>

lemma bare_volatiles_eq: "bare_volatiles kind its = initial_volatiles kind its"
  by (simp add: bare_volatiles_def initial_volatiles_def)

lemma bare_align_mem_eq: "bare_align_mem x = align_mem x"
proof -
  have "(y + 4) AND NOT 3 = (y AND NOT 3) + 4" for y :: ee_u32
  proof -
    have split: "(z AND NOT m) + (z AND m) = z" for z m :: ee_u32
    proof -
      have "(z AND NOT m) AND (z AND m) = 0" by (rule bit_eqI) (auto simp: bit_simps)
      moreover have "(z AND NOT m) OR (z AND m) = z" by (rule bit_eqI) (auto simp: bit_simps)
      ultimately show ?thesis using word_plus_and_or[of "z AND NOT m" "z AND m"] by simp
    qed
    have s: "z AND NOT 3 = z - take_bit 2 z" for z :: ee_u32
      using split[of z 3] by (simp add: take_bit_eq_mask mask_eq_exp_minus_1 algebra_simps)
    have "unat (take_bit 2 (y + 4)) = unat (take_bit 2 y)"
      by (simp add: unsigned_take_bit_eq take_bit_eq_mod unat_word_ariths mod_mod_cancel)
    then have "take_bit 2 (y + 4) = take_bit 2 y" by (simp only: word_unat_eq_iff)
    then show ?thesis unfolding s by simp
  qed
  from this[of "x - 1"] show ?thesis by (simp add: bare_align_mem_def align_mem_def add.commute)
qed

lemma bare_get_time_exact:
  assumes "t < 2 ^ 32"
  shows "unat (bare_get_time (bare_stop_time (m + of_nat t) (bare_start_time m tm))) = t"
proof -
  have "bare_get_time (bare_stop_time (m + of_nat t) (bare_start_time m tm)) = of_nat t"
    by (simp add: bare_get_time_def bare_stop_time_def bare_start_time_def)
  then show ?thesis using assms by (simp only: unat_of_nat) simp
qed

lemma plain_text: "0 \<notin> set t \<Longrightarrow> 37 \<notin> set t \<Longrightarrow> vsprintf_from F str (t @ [0]) args = Some (str @ t)"
  by (induction t arbitrary: str) auto

lemma bare_messages:
  "0 \<notin> set (bare_message ''ERROR! Please define ee_ptr_int to a type that holds a pointer!'')"
  "37 \<notin> set (bare_message ''ERROR! Please define ee_ptr_int to a type that holds a pointer!'')"
  "0 \<notin> set (bare_message ''ERROR! Please define ee_u32 to a 32b unsigned type!'')"
  "37 \<notin> set (bare_message ''ERROR! Please define ee_u32 to a 32b unsigned type!'')"
  by code_simp+

text \<open>\<open>portable_init\<close> sends one message for each of the two sizes that is wrong and goes on.\<close>

lemma bare_portable_init_eq:
  "bare_portable_init F put sizes s = Some (1, fold put
     ((if sizeof_ptr_int sizes \<noteq> sizeof_u8_pointer sizes
       then bare_message ''ERROR! Please define ee_ptr_int to a type that holds a pointer!'' else []) @
      (if sizeof_u32 sizes \<noteq> 4 then bare_message ''ERROR! Please define ee_u32 to a 32b unsigned type!'' else [])) s)"
proof -
  have send: "map_option snd (Ee_Printf.ee_printf F put (t @ [0]) [] s) = Some (fold put t s)"
    if "0 \<notin> set t" "37 \<notin> set t" "length t < 1024" for t s
  proof -
    have all: "takeWhile (\<lambda>c. c \<noteq> 0) t = t" using that(1) by (auto simp: takeWhile_eq_all_conv)
    show ?thesis using that unfolding ee_printf_eq plain_text[OF that(1,2)] append_Nil option.case all Let_def by simp
  qed
  have len: "length (bare_message m) = length m + 1" for m by (simp add: bare_message_def nl_def)
  note sends = send[OF bare_messages(1,2)] send[OF bare_messages(3,4)]
  show ?thesis by (simp add: bare_portable_init_def sends len)
qed

end
